theory Spec2Isabelle
  imports Main "HOL-Library.Word"
begin

unbundle bit_operations_syntax

section \<open>Machine types, error numbers and bit macros\<close>

type_synonym u8 = "8 word"
type_synonym u16 = "16 word"
type_synonym u32 = "32 word"

text \<open>Linux error numbers (include/uapi/asm-generic/errno-base.h and errno.h). The
  drivers return them negated.\<close>

definition EIO :: int where "EIO = 5"
definition EAGAIN :: int where "EAGAIN = 11"
definition EBUSY :: int where "EBUSY = 16"
definition EINVAL :: int where "EINVAL = 22"
definition ENODATA :: int where "ENODATA = 61"
definition ETIMEDOUT :: int where "ETIMEDOUT = 110"

lemmas errno_defs = EIO_def EAGAIN_def EBUSY_def EINVAL_def ENODATA_def ETIMEDOUT_def

text \<open>\<^verbatim>\<open>BIT(n)\<close> and \<^verbatim>\<open>GENMASK(h, l)\<close> of include/linux/bits.h, as mathematical
  integers: they are \<^verbatim>\<open>unsigned long\<close> in C and no use in the drivers reaches bit 32.
  \<^verbatim>\<open>GENMASK\<close> is only meaningful for \<open>l \<le> h\<close>.\<close>

definition BIT :: "nat \<Rightarrow> int" where
  "BIT n = 2 ^ n"

definition GENMASK :: "nat \<Rightarrow> nat \<Rightarrow> int" where
  "GENMASK h l = 2 ^ Suc h - 2 ^ l"

text \<open>Little-endian packing of 16-bit words (\<^verbatim>\<open>cpu_to_le16\<close>, \<^verbatim>\<open>le16_to_cpu\<close>,
  \<^verbatim>\<open>get_unaligned_le16\<close>) over byte buffers.\<close>

definition le16_bytes :: "u16 \<Rightarrow> u8 list" where
  "le16_bytes v = [ucast v, ucast (drop_bit 8 v)]"

definition get_unaligned_le16 :: "u8 list \<Rightarrow> u16" where
  "get_unaligned_le16 buf = (ucast (buf ! 0)) OR push_bit 8 (ucast (buf ! 1))"

fun le16_words :: "u8 list \<Rightarrow> u16 list" where
  "le16_words (lo # hi # rest) = get_unaligned_le16 [lo, hi] # le16_words rest"
| "le16_words _ = []"

definition le16_buf :: "u16 list \<Rightarrow> u8 list" where
  "le16_buf ws = concat (map le16_bytes ws)"

section \<open>The kernel services the drivers call\<close>

text \<open>
  The GPIO, I2C and timer services are not part of the drivers. Their answers are a
  parameter: the \<open>n\<close>-th call of a service returns the \<open>n\<close>-th scripted answer. The
  \<open>world\<close> counts the calls made so far, keeps a microsecond clock that advances by the
  minimum duration of every sleep, and records every message put on the bus and every
  event handed to the IIO or input core.
\<close>

record kernel =
  gpio_value :: "nat \<Rightarrow> int"
  i2c_send_ret :: "nat \<Rightarrow> int"
  i2c_xfer_ret :: "nat \<Rightarrow> int"
  i2c_xfer_data :: "nat \<Rightarrow> u8 list"
  poll_value :: "nat \<Rightarrow> int"

datatype iio_event_direction = IIO_EV_DIR_RISING | IIO_EV_DIR_FALLING

datatype io =
    I2c_send "u8 list"
  | I2c_read "u8 list" nat
  | Gpio_set bool
  | Iio_push_event nat iio_event_direction
  | Iio_trigger_poll
  | Input_event nat nat int

record world =
  now :: nat
  gpio_reads :: nat
  sends :: nat
  xfers :: nat
  polls :: nat
  trace :: "io list"

definition usleep_range :: "nat \<Rightarrow> world \<Rightarrow> world" where
  "usleep_range us w = w\<lparr>now := now w + us\<rparr>"

definition msleep :: "nat \<Rightarrow> world \<Rightarrow> world" where
  "msleep ms w = w\<lparr>now := now w + 1000 * ms\<rparr>"

definition gpiod_get_value_cansleep :: "kernel \<Rightarrow> world \<Rightarrow> int \<times> world" where
  "gpiod_get_value_cansleep K w =
     (gpio_value K (gpio_reads w), w\<lparr>gpio_reads := Suc (gpio_reads w)\<rparr>)"

definition gpiod_set_value_cansleep :: "bool \<Rightarrow> world \<Rightarrow> world" where
  "gpiod_set_value_cansleep v w = w\<lparr>trace := trace w @ [Gpio_set v]\<rparr>"

definition i2c_master_send :: "kernel \<Rightarrow> u8 list \<Rightarrow> world \<Rightarrow> int \<times> world" where
  "i2c_master_send K msg w =
     (i2c_send_ret K (sends w),
      w\<lparr>sends := Suc (sends w), trace := trace w @ [I2c_send msg]\<rparr>)"

text \<open>A combined transfer: the register address is written, then \<open>len\<close> bytes are read
  into the caller's buffer. The buffer always holds exactly \<open>len\<close> bytes afterwards.\<close>

definition i2c_transfer :: "kernel \<Rightarrow> u8 list \<Rightarrow> nat \<Rightarrow> world \<Rightarrow> (int \<times> u8 list) \<times> world" where
  "i2c_transfer K addr len w =
     ((i2c_xfer_ret K (xfers w), take len (i2c_xfer_data K (xfers w) @ replicate len 0)),
      w\<lparr>xfers := Suc (xfers w), trace := trace w @ [I2c_read addr len]\<rparr>)"

text \<open>\<^verbatim>\<open>readx_poll_timeout(gpiod_get_value_cansleep, gpio, val, val, sleep_us, timeout_us)\<close>
  of include/linux/iopoll.h samples the line until it reads non-zero or the timeout has
  passed. The scripted answer is the value it last sampled; the macro yields 0 when that
  value is non-zero and \<open>-ETIMEDOUT\<close> otherwise, having then waited the whole timeout.\<close>

definition readx_poll_timeout :: "kernel \<Rightarrow> nat \<Rightarrow> world \<Rightarrow> (int \<times> int) \<times> world" where
  "readx_poll_timeout K timeout_us w =
     (let v = poll_value K (polls w) in
      ((if v \<noteq> 0 then 0 else - ETIMEDOUT, v),
       w\<lparr>polls := Suc (polls w), now := now w + (if v \<noteq> 0 then 0 else timeout_us)\<rparr>))"

text \<open>\<^verbatim>\<open>input_event(dev, type, code, value)\<close> with the event types of
  include/uapi/linux/input-event-codes.h; \<^verbatim>\<open>input_report_key\<close>, \<^verbatim>\<open>input_report_abs\<close> and
  \<^verbatim>\<open>input_sync\<close> are its wrappers.\<close>

definition EV_SYN :: nat where "EV_SYN = 0"
definition EV_KEY :: nat where "EV_KEY = 1"
definition EV_ABS :: nat where "EV_ABS = 3"
definition EV_SW :: nat where "EV_SW = 5"

definition input_event :: "nat \<Rightarrow> nat \<Rightarrow> int \<Rightarrow> world \<Rightarrow> world" where
  "input_event type code v w = w\<lparr>trace := trace w @ [Input_event type code v]\<rparr>"

definition input_report_key :: "nat \<Rightarrow> bool \<Rightarrow> world \<Rightarrow> world" where
  "input_report_key code v w = input_event EV_KEY code (if v then 1 else 0) w"

definition input_report_abs :: "nat \<Rightarrow> int \<Rightarrow> world \<Rightarrow> world" where
  "input_report_abs code v w = input_event EV_ABS code v w"

definition input_sync :: "world \<Rightarrow> world" where
  "input_sync w = input_event EV_SYN 0 0 w"

section \<open>IQS7219A: bus transport\<close>

definition IQS7219_SYS_STATUS :: u8 where "IQS7219_SYS_STATUS = 0x10"
definition IQS7219_SYS_STATUS_RESET :: u16 where "IQS7219_SYS_STATUS_RESET = word_of_int (BIT 11)"
definition IQS7219_SYS_STATUS_ATI_ERROR :: u16 where "IQS7219_SYS_STATUS_ATI_ERROR = word_of_int (BIT 9)"
definition IQS7219_SYS_STATUS_ATI_ACTIVE :: u16 where "IQS7219_SYS_STATUS_ATI_ACTIVE = word_of_int (BIT 8)"

definition IQS7219_SYS_SETUP :: u8 where "IQS7219_SYS_SETUP = 0x80"
definition IQS7219_SYS_SETUP_INTF_MODE_MASK :: u16 where
  "IQS7219_SYS_SETUP_INTF_MODE_MASK = word_of_int (GENMASK 7 6)"
definition IQS7219_SYS_SETUP_INTF_MODE_STAND :: u16 where
  "IQS7219_SYS_SETUP_INTF_MODE_STAND = word_of_int (BIT 7)"
definition IQS7219_SYS_SETUP_INTF_MODE_EVENT :: u16 where
  "IQS7219_SYS_SETUP_INTF_MODE_EVENT = word_of_int (BIT 6)"
definition IQS7219_SYS_SETUP_PWR_MODE_MASK :: u16 where
  "IQS7219_SYS_SETUP_PWR_MODE_MASK = word_of_int (GENMASK 5 4)"
definition IQS7219_SYS_SETUP_REDO_ATI :: u16 where
  "IQS7219_SYS_SETUP_REDO_ATI = word_of_int (BIT 2)"
definition IQS7219_SYS_SETUP_ACK_RESET :: u16 where
  "IQS7219_SYS_SETUP_ACK_RESET = word_of_int (BIT 0)"

definition IQS7219_COMMS_ERROR :: u16 where "IQS7219_COMMS_ERROR = 0xEEEE"
definition IQS7219_COMMS_RETRY_MS :: nat where "IQS7219_COMMS_RETRY_MS = 50"
definition IQS7219_COMMS_TIMEOUT_MS :: nat where "IQS7219_COMMS_TIMEOUT_MS = 100"
definition IQS7219_RESET_TIMEOUT_MS :: nat where "IQS7219_RESET_TIMEOUT_MS = 250"
definition IQS7219_ATI_TIMEOUT_MS :: nat where "IQS7219_ATI_TIMEOUT_MS = 2000"
definition IQS7219_NUM_COLS_STAT :: nat where "IQS7219_NUM_COLS_STAT = 12"
definition IQS7219_NUM_CHAN :: nat where "IQS7219_NUM_CHAN = 2"
definition IQS7219_NUM_RETRIES :: nat where "IQS7219_NUM_RETRIES = 5"

text \<open>\<^verbatim>\<open>iqs7219_irq_poll\<close>: sleep, sample the ready line, and repeat until the deadline
  \<open>ktime_get() + timeout_ms\<close> has passed.\<close>

function iqs7219_irq_poll_until :: "kernel \<Rightarrow> nat \<Rightarrow> world \<Rightarrow> int \<times> world" where
  "iqs7219_irq_poll_until K irq_timeout w =
     (case gpiod_get_value_cansleep K (usleep_range 1000 w) of (ret, w') \<Rightarrow>
        if ret < 0 then (ret, w')
        else if ret > 0 then (0, w')
        else if now w' < irq_timeout then iqs7219_irq_poll_until K irq_timeout w'
        else (- EBUSY, w'))"
  by pat_completeness auto
termination
  by (relation "measure (\<lambda>(K, t, w). t - now w)")
     (auto simp: gpiod_get_value_cansleep_def usleep_range_def)

declare iqs7219_irq_poll_until.simps [simp del]

definition iqs7219_irq_poll :: "kernel \<Rightarrow> nat \<Rightarrow> world \<Rightarrow> int \<times> world" where
  "iqs7219_irq_poll K timeout_ms w = iqs7219_irq_poll_until K (now w + 1000 * timeout_ms) w"

definition iqs7219_force_comms :: "kernel \<Rightarrow> world \<Rightarrow> int \<times> world" where
  "iqs7219_force_comms K w =
     (case gpiod_get_value_cansleep K w of (ret, w1) \<Rightarrow>
        if ret < 0 then (ret, w1)
        else if ret > 0 then (0, w1)
        else (case i2c_master_send K [0xFF, 0x00] w1 of (ret, w2) \<Rightarrow>
          if ret < 2 then ((if ret \<ge> 0 then - EIO else ret), msleep IQS7219_COMMS_RETRY_MS w2)
          else iqs7219_irq_poll K IQS7219_COMMS_TIMEOUT_MS w2))"

text \<open>The retry loop of \<^verbatim>\<open>iqs7219_read_burst\<close>. The first argument counts the attempts
  that remain (\<open>IQS7219_NUM_RETRIES - i\<close>); \<open>ret\<close> and \<open>buf\<close> are the return code and the
  caller's buffer as the previous attempt left them.\<close>

fun iqs7219_read_attempts ::
  "nat \<Rightarrow> kernel \<Rightarrow> u8 \<Rightarrow> nat \<Rightarrow> int \<times> u8 list \<Rightarrow> world \<Rightarrow> (int \<times> u8 list) \<times> world" where
  "iqs7219_read_attempts 0 K reg num_val rb w = (rb, w)"
| "iqs7219_read_attempts (Suc n) K reg num_val (ret0, buf) w =
     (case iqs7219_force_comms K w of (ret, w1) \<Rightarrow>
        if ret < 0 then iqs7219_read_attempts n K reg num_val (ret, buf) w1
        else (case i2c_transfer K [reg] (num_val * 2) w1 of ((ret, buf'), w2) \<Rightarrow>
          if ret < 2 then
            iqs7219_read_attempts n K reg num_val
              ((if ret \<ge> 0 then - EIO else ret), buf') (msleep IQS7219_COMMS_RETRY_MS w2)
          else if get_unaligned_le16 buf' = IQS7219_COMMS_ERROR then
            iqs7219_read_attempts n K reg num_val (- ENODATA, buf') w2
          else ((0, buf'), w2)))"

definition iqs7219_read_burst ::
  "kernel \<Rightarrow> u8 \<Rightarrow> u8 list \<Rightarrow> nat \<Rightarrow> world \<Rightarrow> (int \<times> u8 list) \<times> world" where
  "iqs7219_read_burst K reg val num_val w =
     (case iqs7219_read_attempts IQS7219_NUM_RETRIES K reg num_val (0, val) w of
        (rb, w') \<Rightarrow> (rb, usleep_range 50 w'))"

definition iqs7219_read_word :: "kernel \<Rightarrow> u8 \<Rightarrow> world \<Rightarrow> (int \<times> u16) \<times> world" where
  "iqs7219_read_word K reg w =
     (case iqs7219_read_burst K reg [0, 0] 1 w of
        ((error, val_buf), w') \<Rightarrow> ((error, get_unaligned_le16 val_buf), w'))"

fun iqs7219_write_attempts :: "nat \<Rightarrow> kernel \<Rightarrow> u8 list \<Rightarrow> int \<Rightarrow> world \<Rightarrow> int \<times> world" where
  "iqs7219_write_attempts 0 K msg_buf ret0 w = (ret0, w)"
| "iqs7219_write_attempts (Suc n) K msg_buf ret0 w =
     (case iqs7219_force_comms K w of (ret, w1) \<Rightarrow>
        if ret < 0 then iqs7219_write_attempts n K msg_buf ret w1
        else (case i2c_master_send K msg_buf w1 of (ret, w2) \<Rightarrow>
          if ret < int (length msg_buf) then
            iqs7219_write_attempts n K msg_buf
              (if ret \<ge> 0 then - EIO else ret) (msleep IQS7219_COMMS_RETRY_MS w2)
          else (0, w2)))"

definition iqs7219_write_burst :: "kernel \<Rightarrow> u8 \<Rightarrow> u8 list \<Rightarrow> world \<Rightarrow> int \<times> world" where
  "iqs7219_write_burst K reg val w =
     (case iqs7219_write_attempts IQS7219_NUM_RETRIES K (reg # val) 0 w of
        (ret, w') \<Rightarrow> (ret, usleep_range 50 w'))"

definition iqs7219_write_word :: "kernel \<Rightarrow> u8 \<Rightarrow> u16 \<Rightarrow> world \<Rightarrow> int \<times> world" where
  "iqs7219_write_word K reg val w = iqs7219_write_burst K reg (le16_bytes val) w"

lemma iqs7219_irq_poll_until_now:
  "now w + 1000 \<le> now (snd (iqs7219_irq_poll_until K t w))"
proof (induction K t w rule: iqs7219_irq_poll_until.induct)
  case (1 K t w)
  obtain ret w' where g: "gpiod_get_value_cansleep K (usleep_range 1000 w) = (ret, w')"
    by (cases "gpiod_get_value_cansleep K (usleep_range 1000 w)")
  then have n: "now w' = now w + 1000"
    by (auto simp: gpiod_get_value_cansleep_def usleep_range_def)
  show ?case
  proof (cases "\<not> ret < 0 \<and> \<not> ret > 0 \<and> now w' < t")
    case True
    with 1 [OF g [symmetric]] g n show ?thesis
      by (subst iqs7219_irq_poll_until.simps) simp
  next
    case False
    with g n show ?thesis
      by (subst iqs7219_irq_poll_until.simps) auto
  qed
qed

lemma iqs7219_irq_poll_now:
  "iqs7219_irq_poll K t w = (r, w') \<Longrightarrow> now w + 1000 \<le> now w'"
  using iqs7219_irq_poll_until_now [of w K "now w + 1000 * t"]
  by (simp add: iqs7219_irq_poll_def)

lemma iqs7219_force_comms_now:
  "iqs7219_force_comms K w = (r, w') \<Longrightarrow> now w \<le> now w'"
  by (auto simp: iqs7219_force_comms_def gpiod_get_value_cansleep_def i2c_master_send_def
        msleep_def split: prod.splits if_splits dest!: iqs7219_irq_poll_now)

lemma iqs7219_read_attempts_now:
  "iqs7219_read_attempts n K reg num_val rb w = (rb', w') \<Longrightarrow> now w \<le> now w'"
proof (induction n arbitrary: rb w)
  case 0
  then show ?case by simp
next
  case (Suc n)
  obtain ret0 buf where rb: "rb = (ret0, buf)" by (cases rb)
  obtain ret w1 where fc: "iqs7219_force_comms K w = (ret, w1)"
    by (cases "iqs7219_force_comms K w")
  note n1 = iqs7219_force_comms_now [OF fc]
  obtain r2 b2 w2 where tr: "i2c_transfer K [reg] (num_val * 2) w1 = ((r2, b2), w2)"
    by (cases "i2c_transfer K [reg] (num_val * 2) w1") auto
  then have n2: "now w2 = now w1" by (auto simp: i2c_transfer_def)
  from Suc.prems rb fc tr n1 n2 show ?case
    by (auto simp: msleep_def split: if_splits dest!: Suc.IH)
qed

lemma iqs7219_read_word_now:
  "iqs7219_read_word K reg w = (rv, w') \<Longrightarrow> now w \<le> now w'"
  by (auto simp: iqs7219_read_word_def iqs7219_read_burst_def usleep_range_def
        split: prod.splits dest!: iqs7219_read_attempts_now)

section \<open>IQS7219A: device state and register groups\<close>

datatype iqs7219_reg_key_id =
    IQS7219_REG_KEY_ATI
  | IQS7219_REG_KEY_SYS
  | IQS7219_REG_KEY_PXS
  | IQS7219_REG_KEY_CAP
  | IQS7219_REG_KEY_EVENT
  | IQS7219_REG_KEY_CHAN

datatype iqs7219_reg_grp_id =
    IQS7219_REG_GRP_ATI
  | IQS7219_REG_GRP_SYS
  | IQS7219_REG_GRP_PXS
  | IQS7219_REG_GRP_CAP
  | IQS7219_REG_GRP_EVENT nat
  | IQS7219_REG_GRP_CHAN nat

text \<open>The groups in the order of \<^verbatim>\<open>enum iqs7219_reg_grp_id\<close>, as the loop of
  \<^verbatim>\<open>iqs7219_dev_init\<close> visits them. \<^verbatim>\<open>IQS7219_REG_GRP_EVENT_0 + c\<close> is
  \<open>IQS7219_REG_GRP_EVENT c\<close>, and likewise for the channel groups.\<close>

definition iqs7219_all_reg_grps :: "iqs7219_reg_grp_id list" where
  "iqs7219_all_reg_grps =
     [IQS7219_REG_GRP_ATI, IQS7219_REG_GRP_SYS, IQS7219_REG_GRP_PXS, IQS7219_REG_GRP_CAP,
      IQS7219_REG_GRP_EVENT 0, IQS7219_REG_GRP_EVENT 1,
      IQS7219_REG_GRP_CHAN 0, IQS7219_REG_GRP_CHAN 1]"

text \<open>\<^verbatim>\<open>struct iqs7219_reg_grp_desc\<close> and \<^verbatim>\<open>struct iqs323_reg_grp_desc\<close>; the second has
  no \<^verbatim>\<open>reg_key\<close> member, which is the field \<open>grp_key\<close> here.\<close>

record 'k reg_grp_desc =
  base :: u16
  grp_key :: 'k
  num_row :: nat
  num_col :: nat

type_synonym iqs7219_reg_grp_desc = "iqs7219_reg_key_id reg_grp_desc"

fun iqs7219_reg_grps :: "iqs7219_reg_grp_id \<Rightarrow> iqs7219_reg_grp_desc" where
  "iqs7219_reg_grps IQS7219_REG_GRP_ATI =
     \<lparr>base = 0x20, grp_key = IQS7219_REG_KEY_ATI, num_row = 2, num_col = 5\<rparr>"
| "iqs7219_reg_grps IQS7219_REG_GRP_SYS =
     \<lparr>base = 0x80, grp_key = IQS7219_REG_KEY_SYS, num_row = 1, num_col = 10\<rparr>"
| "iqs7219_reg_grps IQS7219_REG_GRP_PXS =
     \<lparr>base = 0x8A, grp_key = IQS7219_REG_KEY_PXS, num_row = 2, num_col = 1\<rparr>"
| "iqs7219_reg_grps IQS7219_REG_GRP_CAP =
     \<lparr>base = 0x8C, grp_key = IQS7219_REG_KEY_CAP, num_row = 1, num_col = 1\<rparr>"
| "iqs7219_reg_grps (IQS7219_REG_GRP_EVENT c) =
     \<lparr>base = (if c = 0 then 0x90 else 0xB0), grp_key = IQS7219_REG_KEY_EVENT,
      num_row = 3, num_col = 5\<rparr>"
| "iqs7219_reg_grps (IQS7219_REG_GRP_CHAN c) =
     \<lparr>base = (if c = 0 then 0xA0 else 0xC0), grp_key = IQS7219_REG_KEY_CHAN,
      num_row = 1, num_col = 13\<rparr>"

text \<open>\<^verbatim>\<open>struct iqs7219_private\<close>. The GPIO, client and trigger handles are left to the
  kernel model; \<open>scan_data\<close> holds \<open>None\<close> where the C code stored a value it read from
  beyond the end of \<^verbatim>\<open>scan[]\<close>.\<close>

record iqs7219_private =
  reset_gpio :: bool
  pxs_flags :: u16
  intf_mode :: u16
  ati_setup :: "u16 list list"
  sys_setup :: "u16 list"
  pxs_setup :: "u16 list list"
  cap_setup :: u16
  event_setup :: "u16 list list list"
  chan_setup :: "u16 list list"
  event_mask :: "u16 list"
  comms_setup :: u16
  scan_data :: "int option list"
  event_enable :: "bool list"
  trig_valid :: "bool list"
  trig_enable :: bool
  timestamp :: int
  scan_mux :: "nat list"

text \<open>\<^verbatim>\<open>iqs7219_setup\<close> returns a pointer to a row of a register image. The model reads
  the row and writes a row back.\<close>

fun iqs7219_setup :: "iqs7219_private \<Rightarrow> iqs7219_reg_grp_id \<Rightarrow> nat \<Rightarrow> u16 list" where
  "iqs7219_setup st IQS7219_REG_GRP_ATI row = ati_setup st ! row"
| "iqs7219_setup st IQS7219_REG_GRP_SYS row = sys_setup st"
| "iqs7219_setup st IQS7219_REG_GRP_PXS row = pxs_setup st ! row"
| "iqs7219_setup st IQS7219_REG_GRP_CAP row = [cap_setup st]"
| "iqs7219_setup st (IQS7219_REG_GRP_EVENT c) row = event_setup st ! c ! row"
| "iqs7219_setup st (IQS7219_REG_GRP_CHAN c) row = chan_setup st ! c"

fun iqs7219_setup_update ::
  "iqs7219_reg_grp_id \<Rightarrow> nat \<Rightarrow> u16 list \<Rightarrow> iqs7219_private \<Rightarrow> iqs7219_private" where
  "iqs7219_setup_update IQS7219_REG_GRP_ATI row v st = st\<lparr>ati_setup := (ati_setup st)[row := v]\<rparr>"
| "iqs7219_setup_update IQS7219_REG_GRP_SYS row v st = st\<lparr>sys_setup := v\<rparr>"
| "iqs7219_setup_update IQS7219_REG_GRP_PXS row v st = st\<lparr>pxs_setup := (pxs_setup st)[row := v]\<rparr>"
| "iqs7219_setup_update IQS7219_REG_GRP_CAP row v st = st\<lparr>cap_setup := v ! 0\<rparr>"
| "iqs7219_setup_update (IQS7219_REG_GRP_EVENT c) row v st =
     st\<lparr>event_setup := (event_setup st)[c := (event_setup st ! c)[row := v]]\<rparr>"
| "iqs7219_setup_update (IQS7219_REG_GRP_CHAN c) row v st =
     st\<lparr>chan_setup := (chan_setup st)[c := v]\<rparr>"

text \<open>\<^verbatim>\<open>iqs7219_dev_init\<close> walks \<open>num_row * num_col\<close> words from the pointer to row 0,
  that is, all rows of the group in row-major order.\<close>

definition iqs7219_rows :: "iqs7219_reg_grp_id \<Rightarrow> nat list" where
  "iqs7219_rows g = [0..<num_row (iqs7219_reg_grps g)]"

definition iqs7219_setup_flat :: "iqs7219_private \<Rightarrow> iqs7219_reg_grp_id \<Rightarrow> u16 list" where
  "iqs7219_setup_flat st g =
     take (num_row (iqs7219_reg_grps g) * num_col (iqs7219_reg_grps g))
       (concat (map (iqs7219_setup st g) (iqs7219_rows g)))"

definition iqs7219_setup_flat_update ::
  "iqs7219_reg_grp_id \<Rightarrow> u16 list \<Rightarrow> iqs7219_private \<Rightarrow> iqs7219_private" where
  "iqs7219_setup_flat_update g v st =
     fold (\<lambda>row. iqs7219_setup_update g row
             (take (num_col (iqs7219_reg_grps g)) (drop (row * num_col (iqs7219_reg_grps g)) v)))
       (iqs7219_rows g) st"

section \<open>IQS7219A: ATI trigger and device initialisation\<close>

text \<open>The \<^verbatim>\<open>do ... while\<close> loop of \<^verbatim>\<open>iqs7219_ati_trigger\<close>. \<open>Some r\<close> is a \<^verbatim>\<open>return r\<close>
  from inside the loop; \<open>None\<close> means the loop was left by \<^verbatim>\<open>break\<close> or by the deadline,
  so the attempt failed. A \<^verbatim>\<open>continue\<close> jumps to the deadline test.\<close>

function iqs7219_ati_wait ::
  "kernel \<Rightarrow> u16 \<Rightarrow> u16 \<Rightarrow> nat \<Rightarrow> world \<Rightarrow> int option \<times> world" where
  "iqs7219_ati_wait K mode sys ati_timeout w =
     (case iqs7219_irq_poll K IQS7219_COMMS_TIMEOUT_MS w of (error, w1) \<Rightarrow>
        if error \<noteq> 0 then
          (if now w1 < ati_timeout then iqs7219_ati_wait K mode sys ati_timeout w1
           else (None, w1))
        else (case iqs7219_read_word K IQS7219_SYS_STATUS w1 of ((error, sys_status), w2) \<Rightarrow>
          if error \<noteq> 0 then (Some error, w2)
          else if sys_status AND IQS7219_SYS_STATUS_ATI_ACTIVE \<noteq> 0 then
            (if now w2 < ati_timeout then iqs7219_ati_wait K mode sys ati_timeout w2
             else (None, w2))
          else if sys_status AND IQS7219_SYS_STATUS_ATI_ERROR \<noteq> 0 then (None, w2)
          else (case iqs7219_write_word K IQS7219_SYS_SETUP (sys OR mode) w2 of
                  (ret, w3) \<Rightarrow> (Some ret, w3))))"
  by pat_completeness auto
termination
proof (relation "measure (\<lambda>(K, m, s, t, w). t - now w)", goal_cases)
  case 1
  show ?case by simp
next
  case (2 K mode sys ati_timeout w x1 x2)
  then show ?case
    using iqs7219_irq_poll_now [of K IQS7219_COMMS_TIMEOUT_MS w x1 x2] by simp
next
  case (3 K mode sys ati_timeout w x1 x2 x1a x2a x1b x2b)
  then show ?case
    using iqs7219_irq_poll_now [of K IQS7219_COMMS_TIMEOUT_MS w x1 x2]
      iqs7219_read_word_now [of K IQS7219_SYS_STATUS x2 "(x1b, x2b)" x2a]
    by simp
qed

declare iqs7219_ati_wait.simps [simp del]

text \<open>The \<^verbatim>\<open>for\<close> loop of \<^verbatim>\<open>iqs7219_ati_trigger\<close>; the first argument counts the attempts
  that remain.\<close>

fun iqs7219_ati_attempts :: "nat \<Rightarrow> kernel \<Rightarrow> u16 \<Rightarrow> u16 \<Rightarrow> world \<Rightarrow> int \<times> world" where
  "iqs7219_ati_attempts 0 K mode sys w = (- ETIMEDOUT, w)"
| "iqs7219_ati_attempts (Suc n) K mode sys w =
     (case iqs7219_write_word K IQS7219_SYS_SETUP
             ((sys AND NOT IQS7219_SYS_SETUP_PWR_MODE_MASK) OR IQS7219_SYS_SETUP_REDO_ATI) w
      of (error, w1) \<Rightarrow>
        if error \<noteq> 0 then (error, w1)
        else (case iqs7219_ati_wait K mode sys (now w1 + 1000 * IQS7219_ATI_TIMEOUT_MS) w1 of
                (Some ret, w2) \<Rightarrow> (ret, w2)
              | (None, w2) \<Rightarrow> iqs7219_ati_attempts n K mode sys w2))"

definition iqs7219_ati_trigger :: "kernel \<Rightarrow> iqs7219_private \<Rightarrow> world \<Rightarrow> int \<times> world" where
  "iqs7219_ati_trigger K st w =
     (case iqs7219_read_word K IQS7219_SYS_SETUP w of ((error, sys), w1) \<Rightarrow>
        if error \<noteq> 0 then (error, w1)
        else iqs7219_ati_attempts IQS7219_NUM_RETRIES K (intf_mode st)
               (sys AND NOT IQS7219_SYS_SETUP_INTF_MODE_MASK) w1)"

definition IQS7219_EVENT_MASK_ALL :: u16 where "IQS7219_EVENT_MASK_ALL = word_of_int (GENMASK 4 0)"
definition IQS7219_EVENT_MASK_ATI :: u16 where "IQS7219_EVENT_MASK_ATI = word_of_int (BIT 3)"
definition IQS7219_COMMS_SETUP :: u16 where "IQS7219_COMMS_SETUP = 0x8D"
definition IQS7219_COMMS_HOLD :: u16 where "IQS7219_COMMS_HOLD = word_of_int (BIT 8)"

definition iqs7219_write_comms :: "kernel \<Rightarrow> iqs7219_private \<Rightarrow> u16 \<Rightarrow> world \<Rightarrow> int \<times> world" where
  "iqs7219_write_comms K st msk w =
     (if comms_setup st = 0 then (0, w)
      else (case iqs7219_read_word K (ucast (comms_setup st)) w of ((error, v), w1) \<Rightarrow>
        if error \<noteq> 0 then (error, w1)
        else iqs7219_write_word K (ucast (comms_setup st))
               ((v AND NOT (IQS7219_COMMS_HOLD OR IQS7219_EVENT_MASK_ALL)) OR msk) w1))"

datatype rw_dir = READ | WRITE

text \<open>One pass of the group loop of \<^verbatim>\<open>iqs7219_dev_init\<close>. The scratch buffer comes
  zeroed from \<^verbatim>\<open>kcalloc\<close>, which is taken to succeed; a failed read still copies the
  buffer into the register image before the error is returned.\<close>

definition iqs7219_dev_init_grp ::
  "kernel \<Rightarrow> rw_dir \<Rightarrow> iqs7219_reg_grp_id \<Rightarrow> iqs7219_private \<Rightarrow> world
     \<Rightarrow> (int \<times> iqs7219_private) \<times> world" where
  "iqs7219_dev_init_grp K dir g st w =
     (let num_val = num_row (iqs7219_reg_grps g) * num_col (iqs7219_reg_grps g) in
      case dir of
        READ \<Rightarrow>
          (case iqs7219_read_burst K (ucast (base (iqs7219_reg_grps g))) (replicate (num_val * 2) 0) num_val w
           of ((error, val_buf), w1) \<Rightarrow>
             ((error, iqs7219_setup_flat_update g (le16_words val_buf) st), w1))
      | WRITE \<Rightarrow>
          (case iqs7219_write_burst K (ucast (base (iqs7219_reg_grps g))) (le16_buf (iqs7219_setup_flat st g)) w
           of (error, w1) \<Rightarrow> ((error, st), w1)))"

fun iqs7219_dev_init_grps ::
  "kernel \<Rightarrow> rw_dir \<Rightarrow> iqs7219_reg_grp_id list \<Rightarrow> iqs7219_private \<Rightarrow> world
     \<Rightarrow> (int \<times> iqs7219_private) \<times> world" where
  "iqs7219_dev_init_grps K dir [] st w = ((0, st), w)"
| "iqs7219_dev_init_grps K dir (g # gs) st w =
     (case iqs7219_dev_init_grp K dir g st w of ((error, st1), w1) \<Rightarrow>
        if error \<noteq> 0 then ((error, st1), w1)
        else iqs7219_dev_init_grps K dir gs st1 w1)"

definition iqs7219_enabled_event_mask :: "iqs7219_private \<Rightarrow> u16" where
  "iqs7219_enabled_event_mask st =
     fold (\<lambda>i m. if trig_enable st \<or> event_enable st ! i then m OR event_mask st ! i else m)
       [0..<IQS7219_NUM_CHAN] IQS7219_EVENT_MASK_ATI"

definition iqs7219_dev_init ::
  "kernel \<Rightarrow> rw_dir \<Rightarrow> iqs7219_private \<Rightarrow> world \<Rightarrow> (int \<times> iqs7219_private) \<times> world" where
  "iqs7219_dev_init K dir st w =
     (case (if dir = WRITE
            then iqs7219_write_word K IQS7219_SYS_SETUP
                   (sys_setup st ! 0 OR IQS7219_SYS_SETUP_ACK_RESET) w
            else (0, w)) of (error, w1) \<Rightarrow>
      if error \<noteq> 0 then ((error, st), w1)
      else (case iqs7219_write_comms K st IQS7219_COMMS_HOLD w1 of (error, w2) \<Rightarrow>
        if error \<noteq> 0 then ((error, st), w2)
        else (case iqs7219_dev_init_grps K dir iqs7219_all_reg_grps st w2 of ((error, st3), w3) \<Rightarrow>
          if error \<noteq> 0 then ((error, st3), w3)
          else (case iqs7219_write_comms K st3 (iqs7219_enabled_event_mask st3) w3 of (error, w4) \<Rightarrow>
            if error \<noteq> 0 then ((error, st3), w4)
            else if dir = READ then ((0, st3), w4)
            else (case iqs7219_ati_trigger K st3 w4 of (error, w5) \<Rightarrow> ((error, st3), w5))))))"

section \<open>IQS7219A: status decoding\<close>

text \<open>\<^verbatim>\<open>enum iqs7219_scan_id\<close>: the positions of the per-channel \<^verbatim>\<open>scan[]\<close> array.\<close>

definition IQS7219_SCAN_DELTA :: nat where "IQS7219_SCAN_DELTA = 0"
definition IQS7219_SCAN_FILT :: nat where "IQS7219_SCAN_FILT = 1"
definition IQS7219_SCAN_RAW :: nat where "IQS7219_SCAN_RAW = 2"
definition IQS7219_SCAN_LTA :: nat where "IQS7219_SCAN_LTA = 3"
definition IQS7219_SCAN_VAR :: nat where "IQS7219_SCAN_VAR = 4"
definition IQS7219_SCAN_PXS :: nat where "IQS7219_SCAN_PXS = 5"
definition IQS7219_NUM_SCAN :: nat where "IQS7219_NUM_SCAN = 6"

lemmas scan_id_defs = IQS7219_SCAN_DELTA_def IQS7219_SCAN_FILT_def IQS7219_SCAN_RAW_def
  IQS7219_SCAN_LTA_def IQS7219_SCAN_VAR_def IQS7219_SCAN_PXS_def IQS7219_NUM_SCAN_def

text \<open>The \<^verbatim>\<open>scan[IQS7219_NUM_SCAN]\<close> array that \<^verbatim>\<open>iqs7219_report_sync\<close> fills for channel
  \<open>i\<close> from the twelve status words, in the order of \<^verbatim>\<open>enum iqs7219_scan_id\<close>. The
  entries are C \<^verbatim>\<open>int\<close>s; the variance is assembled from two words in 32 bits.\<close>

definition iqs7219_scan :: "u16 list \<Rightarrow> u16 \<Rightarrow> nat \<Rightarrow> int list" where
  "iqs7219_scan val_buf flags i =
     (let filt = uint (val_buf ! (2 + i * 2));
          raw = uint (val_buf ! (10 + i));
          lta = uint (val_buf ! (3 + i * 2));
          var = sint (push_bit 16 (ucast (val_buf ! (7 + i * 2)) :: u32)
                        OR ucast (val_buf ! (6 + i * 2)));
          delta = max (lta - filt) 0;
          pxs = uint (drop_bit (i * 4) flags AND word_of_int (GENMASK 3 0))
      in [delta, filt, raw, lta, var, pxs])"

text \<open>Reading \<^verbatim>\<open>scan[k]\<close>: \<open>None\<close> when \<open>k\<close> lies outside the array, where the C code
  reads whatever the stack holds.\<close>

definition scan_at :: "int list \<Rightarrow> int \<Rightarrow> int option" where
  "scan_at scan k = (if 0 \<le> k \<and> nat k < length scan then Some (scan ! nat k) else None)"

definition iio_push_event :: "nat \<Rightarrow> iio_event_direction \<Rightarrow> world \<Rightarrow> world" where
  "iio_push_event chan dir w = w\<lparr>trace := trace w @ [Iio_push_event chan dir]\<rparr>"

definition iio_trigger_poll_chained :: "world \<Rightarrow> world" where
  "iio_trigger_poll_chained w = w\<lparr>trace := trace w @ [Iio_trigger_poll]\<rparr>"

text \<open>The body of the inner loop of \<^verbatim>\<open>iqs7219_report_sync\<close>, for channel \<open>i\<close> and event
  \<open>j\<close>; \<open>flags\<close> is the proximity flag word just read.\<close>

definition iqs7219_report_event ::
  "u16 \<Rightarrow> nat \<Rightarrow> nat \<Rightarrow> iqs7219_private \<times> world \<Rightarrow> iqs7219_private \<times> world" where
  "iqs7219_report_event flags i j sw =
     (case sw of (st, w) \<Rightarrow>
        let msk = push_bit (i * 4) (event_mask st ! i AND word_of_int (BIT j));
            event_state = flags AND msk;
            event_cache = pxs_flags st AND msk
        in if event_state XOR event_cache = 0 then (st, w)
           else
             let st1 = st\<lparr>trig_valid := (trig_valid st)[i := trig_valid st ! i \<or> trig_enable st]\<rparr>
             in if \<not> event_enable st1 ! i then (st1, w)
                else (st1, iio_push_event i
                             (if event_state \<noteq> 0 then IIO_EV_DIR_RISING else IIO_EV_DIR_FALLING) w))"

text \<open>The body of the channel loop. \<open>out\<close> is what \<^verbatim>\<open>*val\<close> holds, \<open>pending\<close> is
  \<^verbatim>\<open>trig_pending\<close>.\<close>

definition iqs7219_report_chan ::
  "u16 list \<Rightarrow> u16 \<Rightarrow> int \<Rightarrow> int \<Rightarrow> nat
     \<Rightarrow> iqs7219_private \<times> int option \<times> bool \<times> world
     \<Rightarrow> iqs7219_private \<times> int option \<times> bool \<times> world" where
  "iqs7219_report_chan val_buf flags scan_id chan_index i acc =
     (case acc of (st, out, pending, w) \<Rightarrow>
        let scan = iqs7219_scan val_buf flags i;
            st1 = st\<lparr>scan_data := (scan_data st)[i := scan_at scan (int (scan_mux st ! i))]\<rparr>;
            out1 = (if int i = chan_index then scan_at scan scan_id else out);
            st2 = st1\<lparr>trig_valid := (trig_valid st1)[i := (intf_mode st1 = 0 \<and> trig_enable st1)]\<rparr>
        in case fold (iqs7219_report_event flags i) [0..<3] (st2, w) of (st3, w3) \<Rightarrow>
             (st3, out1, pending \<or> trig_valid st3 ! i, w3))"

text \<open>\<^verbatim>\<open>iqs7219_report_sync\<close>. \<open>val\<close> tells whether the caller passed a non-null \<^verbatim>\<open>val\<close>
  pointer (every caller that names a channel does); the result is the return code, what
  \<^verbatim>\<open>*val\<close> received, the new device state and the new world. The mutex is not modelled.\<close>

definition iqs7219_report_sync ::
  "kernel \<Rightarrow> iqs7219_private \<Rightarrow> int \<Rightarrow> int \<Rightarrow> bool \<Rightarrow> world
     \<Rightarrow> (int \<times> int option) \<times> iqs7219_private \<times> world" where
  "iqs7219_report_sync K st scan_id chan_index val w =
     (let ts = int (now w) * 1000 in
      case iqs7219_read_burst K IQS7219_SYS_STATUS (replicate (IQS7219_NUM_COLS_STAT * 2) 0)
             IQS7219_NUM_COLS_STAT w of ((error, bytes), w1) \<Rightarrow>
        if error \<noteq> 0 then ((error, None), st, w1)
        else
          let val_buf = le16_words bytes; sys_flags = val_buf ! 0; flags = val_buf ! 1 in
          if sys_flags AND IQS7219_SYS_STATUS_RESET \<noteq> 0 then
            (case iqs7219_dev_init K WRITE st w1 of ((error, st'), w2) \<Rightarrow>
               (((if val \<and> error = 0 then - EAGAIN else error), None), st', w2))
          else if sys_flags AND IQS7219_SYS_STATUS_ATI_ERROR \<noteq> 0 then
            (case iqs7219_ati_trigger K st w1 of (error, w2) \<Rightarrow>
               (((if val \<and> error = 0 then - EAGAIN else error), None), st, w2))
          else if sys_flags AND IQS7219_SYS_STATUS_ATI_ACTIVE \<noteq> 0 then
            (((if val then - EAGAIN else 0), None), st, w1)
          else
            (case fold (iqs7219_report_chan val_buf flags scan_id chan_index)
                    [0..<IQS7219_NUM_CHAN] (st, None, False, w1) of (st2, out, pending, w2) \<Rightarrow>
               ((0, out), st2\<lparr>timestamp := ts, pxs_flags := flags\<rparr>,
                (if pending then iio_trigger_poll_chained w2 else w2))))"

text \<open>\<^verbatim>\<open>iqs7219_scan_mux_set\<close>, the sysfs setter of a channel's scan multiplexer.\<close>

definition iqs7219_scan_mux_set :: "iqs7219_private \<Rightarrow> nat \<Rightarrow> nat \<Rightarrow> int \<times> iqs7219_private" where
  "iqs7219_scan_mux_set st chan mux =
     (if mux > IQS7219_NUM_SCAN then (- EINVAL, st)
      else (0, st\<lparr>scan_mux := (scan_mux st)[chan := mux]\<rparr>))"

section \<open>Firmware node properties\<close>

text \<open>
  Modelled from the spec: the property source (\<^verbatim>\<open>fwnode_property_present\<close>,
  \<^verbatim>\<open>fwnode_property_read_u32\<close>, \<^verbatim>\<open>fwnode_property_count_u32\<close>,
  \<^verbatim>\<open>fwnode_property_read_u32_array\<close> and the named-child lookups of
  drivers/base/property.c, which is not under src/). The specification asks only for
  "is the key present" and "read the key as an unsigned integer". A node is a list of
  properties, each an array of 32-bit cells (empty for a boolean flag), and a list of
  named children. Reading a missing key fails with \<open>-EINVAL\<close>, reading a flag as a
  number with \<open>-ENODATA\<close>, reading more cells than there are with \<open>-EOVERFLOW\<close>.
\<close>

definition EOVERFLOW :: int where "EOVERFLOW = 75"

datatype fwnode = Fwnode (fw_props: "(string \<times> u32 list) list") (fw_children: "(string \<times> fwnode) list")

definition fwnode_property_present :: "fwnode \<Rightarrow> string \<Rightarrow> bool" where
  "fwnode_property_present node key = (map_of (fw_props node) key \<noteq> None)"

definition fwnode_property_read_u32 :: "fwnode \<Rightarrow> string \<Rightarrow> int \<times> u32" where
  "fwnode_property_read_u32 node key =
     (case map_of (fw_props node) key of
        None \<Rightarrow> (- EINVAL, 0)
      | Some [] \<Rightarrow> (- ENODATA, 0)
      | Some (v # vs) \<Rightarrow> (0, v))"

definition fwnode_property_count_u32 :: "fwnode \<Rightarrow> string \<Rightarrow> int" where
  "fwnode_property_count_u32 node key =
     (case map_of (fw_props node) key of None \<Rightarrow> - EINVAL | Some vs \<Rightarrow> int (length vs))"

definition fwnode_property_read_u32_array :: "fwnode \<Rightarrow> string \<Rightarrow> nat \<Rightarrow> int \<times> u32 list" where
  "fwnode_property_read_u32_array node key count =
     (case map_of (fw_props node) key of
        None \<Rightarrow> (- EINVAL, [])
      | Some vs \<Rightarrow> if length vs < count then (- EOVERFLOW, []) else (0, take count vs))"

definition fwnode_get_named_child_node :: "fwnode \<Rightarrow> string \<Rightarrow> fwnode option" where
  "fwnode_get_named_child_node node child = map_of (fw_children node) child"

text \<open>\<^verbatim>\<open>snprintf(buf, sizeof(buf), "%s-%d", name, index)\<close>; no name used by the drivers
  comes near the 16 bytes of the buffer.\<close>

fun decimal :: "nat \<Rightarrow> string" where
  "decimal n = (if n < 10 then [char_of (48 + n)] else decimal (n div 10) @ [char_of (48 + n mod 10)])"

declare decimal.simps [simp del]

definition child_name :: "string \<Rightarrow> nat \<Rightarrow> string" where
  "child_name prefix index = prefix @ ''-'' @ decimal index"

section \<open>Field descriptors\<close>

text \<open>\<^verbatim>\<open>struct iqs7219_prop_desc\<close> and \<^verbatim>\<open>struct iqs323_prop_desc\<close>. The second has two
  more members, \<^verbatim>\<open>reg_grp\<close> and \<^verbatim>\<open>val_subs\<close>; the first is the same record with a
  unit group and no substitution table. The integer members hold small non-negative
  constants and are natural numbers here; an absent \<^verbatim>\<open>val_subs\<close> is the empty list.
  The \<^verbatim>\<open>label\<close> member only feeds error messages and is left out.\<close>

record ('g, 'k) prop_desc =
  name :: string
  reg_grp :: 'g
  reg_key :: 'k
  reg_offset :: nat
  reg_shift :: nat
  reg_width :: nat
  val_subs :: "u16 list"
  val_pitch :: nat
  val_min :: nat
  val_max :: nat
  invert :: bool

type_synonym iqs7219_prop_desc = "(unit, iqs7219_reg_key_id) prop_desc"

definition iqs7219_prop ::
  "string \<Rightarrow> iqs7219_reg_key_id \<Rightarrow> nat \<Rightarrow> nat \<Rightarrow> nat \<Rightarrow> iqs7219_prop_desc" where
  "iqs7219_prop n k off sh wd =
     \<lparr>name = n, reg_grp = (), reg_key = k, reg_offset = off, reg_shift = sh, reg_width = wd,
      val_subs = [], val_pitch = 0, val_min = 0, val_max = 0, invert = False\<rparr>"

definition iqs7219_props :: "iqs7219_prop_desc list" where
  "iqs7219_props =
     [iqs7219_prop ''azoteq,ati-frac-mult-coarse'' IQS7219_REG_KEY_ATI 0 0 4,
      iqs7219_prop ''azoteq,ati-frac-div-coarse'' IQS7219_REG_KEY_ATI 1 0 5,
      iqs7219_prop ''azoteq,ati-frac-div-fine'' IQS7219_REG_KEY_ATI 2 0 5,
      iqs7219_prop ''azoteq,ati-comp-div'' IQS7219_REG_KEY_ATI 3 0 5,
      iqs7219_prop ''azoteq,ati-comp-select'' IQS7219_REG_KEY_ATI 4 0 10,
      iqs7219_prop ''azoteq,rate-np-segment'' IQS7219_REG_KEY_SYS 0 8 2,
      iqs7219_prop ''azoteq,power-mode'' IQS7219_REG_KEY_SYS 0 4 2,
      iqs7219_prop ''azoteq,timeout-comms-ms'' IQS7219_REG_KEY_SYS 1 0 8,
      iqs7219_prop ''azoteq,timeout-ati-ms'' IQS7219_REG_KEY_SYS 2 0 16,
      iqs7219_prop ''azoteq,rate-ati-ms'' IQS7219_REG_KEY_SYS 3 0 16,
      iqs7219_prop ''azoteq,timeout-np-ms'' IQS7219_REG_KEY_SYS 4 0 16,
      (iqs7219_prop ''azoteq,rate-np-ms'' IQS7219_REG_KEY_SYS 5 0 16)\<lparr>val_max := 3000\<rparr>,
      iqs7219_prop ''azoteq,timeout-lp-ms'' IQS7219_REG_KEY_SYS 6 0 16,
      (iqs7219_prop ''azoteq,rate-lp-ms'' IQS7219_REG_KEY_SYS 7 0 16)\<lparr>val_max := 3000\<rparr>,
      iqs7219_prop ''azoteq,timeout-ulp-ms'' IQS7219_REG_KEY_SYS 8 0 16,
      (iqs7219_prop ''azoteq,rate-ulp-ms'' IQS7219_REG_KEY_SYS 9 0 16)\<lparr>val_max := 3000\<rparr>,
      iqs7219_prop ''azoteq,channel-select'' IQS7219_REG_KEY_PXS 0 8 8,
      iqs7219_prop ''azoteq,sense-mode'' IQS7219_REG_KEY_PXS 0 0 2,
      iqs7219_prop ''azoteq,proj-bias'' IQS7219_REG_KEY_CAP 0 2 2,
      iqs7219_prop ''azoteq,timeout-active-ms'' IQS7219_REG_KEY_EVENT 0 0 16,
      iqs7219_prop ''azoteq,hyst'' IQS7219_REG_KEY_EVENT 1 0 16,
      iqs7219_prop ''azoteq,thresh'' IQS7219_REG_KEY_EVENT 2 0 16,
      iqs7219_prop ''azoteq,debounce-exit'' IQS7219_REG_KEY_EVENT 3 8 8,
      iqs7219_prop ''azoteq,debounce-enter'' IQS7219_REG_KEY_EVENT 3 0 8,
      iqs7219_prop ''azoteq,counts-beta-lp'' IQS7219_REG_KEY_CHAN 0 12 4,
      iqs7219_prop ''azoteq,counts-beta-np'' IQS7219_REG_KEY_CHAN 0 8 4,
      iqs7219_prop ''azoteq,direction-enable'' IQS7219_REG_KEY_CHAN 0 6 1,
      iqs7219_prop ''azoteq,invert-enable'' IQS7219_REG_KEY_CHAN 0 1 1,
      iqs7219_prop ''azoteq,dual-direction'' IQS7219_REG_KEY_CHAN 0 0 1,
      iqs7219_prop ''azoteq,lta-fast-beta-lp'' IQS7219_REG_KEY_CHAN 1 12 4,
      iqs7219_prop ''azoteq,lta-fast-beta-np'' IQS7219_REG_KEY_CHAN 1 8 4,
      iqs7219_prop ''azoteq,lta-beta-lp'' IQS7219_REG_KEY_CHAN 1 4 4,
      iqs7219_prop ''azoteq,lta-beta-np'' IQS7219_REG_KEY_CHAN 1 0 4,
      iqs7219_prop ''azoteq,conv-period'' IQS7219_REG_KEY_CHAN 2 8 8,
      iqs7219_prop ''azoteq,conv-frac'' IQS7219_REG_KEY_CHAN 2 0 8,
      (iqs7219_prop ''azoteq,conv-scale'' IQS7219_REG_KEY_CHAN 3 0 8)\<lparr>val_max := 3\<rparr>,
      (iqs7219_prop ''azoteq,ati-base'' IQS7219_REG_KEY_CHAN 5 0 16)\<lparr>val_max := 500\<rparr>,
      (iqs7219_prop ''azoteq,ati-target'' IQS7219_REG_KEY_CHAN 6 0 16)\<lparr>val_max := 4000\<rparr>,
      (iqs7219_prop ''azoteq,ati-band'' IQS7219_REG_KEY_CHAN 7 0 16)\<lparr>val_max := 1500\<rparr>,
      (iqs7219_prop ''azoteq,ati-mode'' IQS7219_REG_KEY_CHAN 8 0 3)\<lparr>val_max := 5\<rparr>,
      iqs7219_prop ''azoteq,ati-frac-div-coarse'' IQS7219_REG_KEY_CHAN 9 8 5,
      iqs7219_prop ''azoteq,ati-frac-div-fine'' IQS7219_REG_KEY_CHAN 9 0 5,
      iqs7219_prop ''azoteq,ati-comp-select'' IQS7219_REG_KEY_CHAN 10 0 10,
      iqs7219_prop ''azoteq,thresh'' IQS7219_REG_KEY_CHAN 11 0 16,
      iqs7219_prop ''azoteq,fast-filt-band'' IQS7219_REG_KEY_CHAN 12 0 8]"

section \<open>IQS7219A: configuration builder\<close>

text \<open>One pass of the loop of \<^verbatim>\<open>iqs7219_parse_props\<close> over a descriptor whose key
  matches the group, on the register row \<open>row\<close>. The result is the error code (0 to go
  on with the next descriptor) and the row as the pass left it.\<close>

definition iqs7219_parse_prop :: "fwnode \<Rightarrow> iqs7219_prop_desc \<Rightarrow> u16 list \<Rightarrow> int \<times> u16 list" where
  "iqs7219_parse_prop node d row =
     (let off = reg_offset d; sh = reg_shift d; wd = reg_width d;
          pitch = (if val_pitch d = 0 then 1 else val_pitch d);
          row1 = (if wd = 1
                  then (if invert d then row[off := row ! off OR word_of_int (BIT sh)]
                        else row[off := row ! off AND NOT (word_of_int (BIT sh))])
                  else row)
      in if \<not> fwnode_property_present node (name d) then (0, row1)
         else if wd = 1 then
           (0, if invert d then row1[off := row1 ! off AND NOT (word_of_int (BIT sh))]
               else row1[off := row1 ! off OR word_of_int (BIT sh)])
         else (case fwnode_property_read_u32 node (name d) of (error, v) \<Rightarrow>
           if error \<noteq> 0 then (error, row1)
           else
             let vmax = (if val_max d = 0 then word_of_int (GENMASK (wd - 1) 0 * int pitch)
                         else word_of_nat (val_max d)) :: u32
             in if v < word_of_nat (val_min d) \<or> v > vmax then (- EINVAL, row1)
                else (0, row1[off := (row1 ! off AND NOT (word_of_int (GENMASK (sh + wd - 1) sh)))
                                     OR ucast (push_bit sh (v div word_of_nat pitch))])))"

fun iqs7219_parse_props_loop ::
  "fwnode \<Rightarrow> iqs7219_reg_key_id \<Rightarrow> iqs7219_prop_desc list \<Rightarrow> u16 list \<Rightarrow> int \<times> u16 list" where
  "iqs7219_parse_props_loop node k [] row = (0, row)"
| "iqs7219_parse_props_loop node k (d # ds) row =
     (if reg_key d \<noteq> k then iqs7219_parse_props_loop node k ds row
      else (case iqs7219_parse_prop node d row of (error, row') \<Rightarrow>
        if error \<noteq> 0 then (error, row') else iqs7219_parse_props_loop node k ds row'))"

text \<open>\<^verbatim>\<open>iqs7219_reg_grp_names\<close>; the event groups have no name and are always entered with
  their node already found.\<close>

fun iqs7219_reg_grp_names :: "iqs7219_reg_grp_id \<Rightarrow> string" where
  "iqs7219_reg_grp_names IQS7219_REG_GRP_ATI = ''ati''"
| "iqs7219_reg_grp_names IQS7219_REG_GRP_PXS = ''cycle''"
| "iqs7219_reg_grp_names (IQS7219_REG_GRP_CHAN c) = ''channel''"
| "iqs7219_reg_grp_names _ = ''(null)''"

text \<open>\<^verbatim>\<open>iqs7219_parse_props\<close>. \<open>dev\<close> is the device's own node, \<open>child_node\<close> what
  \<^verbatim>\<open>*child_node\<close> holds on entry; the result carries what it holds on return.\<close>

definition iqs7219_parse_props ::
  "fwnode \<Rightarrow> iqs7219_private \<Rightarrow> fwnode option \<Rightarrow> nat \<Rightarrow> iqs7219_reg_grp_id
     \<Rightarrow> (int \<times> iqs7219_private) \<times> fwnode option" where
  "iqs7219_parse_props dev st child_node child_index g =
     (let own = (g = IQS7219_REG_GRP_SYS \<or> g = IQS7219_REG_GRP_CAP);
          reg_grp_node =
            (if own then Some dev
             else (case child_node of
                     Some n \<Rightarrow> Some n
                   | None \<Rightarrow> fwnode_get_named_child_node dev
                               (child_name (iqs7219_reg_grp_names g) child_index)))
      in case reg_grp_node of
           None \<Rightarrow> ((0, st), child_node)
         | Some node \<Rightarrow>
             (case iqs7219_parse_props_loop node (grp_key (iqs7219_reg_grps g)) iqs7219_props
                     (iqs7219_setup st g child_index) of (error, row) \<Rightarrow>
                ((error, iqs7219_setup_update g child_index row st),
                 (if own then child_node else Some node))))"

text \<open>\<^verbatim>\<open>xs[i] = f(xs[i])\<close> on an array member.\<close>

definition modify :: "nat \<Rightarrow> ('a \<Rightarrow> 'a) \<Rightarrow> 'a list \<Rightarrow> 'a list" where
  "modify i f xs = xs[i := f (xs ! i)]"

definition iqs7219_pxs_events :: "string list" where
  "iqs7219_pxs_events = [''event-halt'', ''event-prox'', ''event-touch'']"

definition iqs7219_gpios :: "u32 list" where
  "iqs7219_gpios = [1, 2, 5]"

definition IQS7219_GPIO_OPEN_DRAIN :: u16 where "IQS7219_GPIO_OPEN_DRAIN = word_of_int (BIT 3)"
definition IQS7219_GPIO_ACTIVE_HIGH :: u16 where "IQS7219_GPIO_ACTIVE_HIGH = word_of_int (BIT 0)"

text \<open>The pin loops of \<^verbatim>\<open>iqs7219_parse_chan\<close>: each listed pin below \<open>num\<close> sets bit
  \<open>pin + sh\<close>.\<close>

fun iqs7219_set_pins :: "nat \<Rightarrow> nat \<Rightarrow> u32 list \<Rightarrow> u16 \<Rightarrow> int \<times> u16" where
  "iqs7219_set_pins num sh [] x = (0, x)"
| "iqs7219_set_pins num sh (p # ps) x =
     (if unat p \<ge> num then (- EINVAL, x)
      else iqs7219_set_pins num sh ps (x OR word_of_int (BIT (unat p + sh))))"

text \<open>The two pin blocks of \<^verbatim>\<open>iqs7219_parse_chan\<close> (\<^verbatim>\<open>azoteq,rx-enable\<close> with four pins in
  word 3 from bit 8, \<^verbatim>\<open>azoteq,tx-enable\<close> with nine pins in word 4 from bit 0) differ only
  in these numbers.\<close>

definition iqs7219_parse_pins ::
  "fwnode \<Rightarrow> string \<Rightarrow> nat \<Rightarrow> nat \<Rightarrow> nat \<Rightarrow> u16 list \<Rightarrow> int \<times> u16 list" where
  "iqs7219_parse_pins node key num idx sh row =
     (if \<not> fwnode_property_present node key then (0, row)
      else
        let count = fwnode_property_count_u32 node key in
        if count < 0 then (count, row)
        else if count > int num then (- EINVAL, row)
        else (case fwnode_property_read_u32_array node key (nat count) of (error, pins) \<Rightarrow>
          if error \<noteq> 0 then (error, row)
          else (case iqs7219_set_pins num sh pins
                       (row ! idx AND NOT (word_of_int (GENMASK (sh + num - 1) sh))) of
                  (error, x) \<Rightarrow> (error, row[idx := x]))))"

text \<open>The body of the event loop of \<^verbatim>\<open>iqs7219_parse_chan\<close> for event \<open>i\<close>.\<close>

definition iqs7219_parse_chan_event ::
  "fwnode \<Rightarrow> fwnode \<Rightarrow> nat \<Rightarrow> nat \<Rightarrow> iqs7219_private \<Rightarrow> int \<times> iqs7219_private" where
  "iqs7219_parse_chan_event dev chan_node chan_index i st =
     (let ev = (\<lambda>f s. s\<lparr>event_setup := modify chan_index (modify i (modify 4 f)) (event_setup s)\<rparr>);
          ch0 = (\<lambda>f s. s\<lparr>chan_setup := modify chan_index (modify 0 f) (chan_setup s)\<rparr>);
          st1 = ev (\<lambda>x. x AND NOT (word_of_int (GENMASK 7 0))) st
      in case fwnode_get_named_child_node chan_node (iqs7219_pxs_events ! i) of
           None \<Rightarrow> (0, st1)
         | Some event_node \<Rightarrow>
             (case iqs7219_parse_props dev st1 (Some event_node) i (IQS7219_REG_GRP_EVENT chan_index)
              of ((error, st2), node') \<Rightarrow>
                if error \<noteq> 0 then (error, st2)
                else
                  let st3 = (if \<not> fwnode_property_present event_node ''azoteq,trigger-disable''
                             then st2\<lparr>event_mask := modify chan_index
                                         (\<lambda>x. x OR word_of_int (BIT i)) (event_mask st2)\<rparr>
                             else st2);
                      st4 = ch0 (\<lambda>x. x AND NOT (word_of_int (BIT (i + 3)))) st3;
                      st5 = (if fwnode_property_present event_node ''azoteq,lta-track''
                             then ch0 (\<lambda>x. x OR word_of_int (BIT (i + 3))) st4 else st4)
                  in if \<not> fwnode_property_present event_node ''azoteq,gpio-select'' then (0, st5)
                     else (case fwnode_property_read_u32 event_node ''azoteq,gpio-select'' of
                             (error, v) \<Rightarrow>
                       if error \<noteq> 0 then (error, st5)
                       else if v \<notin> set iqs7219_gpios then (- EINVAL, st5)
                       else
                         let st6 = ev (\<lambda>x. x OR word_of_int (BIT (unat v))) st5;
                             st7 = (if fwnode_property_present event_node ''drive-open-drain''
                                    then ev (\<lambda>x. x OR IQS7219_GPIO_OPEN_DRAIN) st6
                                    else if fwnode_property_present event_node ''azoteq,invert-enable''
                                    then ev (\<lambda>x. x OR IQS7219_GPIO_ACTIVE_HIGH) st6
                                    else st6)
                         in (0, st7\<lparr>intf_mode := IQS7219_SYS_SETUP_INTF_MODE_STAND\<rparr>))))"

fun iqs7219_parse_chan_events ::
  "fwnode \<Rightarrow> fwnode \<Rightarrow> nat \<Rightarrow> nat list \<Rightarrow> iqs7219_private \<Rightarrow> int \<times> iqs7219_private" where
  "iqs7219_parse_chan_events dev chan_node chan_index [] st = (0, st)"
| "iqs7219_parse_chan_events dev chan_node chan_index (i # rest) st =
     (case iqs7219_parse_chan_event dev chan_node chan_index i st of (error, st') \<Rightarrow>
        if error \<noteq> 0 then (error, st')
        else iqs7219_parse_chan_events dev chan_node chan_index rest st')"

definition iqs7219_parse_chan :: "fwnode \<Rightarrow> iqs7219_private \<Rightarrow> nat \<Rightarrow> int \<times> iqs7219_private" where
  "iqs7219_parse_chan dev st chan_index =
     (case iqs7219_parse_props dev st None chan_index (IQS7219_REG_GRP_CHAN chan_index) of
        ((error, st1), chan_node) \<Rightarrow>
          if error \<noteq> 0 then (error, st1)
          else (case chan_node of
            None \<Rightarrow> (0, st1)
          | Some cn \<Rightarrow>
              (case iqs7219_parse_pins cn ''azoteq,rx-enable'' 4 3 8 (chan_setup st1 ! chan_index) of
                 (error, row) \<Rightarrow>
                let st2 = st1\<lparr>chan_setup := (chan_setup st1)[chan_index := row]\<rparr> in
                if error \<noteq> 0 then (error, st2)
                else (case iqs7219_parse_pins cn ''azoteq,tx-enable'' 9 4 0 (chan_setup st2 ! chan_index) of
                        (error, row) \<Rightarrow>
                  let st3 = st2\<lparr>chan_setup := (chan_setup st2)[chan_index := row]\<rparr> in
                  if error \<noteq> 0 then (error, st3)
                  else (case iqs7219_parse_chan_events dev cn chan_index
                               [0..<length iqs7219_pxs_events] st3 of (error, st4) \<Rightarrow>
                    if error \<noteq> 0 then (error, st4)
                    else if \<not> fwnode_property_present cn ''azoteq,scan-mux'' then (0, st4)
                    else (case fwnode_property_read_u32 cn ''azoteq,scan-mux'' of (error, v) \<Rightarrow>
                      if error \<noteq> 0 then (error, st4)
                      else if unat v > IQS7219_NUM_SCAN then (- EINVAL, st4)
                      else (0, st4\<lparr>scan_mux := (scan_mux st4)[chan_index := unat v]\<rparr>)))))))"

section \<open>IQS323: bus transport\<close>

definition IQS323_PROD_NUM_REL :: u16 where "IQS323_PROD_NUM_REL = 1106"
definition IQS323_PROD_NUM_MOV :: u16 where "IQS323_PROD_NUM_MOV = 1462"
definition IQS323_SYS_STATUS :: u8 where "IQS323_SYS_STATUS = 0x10"
definition IQS323_SYS_STATUS_RESET :: u16 where "IQS323_SYS_STATUS_RESET = word_of_int (BIT 7)"
definition IQS323_SYS_STATUS_ATI_ERROR :: u16 where "IQS323_SYS_STATUS_ATI_ERROR = word_of_int (BIT 6)"
definition IQS323_SYS_STATUS_ATI_ACTIVE :: u16 where "IQS323_SYS_STATUS_ATI_ACTIVE = word_of_int (BIT 5)"
definition IQS323_SLDR_STATUS_BUSY :: u16 where "IQS323_SLDR_STATUS_BUSY = word_of_int (BIT 7)"
definition IQS323_SLDR_STATUS_EVENT :: u16 where "IQS323_SLDR_STATUS_EVENT = word_of_int (BIT 6)"
definition IQS323_SYS_SETUP :: u8 where "IQS323_SYS_SETUP = 0xC0"
definition IQS323_SYS_SETUP_EVENT_MODE :: u16 where "IQS323_SYS_SETUP_EVENT_MODE = word_of_int (BIT 7)"
definition IQS323_SYS_SETUP_POWER_MODE_MASK :: u16 where
  "IQS323_SYS_SETUP_POWER_MODE_MASK = word_of_int (GENMASK 6 4)"
definition IQS323_SYS_SETUP_POWER_MODE_SHIFT :: nat where "IQS323_SYS_SETUP_POWER_MODE_SHIFT = 4"
definition IQS323_SYS_SETUP_REDO_ATI :: u16 where "IQS323_SYS_SETUP_REDO_ATI = word_of_int (BIT 2)"
definition IQS323_SYS_SETUP_ACK_RESET :: u16 where "IQS323_SYS_SETUP_ACK_RESET = word_of_int (BIT 0)"
definition IQS323_EVENT_MASK_TOUCH :: u16 where "IQS323_EVENT_MASK_TOUCH = word_of_int (BIT 1)"
definition IQS323_EVENT_MASK_PROX :: u16 where "IQS323_EVENT_MASK_PROX = word_of_int (BIT 0)"
definition IQS323_COMMS_ERROR :: u16 where "IQS323_COMMS_ERROR = 0xEEEE"
definition IQS323_COMMS_RETRY_MS :: nat where "IQS323_COMMS_RETRY_MS = 50"
definition IQS323_COMMS_TIMEOUT_US :: nat where "IQS323_COMMS_TIMEOUT_US = 100 * 1000"
definition IQS323_RESET_TIMEOUT_MS :: nat where "IQS323_RESET_TIMEOUT_MS = 300"
definition IQS323_ATI_TIMEOUT_US :: nat where "IQS323_ATI_TIMEOUT_US = 2 * 1000000"
definition IQS323_MIN_REPORT_LEN :: nat where "IQS323_MIN_REPORT_LEN = 10"
definition IQS323_NUM_CHAN :: nat where "IQS323_NUM_CHAN = 3"
definition IQS323_NUM_RETRIES :: nat where "IQS323_NUM_RETRIES = 5"
definition IQS323_REG_OFFSET :: u16 where "IQS323_REG_OFFSET = 0x10"
definition U16_MAX :: u16 where "U16_MAX = 0xFFFF"
definition U8_MAX :: u16 where "U8_MAX = 0xFF"

definition iqs323_irq_wait :: "world \<Rightarrow> world" where
  "iqs323_irq_wait w = usleep_range 2500 w"

definition iqs323_irq_poll :: "kernel \<Rightarrow> nat \<Rightarrow> world \<Rightarrow> int \<times> world" where
  "iqs323_irq_poll K timeout_us w =
     (case readx_poll_timeout K timeout_us w of ((error, v), w') \<Rightarrow>
        ((if v < 0 then v else error), w'))"

definition iqs323_hard_reset :: "kernel \<Rightarrow> world \<Rightarrow> int \<times> world" where
  "iqs323_hard_reset K w =
     iqs323_irq_poll K IQS323_COMMS_TIMEOUT_US
       (iqs323_irq_wait (gpiod_set_value_cansleep False
          (msleep IQS323_RESET_TIMEOUT_MS (gpiod_set_value_cansleep True w))))"

definition iqs323_force_comms :: "kernel \<Rightarrow> world \<Rightarrow> int \<times> world" where
  "iqs323_force_comms K w =
     (case gpiod_get_value_cansleep K w of (ret, w1) \<Rightarrow>
        if ret < 0 then (ret, w1)
        else if ret > 0 then (0, w1)
        else (case i2c_master_send K [0xFF] w1 of (ret, w2) \<Rightarrow>
          if ret < 1 then ((if ret \<ge> 0 then - EIO else ret), msleep IQS323_COMMS_RETRY_MS w2)
          else iqs323_irq_poll K IQS323_COMMS_TIMEOUT_US (iqs323_irq_wait w2)))"

fun iqs323_read_attempts ::
  "nat \<Rightarrow> kernel \<Rightarrow> u8 \<Rightarrow> nat \<Rightarrow> int \<times> u8 list \<Rightarrow> world \<Rightarrow> (int \<times> u8 list) \<times> world" where
  "iqs323_read_attempts 0 K reg num_val rb w = (rb, w)"
| "iqs323_read_attempts (Suc n) K reg num_val (ret0, buf) w =
     (case iqs323_force_comms K w of (ret, w1) \<Rightarrow>
        if ret < 0 then iqs323_read_attempts n K reg num_val (ret, buf) w1
        else (case i2c_transfer K [reg] (num_val * 2) w1 of ((ret, buf'), w2) \<Rightarrow>
          if ret < 2 then
            iqs323_read_attempts n K reg num_val
              ((if ret \<ge> 0 then - EIO else ret), buf') (msleep IQS323_COMMS_RETRY_MS w2)
          else if get_unaligned_le16 buf' = IQS323_COMMS_ERROR then
            iqs323_read_attempts n K reg num_val (- ENODATA, buf') w2
          else ((0, buf'), w2)))"

definition iqs323_read_burst ::
  "kernel \<Rightarrow> u8 \<Rightarrow> u8 list \<Rightarrow> nat \<Rightarrow> world \<Rightarrow> (int \<times> u8 list) \<times> world" where
  "iqs323_read_burst K reg val num_val w =
     (case iqs323_read_attempts IQS323_NUM_RETRIES K reg num_val (0, val) w of
        (rb, w') \<Rightarrow> (rb, iqs323_irq_wait w'))"

definition iqs323_read_word :: "kernel \<Rightarrow> u8 \<Rightarrow> world \<Rightarrow> (int \<times> u16) \<times> world" where
  "iqs323_read_word K reg w =
     (case iqs323_read_burst K reg [0, 0] 1 w of
        ((error, val_buf), w') \<Rightarrow> ((error, get_unaligned_le16 val_buf), w'))"

fun iqs323_write_attempts :: "nat \<Rightarrow> kernel \<Rightarrow> u8 list \<Rightarrow> int \<Rightarrow> world \<Rightarrow> int \<times> world" where
  "iqs323_write_attempts 0 K msg_buf ret0 w = (ret0, w)"
| "iqs323_write_attempts (Suc n) K msg_buf ret0 w =
     (case iqs323_force_comms K w of (ret, w1) \<Rightarrow>
        if ret < 0 then iqs323_write_attempts n K msg_buf ret w1
        else (case i2c_master_send K msg_buf w1 of (ret, w2) \<Rightarrow>
          if ret < int (length msg_buf) then
            iqs323_write_attempts n K msg_buf
              (if ret \<ge> 0 then - EIO else ret) (msleep IQS323_COMMS_RETRY_MS w2)
          else (0, w2)))"

definition iqs323_write_burst :: "kernel \<Rightarrow> u8 \<Rightarrow> u8 list \<Rightarrow> world \<Rightarrow> int \<times> world" where
  "iqs323_write_burst K reg val w =
     (case iqs323_write_attempts IQS323_NUM_RETRIES K (reg # val) 0 w of
        (ret, w') \<Rightarrow> (ret, iqs323_irq_wait w'))"

definition iqs323_write_word :: "kernel \<Rightarrow> u8 \<Rightarrow> u16 \<Rightarrow> world \<Rightarrow> int \<times> world" where
  "iqs323_write_word K reg val w = iqs323_write_burst K reg (le16_bytes val) w"

section \<open>IQS323: device state and register groups\<close>

datatype iqs323_intf_mode_id = IQS323_INTF_MODE_ERROR | IQS323_INTF_MODE_EVENT | IQS323_INTF_MODE_STREAM

datatype iqs323_reg_key_id =
    IQS323_REG_KEY_NONE
  | IQS323_REG_KEY_PROX
  | IQS323_REG_KEY_TOUCH
  | IQS323_REG_KEY_MOV
  | IQS323_REG_KEY_TAP
  | IQS323_REG_KEY_HOLD
  | IQS323_REG_KEY_AXIAL
  | IQS323_REG_KEY_RESERVED

datatype iqs323_reg_grp_id =
    IQS323_REG_GRP_SNSR
  | IQS323_REG_GRP_CHAN
  | IQS323_REG_GRP_SLDR
  | IQS323_REG_GRP_GEST
  | IQS323_REG_GRP_FILT
  | IQS323_REG_GRP_SYS
  | IQS323_REG_GRP_GEN
  | IQS323_REG_GRP_GPIO
  | IQS323_REG_GRP_REL

definition iqs323_all_reg_grps :: "iqs323_reg_grp_id list" where
  "iqs323_all_reg_grps =
     [IQS323_REG_GRP_SNSR, IQS323_REG_GRP_CHAN, IQS323_REG_GRP_SLDR, IQS323_REG_GRP_GEST,
      IQS323_REG_GRP_FILT, IQS323_REG_GRP_SYS, IQS323_REG_GRP_GEN, IQS323_REG_GRP_GPIO,
      IQS323_REG_GRP_REL]"

datatype iqs323_power_mode_id =
    IQS323_POWER_MODE_NP
  | IQS323_POWER_MODE_LP
  | IQS323_POWER_MODE_ULP
  | IQS323_POWER_MODE_HALT
  | IQS323_POWER_MODE_AUTO
  | IQS323_POWER_MODE_AUTO_NO_ULP
  | IQS323_POWER_MODE_USER

text \<open>The value of a power mode as the enumeration numbers it.\<close>

fun iqs323_power_mode_val :: "iqs323_power_mode_id \<Rightarrow> u16" where
  "iqs323_power_mode_val IQS323_POWER_MODE_NP = 0"
| "iqs323_power_mode_val IQS323_POWER_MODE_LP = 1"
| "iqs323_power_mode_val IQS323_POWER_MODE_ULP = 2"
| "iqs323_power_mode_val IQS323_POWER_MODE_HALT = 3"
| "iqs323_power_mode_val IQS323_POWER_MODE_AUTO = 4"
| "iqs323_power_mode_val IQS323_POWER_MODE_AUTO_NO_ULP = 5"
| "iqs323_power_mode_val IQS323_POWER_MODE_USER = 6"

definition iqs323_sense_modes :: "u16 list" where "iqs323_sense_modes = [0x10, 0x13, 0x1D, 0x3D]"
definition iqs323_wave_patterns :: "u16 list" where "iqs323_wave_patterns = [0x0300, 0x0E00, 0, 0x0B00]"
definition iqs323_rx_inactives :: "u16 list" where "iqs323_rx_inactives = [0x00, 0x05, 0x0A, 0x0F]"

text \<open>\<^verbatim>\<open>struct iqs323_event_desc\<close> and the two event tables.\<close>

record iqs323_event_desc =
  ev_name :: string
  ev_mask :: u16
  ev_enable :: u16
  ev_reg_key :: iqs323_reg_key_id

definition iqs323_kp_events :: "iqs323_event_desc list" where
  "iqs323_kp_events =
     [\<lparr>ev_name = ''event-prox'', ev_mask = IQS323_EVENT_MASK_PROX,
       ev_enable = IQS323_EVENT_MASK_PROX, ev_reg_key = IQS323_REG_KEY_PROX\<rparr>,
      \<lparr>ev_name = ''event-touch'', ev_mask = IQS323_EVENT_MASK_TOUCH,
       ev_enable = IQS323_EVENT_MASK_TOUCH, ev_reg_key = IQS323_REG_KEY_TOUCH\<rparr>,
      \<lparr>ev_name = ''movement'', ev_mask = 0, ev_enable = 0, ev_reg_key = IQS323_REG_KEY_MOV\<rparr>]"

definition iqs323_sl_events :: "iqs323_event_desc list" where
  "iqs323_sl_events =
     [\<lparr>ev_name = ''event-press'', ev_mask = 0, ev_enable = 0, ev_reg_key = IQS323_REG_KEY_NONE\<rparr>,
      \<lparr>ev_name = ''event-tap'', ev_mask = word_of_int (BIT 0), ev_enable = word_of_int (BIT 0),
       ev_reg_key = IQS323_REG_KEY_TAP\<rparr>,
      \<lparr>ev_name = ''event-swipe-pos'', ev_mask = word_of_int (BIT 1) OR IQS323_SLDR_STATUS_BUSY,
       ev_enable = word_of_int (BIT 1), ev_reg_key = IQS323_REG_KEY_AXIAL\<rparr>,
      \<lparr>ev_name = ''event-swipe-neg'', ev_mask = word_of_int (BIT 2) OR IQS323_SLDR_STATUS_BUSY,
       ev_enable = word_of_int (BIT 1), ev_reg_key = IQS323_REG_KEY_AXIAL\<rparr>,
      \<lparr>ev_name = ''event-flick-pos'', ev_mask = word_of_int (BIT 3), ev_enable = word_of_int (BIT 2),
       ev_reg_key = IQS323_REG_KEY_AXIAL\<rparr>,
      \<lparr>ev_name = ''event-flick-neg'', ev_mask = word_of_int (BIT 4), ev_enable = word_of_int (BIT 2),
       ev_reg_key = IQS323_REG_KEY_AXIAL\<rparr>,
      \<lparr>ev_name = ''event-hold'', ev_mask = word_of_int (BIT 5) OR IQS323_SLDR_STATUS_BUSY,
       ev_enable = word_of_int (BIT 3), ev_reg_key = IQS323_REG_KEY_HOLD\<rparr>]"

type_synonym iqs323_reg_grp_desc = "unit reg_grp_desc"

definition iqs323_grp :: "u16 \<Rightarrow> nat \<Rightarrow> nat \<Rightarrow> iqs323_reg_grp_desc" where
  "iqs323_grp b r c = \<lparr>base = b, grp_key = (), num_row = r, num_col = c\<rparr>"

text \<open>\<^verbatim>\<open>struct iqs323_dev_desc\<close> and \<^verbatim>\<open>iqs323_devs\<close>: the release-UI and the movement-UI
  device.\<close>

record iqs323_dev_desc =
  prod_num :: u16
  touch_link :: u16
  delta_links :: "u16 list"
  reg_grps :: "iqs323_reg_grp_id \<Rightarrow> iqs323_reg_grp_desc"

fun iqs323_reg_grps_rel :: "iqs323_reg_grp_id \<Rightarrow> iqs323_reg_grp_desc" where
  "iqs323_reg_grps_rel IQS323_REG_GRP_SNSR = iqs323_grp 0x30 3 10"
| "iqs323_reg_grps_rel IQS323_REG_GRP_CHAN = iqs323_grp 0x60 3 4"
| "iqs323_reg_grps_rel IQS323_REG_GRP_SLDR = iqs323_grp 0x90 1 9"
| "iqs323_reg_grps_rel IQS323_REG_GRP_GEST = iqs323_grp 0xA0 1 7"
| "iqs323_reg_grps_rel IQS323_REG_GRP_FILT = iqs323_grp 0xB0 1 5"
| "iqs323_reg_grps_rel IQS323_REG_GRP_SYS = iqs323_grp 0xC0 1 6"
| "iqs323_reg_grps_rel IQS323_REG_GRP_GEN = iqs323_grp 0xD0 1 5"
| "iqs323_reg_grps_rel IQS323_REG_GRP_GPIO = iqs323_grp 0 1 0"
| "iqs323_reg_grps_rel IQS323_REG_GRP_REL = iqs323_grp 0 1 0"

fun iqs323_reg_grps_mov :: "iqs323_reg_grp_id \<Rightarrow> iqs323_reg_grp_desc" where
  "iqs323_reg_grps_mov IQS323_REG_GRP_SNSR = iqs323_grp 0x30 3 10"
| "iqs323_reg_grps_mov IQS323_REG_GRP_CHAN = iqs323_grp 0x60 3 5"
| "iqs323_reg_grps_mov IQS323_REG_GRP_SLDR = iqs323_grp 0x90 1 9"
| "iqs323_reg_grps_mov IQS323_REG_GRP_GEST = iqs323_grp 0xA0 1 7"
| "iqs323_reg_grps_mov IQS323_REG_GRP_FILT = iqs323_grp 0xB0 1 5"
| "iqs323_reg_grps_mov IQS323_REG_GRP_SYS = iqs323_grp 0xC0 1 6"
| "iqs323_reg_grps_mov IQS323_REG_GRP_GEN = iqs323_grp 0xD0 1 5"
| "iqs323_reg_grps_mov IQS323_REG_GRP_GPIO = iqs323_grp 0 1 0"
| "iqs323_reg_grps_mov IQS323_REG_GRP_REL = iqs323_grp 0 0 0"

definition iqs323_devs :: "iqs323_dev_desc list" where
  "iqs323_devs =
     [\<lparr>prod_num = IQS323_PROD_NUM_REL, touch_link = 0x552, delta_links = [0x430, 0x472, 0x4B4],
       reg_grps = iqs323_reg_grps_rel\<rparr>,
      \<lparr>prod_num = IQS323_PROD_NUM_MOV, touch_link = 0x558, delta_links = [0x430, 0x474, 0x4B8],
       reg_grps = iqs323_reg_grps_mov\<rparr>]"

text \<open>\<^verbatim>\<open>struct iqs323_private\<close>; the members carry the prefix \<open>q_\<close>. \<open>q_abs\<close> stands for
  \<^verbatim>\<open>test_bit(EV_ABS, kp_idev->evbit)\<close>, the only thing read from the input device.\<close>

record iqs323_private =
  q_dev_desc :: iqs323_dev_desc
  q_abs :: bool
  q_intf_mode :: iqs323_intf_mode_id
  q_kp_type :: "nat list list"
  q_kp_code :: "nat list list"
  q_sl_code :: "nat list"
  q_sl_axis :: nat
  q_snsr_setup :: "u16 list list"
  q_chan_setup :: "u16 list list"
  q_sldr_setup :: "u16 list"
  q_gest_setup :: "u16 list"
  q_filt_setup :: "u16 list"
  q_sys_setup :: "u16 list"
  q_gen_setup :: "u16 list"
  q_wear_mask :: u16

text \<open>\<^verbatim>\<open>iqs323_setup\<close>: \<open>None\<close> is the null pointer of the \<^verbatim>\<open>default\<close> case.\<close>

fun iqs323_setup :: "iqs323_private \<Rightarrow> iqs323_reg_grp_id \<Rightarrow> nat \<Rightarrow> u16 list option" where
  "iqs323_setup st IQS323_REG_GRP_SNSR row = Some (q_snsr_setup st ! row)"
| "iqs323_setup st IQS323_REG_GRP_CHAN row = Some (q_chan_setup st ! row)"
| "iqs323_setup st IQS323_REG_GRP_SLDR row = Some (q_sldr_setup st)"
| "iqs323_setup st IQS323_REG_GRP_GEST row = Some (q_gest_setup st)"
| "iqs323_setup st IQS323_REG_GRP_FILT row = Some (q_filt_setup st)"
| "iqs323_setup st IQS323_REG_GRP_SYS row = Some (q_sys_setup st)"
| "iqs323_setup st IQS323_REG_GRP_GEN row = Some (q_gen_setup st)"
| "iqs323_setup st IQS323_REG_GRP_REL row = Some (q_gen_setup st)"
| "iqs323_setup st IQS323_REG_GRP_GPIO row = None"

fun iqs323_setup_update ::
  "iqs323_reg_grp_id \<Rightarrow> nat \<Rightarrow> u16 list \<Rightarrow> iqs323_private \<Rightarrow> iqs323_private" where
  "iqs323_setup_update IQS323_REG_GRP_SNSR row v st = st\<lparr>q_snsr_setup := (q_snsr_setup st)[row := v]\<rparr>"
| "iqs323_setup_update IQS323_REG_GRP_CHAN row v st = st\<lparr>q_chan_setup := (q_chan_setup st)[row := v]\<rparr>"
| "iqs323_setup_update IQS323_REG_GRP_SLDR row v st = st\<lparr>q_sldr_setup := v\<rparr>"
| "iqs323_setup_update IQS323_REG_GRP_GEST row v st = st\<lparr>q_gest_setup := v\<rparr>"
| "iqs323_setup_update IQS323_REG_GRP_FILT row v st = st\<lparr>q_filt_setup := v\<rparr>"
| "iqs323_setup_update IQS323_REG_GRP_SYS row v st = st\<lparr>q_sys_setup := v\<rparr>"
| "iqs323_setup_update IQS323_REG_GRP_GEN row v st = st\<lparr>q_gen_setup := v\<rparr>"
| "iqs323_setup_update IQS323_REG_GRP_REL row v st = st\<lparr>q_gen_setup := v\<rparr>"
| "iqs323_setup_update IQS323_REG_GRP_GPIO row v st = st"

section \<open>IQS323: mode switch, ATI trigger and device initialisation\<close>

definition iqs323_write_mode ::
  "kernel \<Rightarrow> iqs323_private \<Rightarrow> iqs323_intf_mode_id \<Rightarrow> iqs323_power_mode_id \<Rightarrow> u16 \<Rightarrow> world
     \<Rightarrow> (int \<times> iqs323_private) \<times> world" where
  "iqs323_write_mode K st mode power_mode cmd w =
     (let s0 = q_sys_setup st ! 0 OR cmd;
          s1 = (if mode = IQS323_INTF_MODE_EVENT then s0 OR IQS323_SYS_SETUP_EVENT_MODE
                else s0 AND NOT IQS323_SYS_SETUP_EVENT_MODE);
          s2 = (if power_mode \<noteq> IQS323_POWER_MODE_USER
                then (s1 AND NOT IQS323_SYS_SETUP_POWER_MODE_MASK)
                       OR push_bit IQS323_SYS_SETUP_POWER_MODE_SHIFT (iqs323_power_mode_val power_mode)
                else s1)
      in case iqs323_write_word K IQS323_SYS_SETUP s2 w of (error, w') \<Rightarrow>
           ((error, st\<lparr>q_intf_mode := (if error \<noteq> 0 then IQS323_INTF_MODE_ERROR else mode)\<rparr>), w'))"

text \<open>The loop of \<^verbatim>\<open>iqs323_ati_trigger\<close>; the first argument counts the attempts that
  remain and \<open>error0\<close> is \<^verbatim>\<open>error\<close> as the previous attempt left it.\<close>

fun iqs323_ati_attempts ::
  "nat \<Rightarrow> kernel \<Rightarrow> iqs323_private \<Rightarrow> int \<Rightarrow> world \<Rightarrow> (int \<times> iqs323_private) \<times> world" where
  "iqs323_ati_attempts 0 K st error0 w = ((error0, st), w)"
| "iqs323_ati_attempts (Suc n) K st error0 w =
     (case iqs323_write_mode K st IQS323_INTF_MODE_STREAM IQS323_POWER_MODE_USER
             IQS323_SYS_SETUP_REDO_ATI w of ((error, st1), w1) \<Rightarrow>
        if error \<noteq> 0 then ((error, st1), w1)
        else (case iqs323_irq_poll K IQS323_ATI_TIMEOUT_US w1 of (error, w2) \<Rightarrow>
          if error \<noteq> 0 then iqs323_ati_attempts n K st1 error w2
          else (case iqs323_read_word K IQS323_SYS_STATUS w2 of ((error, sys_status), w3) \<Rightarrow>
            if error \<noteq> 0 then ((error, st1), w3)
            else if sys_status AND IQS323_SYS_STATUS_RESET \<noteq> 0 then ((error, st1), w3)
            else if sys_status AND IQS323_SYS_STATUS_ATI_ERROR \<noteq> 0 then
              iqs323_ati_attempts n K st1 (- EIO) w3
            else if sys_status AND IQS323_SYS_STATUS_ATI_ACTIVE \<noteq> 0 then
              iqs323_ati_attempts n K st1 (- EBUSY) w3
            else ((error, st1), w3))))"

definition iqs323_ati_trigger ::
  "kernel \<Rightarrow> iqs323_private \<Rightarrow> world \<Rightarrow> (int \<times> iqs323_private) \<times> world" where
  "iqs323_ati_trigger K st w = iqs323_ati_attempts IQS323_NUM_RETRIES K st 0 w"

text \<open>The row loop of \<^verbatim>\<open>iqs323_dev_init\<close> for one group; \<open>reg\<close> is the address of the
  next row and \<open>val_buf\<close> the scratch buffer, allocated once per group.\<close>

fun iqs323_dev_init_rows ::
  "kernel \<Rightarrow> rw_dir \<Rightarrow> iqs323_reg_grp_id \<Rightarrow> nat \<Rightarrow> nat list \<Rightarrow> u16 \<Rightarrow> u8 list
     \<Rightarrow> iqs323_private \<Rightarrow> world \<Rightarrow> (int \<times> iqs323_private) \<times> world" where
  "iqs323_dev_init_rows K dir g nc [] reg val_buf st w = ((0, st), w)"
| "iqs323_dev_init_rows K dir g nc (j # js) reg val_buf st w =
     (case dir of
        READ \<Rightarrow>
          (case iqs323_read_burst K (ucast reg) val_buf nc w of ((error, val_buf'), w1) \<Rightarrow>
             let st1 = iqs323_setup_update g j
                         (le16_words val_buf' @ drop nc (the (iqs323_setup st g j))) st
             in if error \<noteq> 0 then ((error, st1), w1)
                else iqs323_dev_init_rows K dir g nc js (reg + IQS323_REG_OFFSET) val_buf' st1 w1)
      | WRITE \<Rightarrow>
          (case iqs323_write_burst K (ucast reg) (le16_buf (take nc (the (iqs323_setup st g j)))) w
           of (error, w1) \<Rightarrow>
             if error \<noteq> 0 then ((error, st), w1)
             else iqs323_dev_init_rows K dir g nc js (reg + IQS323_REG_OFFSET) val_buf st w1))"

fun iqs323_dev_init_grps ::
  "kernel \<Rightarrow> rw_dir \<Rightarrow> iqs323_reg_grp_id list \<Rightarrow> iqs323_private \<Rightarrow> world
     \<Rightarrow> (int \<times> iqs323_private) \<times> world" where
  "iqs323_dev_init_grps K dir [] st w = ((0, st), w)"
| "iqs323_dev_init_grps K dir (g # gs) st w =
     (let d = reg_grps (q_dev_desc st) g in
      if num_col d = 0 \<or> iqs323_setup st g 0 = None then iqs323_dev_init_grps K dir gs st w
      else (case iqs323_dev_init_rows K dir g (num_col d) [0..<num_row d] (base d)
                   (replicate (num_col d * 2) 0) st w of ((error, st1), w1) \<Rightarrow>
        if error \<noteq> 0 then ((error, st1), w1)
        else iqs323_dev_init_grps K dir gs st1 w1))"

definition iqs323_dev_init ::
  "kernel \<Rightarrow> rw_dir \<Rightarrow> iqs323_private \<Rightarrow> world \<Rightarrow> (int \<times> iqs323_private) \<times> world" where
  "iqs323_dev_init K dir st w =
     (case (if dir = WRITE
            then iqs323_write_mode K st IQS323_INTF_MODE_STREAM IQS323_POWER_MODE_USER
                   IQS323_SYS_SETUP_ACK_RESET w
            else ((0, st), w)) of ((error, st1), w1) \<Rightarrow>
      if error \<noteq> 0 then ((error, st1), w1)
      else (case iqs323_dev_init_grps K dir iqs323_all_reg_grps st1 w1 of ((error, st2), w2) \<Rightarrow>
        if error \<noteq> 0 then ((error, st2), w2)
        else if dir = READ then ((0, st2), w2)
        else iqs323_ati_trigger K st2 w2))"

section \<open>IQS323: configuration builder\<close>

type_synonym iqs323_prop_desc = "(iqs323_reg_grp_id, iqs323_reg_key_id) prop_desc"

definition iqs323_prop ::
  "string \<Rightarrow> iqs323_reg_grp_id \<Rightarrow> iqs323_reg_key_id \<Rightarrow> nat \<Rightarrow> nat \<Rightarrow> nat \<Rightarrow> iqs323_prop_desc" where
  "iqs323_prop n g k off sh wd =
     \<lparr>name = n, reg_grp = g, reg_key = k, reg_offset = off, reg_shift = sh, reg_width = wd,
      val_subs = [], val_pitch = 0, val_min = 0, val_max = 0, invert = False\<rparr>"

definition iqs323_props :: "iqs323_prop_desc list" where
  "iqs323_props =
     [iqs323_prop ''azoteq,tx-freq-fosc'' IQS323_REG_GRP_SNSR IQS323_REG_KEY_NONE 0 5 1,
      iqs323_prop ''azoteq,vbias-enable'' IQS323_REG_GRP_SNSR IQS323_REG_KEY_NONE 0 4 1,
      iqs323_prop ''azoteq,invert-enable'' IQS323_REG_GRP_SNSR IQS323_REG_KEY_NONE 0 3 1,
      iqs323_prop ''azoteq,dual-direction'' IQS323_REG_GRP_SNSR IQS323_REG_KEY_NONE 0 2 1,
      iqs323_prop ''azoteq,linearize'' IQS323_REG_GRP_SNSR IQS323_REG_KEY_NONE 0 1 1,
      iqs323_prop ''azoteq,conv-period'' IQS323_REG_GRP_SNSR IQS323_REG_KEY_NONE 1 8 8,
      iqs323_prop ''azoteq,conv-frac'' IQS323_REG_GRP_SNSR IQS323_REG_KEY_NONE 1 0 8,
      iqs323_prop ''azoteq,vref-half'' IQS323_REG_GRP_SNSR IQS323_REG_KEY_NONE 2 14 1,
      iqs323_prop ''azoteq,samp-cap-double'' IQS323_REG_GRP_SNSR IQS323_REG_KEY_NONE 2 12 1,
      iqs323_prop ''azoteq,proj-bias'' IQS323_REG_GRP_SNSR IQS323_REG_KEY_NONE 2 8 2,
      iqs323_prop ''azoteq,max-counts'' IQS323_REG_GRP_SNSR IQS323_REG_KEY_NONE 2 6 2,
      (iqs323_prop ''azoteq,sense-mode'' IQS323_REG_GRP_SNSR IQS323_REG_KEY_NONE 2 0 6)\<lparr>val_subs := iqs323_sense_modes, val_max := 3\<rparr>,
      iqs323_prop ''azoteq,tref-enable'' IQS323_REG_GRP_SNSR IQS323_REG_KEY_NONE 3 13 1,
      iqs323_prop ''azoteq,iref-enable'' IQS323_REG_GRP_SNSR IQS323_REG_KEY_NONE 3 12 1,
      iqs323_prop ''azoteq,dead-time-enable'' IQS323_REG_GRP_SNSR IQS323_REG_KEY_NONE 3 6 1,
      iqs323_prop ''azoteq,auto-mode'' IQS323_REG_GRP_SNSR IQS323_REG_KEY_NONE 3 2 2,
      iqs323_prop ''azoteq,wave-pattern-1'' IQS323_REG_GRP_SNSR IQS323_REG_KEY_NONE 4 12 4,
      iqs323_prop ''azoteq,wave-pattern-0'' IQS323_REG_GRP_SNSR IQS323_REG_KEY_NONE 4 8 4,
      (iqs323_prop ''azoteq,rx-inactive'' IQS323_REG_GRP_SNSR IQS323_REG_KEY_NONE 4 0 4)\<lparr>val_subs := iqs323_rx_inactives, val_max := 3\<rparr>,
      iqs323_prop ''azoteq,iref-level'' IQS323_REG_GRP_SNSR IQS323_REG_KEY_NONE 5 12 4,
      iqs323_prop ''azoteq,iref-trim'' IQS323_REG_GRP_SNSR IQS323_REG_KEY_NONE 5 8 4,
      iqs323_prop ''azoteq,ati-factor'' IQS323_REG_GRP_SNSR IQS323_REG_KEY_NONE 6 4 12,
      (iqs323_prop ''azoteq,ati-band-tighten'' IQS323_REG_GRP_SNSR IQS323_REG_KEY_NONE 6 3 1)\<lparr>invert := True\<rparr>,
      (iqs323_prop ''azoteq,ati-mode'' IQS323_REG_GRP_SNSR IQS323_REG_KEY_NONE 6 0 3)\<lparr>val_max := 4\<rparr>,
      (iqs323_prop ''azoteq,ati-base'' IQS323_REG_GRP_SNSR IQS323_REG_KEY_NONE 7 0 16)\<lparr>val_max := 16384\<rparr>,
      iqs323_prop ''azoteq,ati-frac-mult-fine'' IQS323_REG_GRP_SNSR IQS323_REG_KEY_NONE 8 14 2,
      iqs323_prop ''azoteq,ati-frac-div-fine'' IQS323_REG_GRP_SNSR IQS323_REG_KEY_NONE 8 9 5,
      iqs323_prop ''azoteq,ati-frac-mult-coarse'' IQS323_REG_GRP_SNSR IQS323_REG_KEY_NONE 8 5 4,
      iqs323_prop ''azoteq,ati-frac-div-coarse'' IQS323_REG_GRP_SNSR IQS323_REG_KEY_NONE 8 0 5,
      iqs323_prop ''azoteq,ati-comp-div'' IQS323_REG_GRP_SNSR IQS323_REG_KEY_NONE 9 11 5,
      iqs323_prop ''azoteq,ati-comp-select'' IQS323_REG_GRP_SNSR IQS323_REG_KEY_NONE 9 0 10,
      iqs323_prop ''azoteq,debounce-exit'' IQS323_REG_GRP_CHAN IQS323_REG_KEY_PROX 1 12 4,
      iqs323_prop ''azoteq,debounce-enter'' IQS323_REG_GRP_CHAN IQS323_REG_KEY_PROX 1 8 4,
      iqs323_prop ''azoteq,thresh'' IQS323_REG_GRP_CHAN IQS323_REG_KEY_PROX 1 0 8,
      iqs323_prop ''azoteq,thresh'' IQS323_REG_GRP_CHAN IQS323_REG_KEY_TOUCH 2 0 8,
      iqs323_prop ''azoteq,hyst'' IQS323_REG_GRP_CHAN IQS323_REG_KEY_TOUCH 2 8 8,
      iqs323_prop ''azoteq,debounce-exit'' IQS323_REG_GRP_CHAN IQS323_REG_KEY_MOV 4 12 4,
      iqs323_prop ''azoteq,debounce-enter'' IQS323_REG_GRP_CHAN IQS323_REG_KEY_MOV 4 8 4,
      iqs323_prop ''azoteq,thresh'' IQS323_REG_GRP_CHAN IQS323_REG_KEY_MOV 4 0 8,
      iqs323_prop ''azoteq,lower-cal'' IQS323_REG_GRP_SLDR IQS323_REG_KEY_NONE 0 8 8,
      iqs323_prop ''azoteq,static-beta'' IQS323_REG_GRP_SLDR IQS323_REG_KEY_NONE 0 6 1,
      iqs323_prop ''azoteq,bottom-beta'' IQS323_REG_GRP_SLDR IQS323_REG_KEY_NONE 0 3 3,
      iqs323_prop ''azoteq,bottom-speed'' IQS323_REG_GRP_SLDR IQS323_REG_KEY_NONE 1 8 8,
      iqs323_prop ''azoteq,upper-cal'' IQS323_REG_GRP_SLDR IQS323_REG_KEY_NONE 1 0 8,
      iqs323_prop ''azoteq,top-speed'' IQS323_REG_GRP_SLDR IQS323_REG_KEY_NONE 2 0 16,
      iqs323_prop ''azoteq,slider-size'' IQS323_REG_GRP_SLDR IQS323_REG_KEY_NONE 3 0 16,
      iqs323_prop ''azoteq,gesture-min-ms'' IQS323_REG_GRP_GEST IQS323_REG_KEY_TAP 1 0 16,
      iqs323_prop ''azoteq,gesture-max-ms'' IQS323_REG_GRP_GEST IQS323_REG_KEY_TAP 2 0 16,
      iqs323_prop ''azoteq,gesture-max-ms'' IQS323_REG_GRP_GEST IQS323_REG_KEY_AXIAL 3 0 16,
      iqs323_prop ''azoteq,gesture-min-ms'' IQS323_REG_GRP_GEST IQS323_REG_KEY_HOLD 4 0 16,
      iqs323_prop ''azoteq,gesture-dist'' IQS323_REG_GRP_GEST IQS323_REG_KEY_TAP 5 0 16,
      iqs323_prop ''azoteq,gesture-dist'' IQS323_REG_GRP_GEST IQS323_REG_KEY_AXIAL 6 0 16,
      iqs323_prop ''azoteq,counts-beta-lp'' IQS323_REG_GRP_FILT IQS323_REG_KEY_NONE 0 8 8,
      iqs323_prop ''azoteq,counts-beta-np'' IQS323_REG_GRP_FILT IQS323_REG_KEY_NONE 0 0 8,
      iqs323_prop ''azoteq,lta-beta-lp'' IQS323_REG_GRP_FILT IQS323_REG_KEY_NONE 1 8 8,
      iqs323_prop ''azoteq,lta-beta-np'' IQS323_REG_GRP_FILT IQS323_REG_KEY_NONE 1 0 8,
      iqs323_prop ''azoteq,lta-fast-beta-lp'' IQS323_REG_GRP_FILT IQS323_REG_KEY_NONE 2 8 8,
      iqs323_prop ''azoteq,lta-fast-beta-np'' IQS323_REG_GRP_FILT IQS323_REG_KEY_NONE 2 0 8,
      iqs323_prop ''azoteq,press-lta-beta-lp'' IQS323_REG_GRP_FILT IQS323_REG_KEY_NONE 3 8 8,
      iqs323_prop ''azoteq,press-lta-beta-np'' IQS323_REG_GRP_FILT IQS323_REG_KEY_NONE 3 0 8,
      iqs323_prop ''azoteq,fast-filt-band'' IQS323_REG_GRP_FILT IQS323_REG_KEY_NONE 4 0 16,
      (iqs323_prop ''azoteq,power-mode'' IQS323_REG_GRP_SYS IQS323_REG_KEY_NONE 0 4 3)\<lparr>val_max := 5\<rparr>,
      (iqs323_prop ''azoteq,rate-np-ms'' IQS323_REG_GRP_SYS IQS323_REG_KEY_NONE 1 0 16)\<lparr>val_max := 3000\<rparr>,
      (iqs323_prop ''azoteq,rate-lp-ms'' IQS323_REG_GRP_SYS IQS323_REG_KEY_NONE 2 0 16)\<lparr>val_max := 3000\<rparr>,
      (iqs323_prop ''azoteq,rate-ulp-ms'' IQS323_REG_GRP_SYS IQS323_REG_KEY_NONE 3 0 16)\<lparr>val_max := 3000\<rparr>,
      (iqs323_prop ''azoteq,rate-halt-ms'' IQS323_REG_GRP_SYS IQS323_REG_KEY_NONE 4 0 16)\<lparr>val_max := 3000\<rparr>,
      (iqs323_prop ''azoteq,timeout-xp-ms'' IQS323_REG_GRP_SYS IQS323_REG_KEY_NONE 5 0 16)\<lparr>val_max := 65000\<rparr>,
      (iqs323_prop ''azoteq,timeout-comms-ms'' IQS323_REG_GRP_GEN IQS323_REG_KEY_NONE 1 0 16)\<lparr>val_min := 2, val_max := 230\<rparr>,
      (iqs323_prop ''azoteq,timeout-press-ms'' IQS323_REG_GRP_GEN IQS323_REG_KEY_TOUCH 2 8 8)\<lparr>val_pitch := 512\<rparr>,
      (iqs323_prop ''azoteq,timeout-press-ms'' IQS323_REG_GRP_GEN IQS323_REG_KEY_PROX 2 0 8)\<lparr>val_pitch := 512\<rparr>,
      iqs323_prop ''azoteq,thresh'' IQS323_REG_GRP_REL IQS323_REG_KEY_NONE 3 8 8,
      iqs323_prop ''azoteq,delta-delay'' IQS323_REG_GRP_REL IQS323_REG_KEY_NONE 4 8 8,
      (iqs323_prop ''azoteq,delta-weight'' IQS323_REG_GRP_REL IQS323_REG_KEY_NONE 4 0 8)\<lparr>val_max := 128\<rparr>,
      (iqs323_prop ''azoteq,timeout-press-ms'' IQS323_REG_GRP_GEN IQS323_REG_KEY_MOV 4 0 16)\<lparr>val_pitch := 512\<rparr>]"

text \<open>One pass of the loop of \<^verbatim>\<open>iqs323_parse_props\<close> over a descriptor of the group and
  key asked for. A value is looked up in the substitution table with \<^verbatim>\<open>val_subs[val]\<close>;
  the tables bound \<^verbatim>\<open>val_max\<close> by their last index.\<close>

definition iqs323_parse_prop :: "fwnode \<Rightarrow> iqs323_prop_desc \<Rightarrow> u16 list \<Rightarrow> int \<times> u16 list" where
  "iqs323_parse_prop node d row =
     (let off = reg_offset d; sh = reg_shift d; wd = reg_width d;
          pitch = (if val_pitch d = 0 then 1 else val_pitch d)
      in if wd = 1 then
           (let row1 = (if invert d then row[off := row ! off OR word_of_int (BIT sh)]
                        else row[off := row ! off AND NOT (word_of_int (BIT sh))])
            in if fwnode_property_present node (name d)
               then (0, if invert d then row1[off := row1 ! off AND NOT (word_of_int (BIT sh))]
                        else row1[off := row1 ! off OR word_of_int (BIT sh)])
               else (0, row1))
         else (case fwnode_property_read_u32 node (name d) of (error, v) \<Rightarrow>
           if error = - EINVAL then (0, row)
           else if error \<noteq> 0 then (error, row)
           else
             let vmax = (if val_max d = 0 then word_of_int (GENMASK (wd - 1) 0 * int pitch)
                         else word_of_nat (val_max d)) :: u32
             in if v < word_of_nat (val_min d) \<or> v > vmax then (- EINVAL, row)
                else
                  let cleared = row ! off AND NOT (word_of_int (GENMASK (sh + wd - 1) sh))
                  in (0, row[off := (if val_subs d \<noteq> [] then cleared OR val_subs d ! unat v
                                     else cleared OR ucast (push_bit sh (v div word_of_nat pitch)))])))"

fun iqs323_parse_props_loop ::
  "fwnode \<Rightarrow> iqs323_reg_grp_id \<Rightarrow> iqs323_reg_key_id \<Rightarrow> iqs323_prop_desc list \<Rightarrow> u16 list
     \<Rightarrow> int \<times> u16 list" where
  "iqs323_parse_props_loop node g k [] row = (0, row)"
| "iqs323_parse_props_loop node g k (d # ds) row =
     (if reg_grp d \<noteq> g \<or> reg_key d \<noteq> k then iqs323_parse_props_loop node g k ds row
      else (case iqs323_parse_prop node d row of (error, row') \<Rightarrow>
        if error \<noteq> 0 then (error, row') else iqs323_parse_props_loop node g k ds row'))"

definition iqs323_parse_props ::
  "iqs323_private \<Rightarrow> fwnode \<Rightarrow> nat \<Rightarrow> iqs323_reg_grp_id \<Rightarrow> iqs323_reg_key_id
     \<Rightarrow> int \<times> iqs323_private" where
  "iqs323_parse_props st reg_grp_node reg_grp_index g k =
     (case iqs323_setup st g reg_grp_index of
        None \<Rightarrow> (0, st)
      | Some row \<Rightarrow>
          (case iqs323_parse_props_loop reg_grp_node g k iqs323_props row of (error, row') \<Rightarrow>
             (error, iqs323_setup_update g reg_grp_index row' st)))"

section \<open>IQS323: event decoding\<close>

text \<open>The keypad loop of \<^verbatim>\<open>iqs323_process_events\<close> for channel \<open>i\<close> and event \<open>j\<close>.\<close>

definition iqs323_report_kp :: "iqs323_private \<Rightarrow> u16 \<Rightarrow> nat \<times> nat \<Rightarrow> world \<Rightarrow> world" where
  "iqs323_report_kp st sys_status ij w =
     (case ij of (i, j) \<Rightarrow>
        let msk = push_bit (i * 2 + 8) (ev_mask (iqs323_kp_events ! j)) :: u16 in
        if q_kp_type st ! i ! j = 0 then w
        else input_event (q_kp_type st ! i ! j) (q_kp_code st ! i ! j)
               (if sys_status AND msk \<noteq> 0 then 1 else 0) w)"

text \<open>The first slider loop: one key report per slider event, clearing the gesture bit
  of a "busy" event from \<^verbatim>\<open>sldr_status\<close>.\<close>

definition iqs323_report_sl :: "iqs323_private \<Rightarrow> u16 \<Rightarrow> nat \<Rightarrow> u16 \<times> world \<Rightarrow> u16 \<times> world" where
  "iqs323_report_sl st sldr_pos i acc =
     (case acc of (sldr_status, w) \<Rightarrow>
        let msk = ev_mask (iqs323_sl_events ! i);
            w1 = input_report_key (q_sl_code st ! i)
                   (if msk \<noteq> 0 then sldr_status AND msk = msk else sldr_pos < U16_MAX) w
        in if msk AND IQS323_SLDR_STATUS_BUSY \<noteq> 0
           then (sldr_status AND NOT (msk AND NOT IQS323_SLDR_STATUS_BUSY), w1)
           else (sldr_status, w1))"

text \<open>The second slider loop: momentary gestures are released at once.\<close>

definition iqs323_release_sl :: "iqs323_private \<Rightarrow> nat \<Rightarrow> world \<Rightarrow> world" where
  "iqs323_release_sl st i w =
     (let msk = ev_mask (iqs323_sl_events ! i) in
      if msk = 0 then w
      else if msk AND IQS323_SLDR_STATUS_BUSY = 0 then input_report_key (q_sl_code st ! i) False w
      else w)"

text \<open>The part of \<^verbatim>\<open>iqs323_process_events\<close> below the status checks.\<close>

definition iqs323_decode_events ::
  "kernel \<Rightarrow> iqs323_private \<Rightarrow> u16 list \<Rightarrow> world \<Rightarrow> (int \<times> iqs323_private) \<times> world" where
  "iqs323_decode_events K st val_buf w =
     (let sys_status = val_buf ! 0;
          w1 = fold (iqs323_report_kp st sys_status)
                 (concat (map (\<lambda>i. map (\<lambda>j. (i, j)) [0..<length iqs323_kp_events])
                            [0..<IQS323_NUM_CHAN])) w;
          sldr_pos = val_buf ! 2;
          streaming = (sldr_pos < U16_MAX \<and> q_abs st);
          w2 = (if streaming then input_report_abs (q_sl_axis st) (uint sldr_pos) w1 else w1);
          mode = (if streaming then IQS323_INTF_MODE_STREAM else IQS323_INTF_MODE_EVENT);
          sldr_status = ((val_buf ! 1) AND U8_MAX) AND NOT IQS323_SLDR_STATUS_EVENT
      in case fold (iqs323_report_sl st sldr_pos) [0..<length iqs323_sl_events] (sldr_status, w2)
         of (sldr_status', w3) \<Rightarrow>
           let w4 = (if sldr_status' AND NOT IQS323_SLDR_STATUS_BUSY \<noteq> 0
                     then fold (iqs323_release_sl st) [0..<length iqs323_sl_events] (input_sync w3)
                     else w3);
               w5 = input_sync w4
           in if mode = q_intf_mode st then ((0, st), w5)
              else iqs323_write_mode K st mode IQS323_POWER_MODE_USER 0 w5)"

text \<open>\<^verbatim>\<open>iqs323_process_events\<close>; \<open>val_buf\<close> is the caller's buffer of \<open>num_val\<close> words.
  \<^verbatim>\<open>x ? : y\<close> is \<open>x\<close> unless \<open>x\<close> is zero.\<close>

definition iqs323_process_events ::
  "kernel \<Rightarrow> iqs323_private \<Rightarrow> u8 list \<Rightarrow> nat \<Rightarrow> world
     \<Rightarrow> (int \<times> iqs323_private) \<times> world" where
  "iqs323_process_events K st val_buf num_val w =
     (case iqs323_read_burst K IQS323_SYS_STATUS val_buf num_val w of ((error, bytes), w1) \<Rightarrow>
        if error \<noteq> 0 then ((error, st), w1)
        else
          let words = le16_words bytes;
              check_comms = words ! (IQS323_MIN_REPORT_LEN - 1);
              sys_status = words ! 0
          in if check_comms \<noteq> IQS323_COMMS_ERROR then
               (case iqs323_hard_reset K w1 of (error, w2) \<Rightarrow>
                  if error \<noteq> 0 then ((error, st), w2)
                  else (case iqs323_dev_init K WRITE st w2 of ((error, st'), w3) \<Rightarrow>
                    (((if error \<noteq> 0 then error else - EAGAIN), st'), w3)))
             else if sys_status AND IQS323_SYS_STATUS_RESET \<noteq> 0 then
               (case iqs323_dev_init K WRITE st w1 of ((error, st'), w2) \<Rightarrow>
                  (((if error \<noteq> 0 then error else - EAGAIN), st'), w2))
             else if sys_status AND IQS323_SYS_STATUS_ATI_ERROR \<noteq> 0 then
               (case iqs323_ati_trigger K st w1 of ((error, st'), w2) \<Rightarrow>
                  (((if error \<noteq> 0 then error else - EAGAIN), st'), w2))
             else if sys_status AND IQS323_SYS_STATUS_ATI_ACTIVE \<noteq> 0 then ((- EAGAIN, st), w1)
             else iqs323_decode_events K st words w1)"

text \<open>\<^verbatim>\<open>iqs323_report_sync\<close>, the interrupt path: a retry indication is not an error
  there. \<^verbatim>\<open>iqs323_report_async\<close> only masks the interrupt around the same call.\<close>

definition iqs323_report_sync :: "kernel \<Rightarrow> iqs323_private \<Rightarrow> world \<Rightarrow> (int \<times> iqs323_private) \<times> world" where
  "iqs323_report_sync K st w =
     (case iqs323_process_events K st (replicate (IQS323_MIN_REPORT_LEN * 2) 0)
             IQS323_MIN_REPORT_LEN w of ((error, st'), w') \<Rightarrow>
        (((if error = - EAGAIN then 0 else error), st'), w'))"

definition iqs323_report_async ::
  "kernel \<Rightarrow> iqs323_private \<Rightarrow> u8 list \<Rightarrow> nat \<Rightarrow> world \<Rightarrow> (int \<times> iqs323_private) \<times> world" where
  "iqs323_report_async K st val_buf num_val w = iqs323_process_events K st val_buf num_val w"

section \<open>IQS323: power management\<close>





section \<open>IQS9150: burst read\<close>

datatype iqs9150_comms_mode = IQS9150_COMMS_MODE_WAIT | IQS9150_COMMS_MODE_FREE | IQS9150_COMMS_MODE_FORCE

definition IQS9150_COMMS_ERROR :: u16 where "IQS9150_COMMS_ERROR = 0xEEEE"
definition IQS9150_COMMS_RETRY_MS :: nat where "IQS9150_COMMS_RETRY_MS = 50"
definition IQS9150_COMMS_TIMEOUT_US :: nat where "IQS9150_COMMS_TIMEOUT_US = 100 * 1000"
definition IQS9150_START_TIMEOUT_US :: nat where "IQS9150_START_TIMEOUT_US = 1 * 1000000"
definition IQS9150_NUM_RETRIES :: nat where "IQS9150_NUM_RETRIES = 5"

definition iqs9150_irq_wait :: "world \<Rightarrow> world" where
  "iqs9150_irq_wait w = usleep_range 50 w"

definition iqs9150_irq_poll :: "kernel \<Rightarrow> nat \<Rightarrow> world \<Rightarrow> int \<times> world" where
  "iqs9150_irq_poll K timeout_us w =
     (case readx_poll_timeout K timeout_us w of ((error, v), w') \<Rightarrow>
        ((if v < 0 then v else error), w'))"

text \<open>\<^verbatim>\<open>iqs9150_force_comms\<close>; \<open>comms_mode\<close> is the member of \<^verbatim>\<open>struct iqs9150_private\<close> it
  switches on, the only part of the device state the burst read depends on.\<close>

definition iqs9150_force_comms :: "kernel \<Rightarrow> iqs9150_comms_mode \<Rightarrow> world \<Rightarrow> int \<times> world" where
  "iqs9150_force_comms K comms_mode w =
     (case comms_mode of
        IQS9150_COMMS_MODE_WAIT \<Rightarrow> iqs9150_irq_poll K IQS9150_START_TIMEOUT_US w
      | IQS9150_COMMS_MODE_FREE \<Rightarrow> (0, w)
      | IQS9150_COMMS_MODE_FORCE \<Rightarrow>
          (case gpiod_get_value_cansleep K w of (ret, w1) \<Rightarrow>
             if ret < 0 then (ret, w1)
             else if ret > 0 then (0, w1)
             else (case i2c_master_send K [0xFF] w1 of (ret, w2) \<Rightarrow>
               if ret < 1 then ((if ret \<ge> 0 then - EIO else ret), msleep IQS9150_COMMS_RETRY_MS w2)
               else iqs9150_irq_poll K IQS9150_COMMS_TIMEOUT_US (iqs9150_irq_wait w2))))"

text \<open>The loop of \<^verbatim>\<open>__iqs9150_read_burst\<close>: a 16-bit register address, a length in bytes.
  The function itself is \<open>iqs9150_read_burst_raw\<close> below.\<close>

fun iqs9150_read_attempts ::
  "nat \<Rightarrow> kernel \<Rightarrow> iqs9150_comms_mode \<Rightarrow> u16 \<Rightarrow> nat \<Rightarrow> int \<times> u8 list \<Rightarrow> world
     \<Rightarrow> (int \<times> u8 list) \<times> world" where
  "iqs9150_read_attempts 0 K cm reg val_len rb w = (rb, w)"
| "iqs9150_read_attempts (Suc n) K cm reg val_len (ret0, buf) w =
     (case iqs9150_force_comms K cm w of (ret, w1) \<Rightarrow>
        if ret < 0 then iqs9150_read_attempts n K cm reg val_len (ret, buf) w1
        else (case i2c_transfer K (le16_bytes reg) val_len w1 of ((ret, buf'), w2) \<Rightarrow>
          if ret < 2 then
            iqs9150_read_attempts n K cm reg val_len
              ((if ret \<ge> 0 then - EIO else ret), buf') (msleep IQS9150_COMMS_RETRY_MS w2)
          else if get_unaligned_le16 buf' = IQS9150_COMMS_ERROR then
            iqs9150_read_attempts n K cm reg val_len (- ENODATA, buf') w2
          else ((0, buf'), w2)))"

definition iqs9150_read_burst_raw ::
  "kernel \<Rightarrow> iqs9150_comms_mode \<Rightarrow> u16 \<Rightarrow> u8 list \<Rightarrow> nat \<Rightarrow> world \<Rightarrow> (int \<times> u8 list) \<times> world" where
  "iqs9150_read_burst_raw K cm reg val val_len w =
     (case iqs9150_read_attempts IQS9150_NUM_RETRIES K cm reg val_len (0, val) w of
        (rb, w') \<Rightarrow> (rb, iqs9150_irq_wait w'))"

section \<open>Test fixtures\<close>

text \<open>A kernel whose ready line is always asserted and whose bus always succeeds, every
  read returning the same bytes; a world in which nothing has happened yet; and an idle
  IQS7219A whose channel 0 reports the first proximity event.\<close>

definition ready_kernel :: "u8 list \<Rightarrow> kernel" where
  "ready_kernel data = \<lparr>gpio_value = (\<lambda>n. 1), i2c_send_ret = (\<lambda>n. 3), i2c_xfer_ret = (\<lambda>n. 2),
     i2c_xfer_data = (\<lambda>n. data), poll_value = (\<lambda>n. 1)\<rparr>"

definition world0 :: world where
  "world0 = \<lparr>now = 0, gpio_reads = 0, sends = 0, xfers = 0, polls = 0, trace = []\<rparr>"

definition iqs7219_idle :: iqs7219_private where
  "iqs7219_idle = \<lparr>reset_gpio = False, pxs_flags = 0, intf_mode = 0,
     ati_setup = replicate 2 (replicate 5 0), sys_setup = replicate 10 0,
     pxs_setup = replicate 2 [0], cap_setup = 0,
     event_setup = replicate 2 (replicate 3 (replicate 5 0)),
     chan_setup = replicate 2 (replicate 13 0), event_mask = [1, 0], comms_setup = 0,
     scan_data = [None, None], event_enable = [True, False], trig_valid = [False, False],
     trig_enable = False, timestamp = 0, scan_mux = [0, 0]\<rparr>"

section \<open>Properties of the IQS7219A status decoder\<close>

text \<open>C8: the delta of a channel is \<open>max (longTermAverage - filteredCounts) 0\<close>, never
  negative; \<open>100\<close> and \<open>150\<close> give \<open>0\<close>, \<open>150\<close> and \<open>100\<close> give \<open>50\<close>.\<close>

theorem iqs7219_delta_clamped:
  "iqs7219_scan val_buf flags i ! IQS7219_SCAN_DELTA =
     max (iqs7219_scan val_buf flags i ! IQS7219_SCAN_LTA
          - iqs7219_scan val_buf flags i ! IQS7219_SCAN_FILT) 0
   \<and> 0 \<le> iqs7219_scan val_buf flags i ! IQS7219_SCAN_DELTA
   \<and> iqs7219_scan val_buf flags i ! IQS7219_SCAN_LTA = uint (val_buf ! (3 + i * 2))
   \<and> iqs7219_scan val_buf flags i ! IQS7219_SCAN_FILT = uint (val_buf ! (2 + i * 2))
   \<and> iqs7219_scan [0, 0, 150, 100, 0, 0, 0, 0, 0, 0, 0, 0] 0 0 ! IQS7219_SCAN_DELTA = 0
   \<and> iqs7219_scan [0, 0, 100, 150, 0, 0, 0, 0, 0, 0, 0, 0] 0 0 ! IQS7219_SCAN_DELTA = 50"
  by (simp add: iqs7219_scan_def scan_id_defs Let_def)

text \<open>The events a status read is expected to dispatch, in the words of the
  specification: for channel \<open>i\<close> and event \<open>j\<close>,
  \<open>changed = (newFlags AND mask) XOR (cachedFlags AND mask)\<close>, dispatch when it is non-zero
  and the channel's events are enabled, rising when the new bit is set.\<close>

definition event_bit :: "u16 list \<Rightarrow> nat \<Rightarrow> nat \<Rightarrow> u16" where
  "event_bit em i j = push_bit (i * 4) (em ! i AND word_of_int (BIT j))"

definition event_changed :: "u16 list \<Rightarrow> u16 \<Rightarrow> u16 \<Rightarrow> nat \<Rightarrow> nat \<Rightarrow> bool" where
  "event_changed em cache flags i j =
     ((flags AND event_bit em i j) XOR (cache AND event_bit em i j) \<noteq> 0)"

definition event_dir :: "u16 list \<Rightarrow> u16 \<Rightarrow> nat \<Rightarrow> nat \<Rightarrow> iio_event_direction" where
  "event_dir em flags i j =
     (if flags AND event_bit em i j \<noteq> 0 then IIO_EV_DIR_RISING else IIO_EV_DIR_FALLING)"

definition expected_event :: "iqs7219_private \<Rightarrow> u16 \<Rightarrow> nat \<Rightarrow> nat \<Rightarrow> io list" where
  "expected_event st flags i j =
     (if event_changed (event_mask st) (pxs_flags st) flags i j \<and> event_enable st ! i
      then [Iio_push_event i (event_dir (event_mask st) flags i j)] else [])"

definition expected_events :: "iqs7219_private \<Rightarrow> u16 \<Rightarrow> io list" where
  "expected_events st flags =
     concat (map (\<lambda>i. concat (map (expected_event st flags i) [0..<3])) [0..<IQS7219_NUM_CHAN])"

definition same_events_cfg :: "iqs7219_private \<Rightarrow> iqs7219_private \<Rightarrow> bool" where
  "same_events_cfg st st' \<longleftrightarrow>
     event_mask st' = event_mask st \<and> pxs_flags st' = pxs_flags st
     \<and> event_enable st' = event_enable st \<and> scan_mux st' = scan_mux st
     \<and> intf_mode st' = intf_mode st \<and> trig_enable st' = trig_enable st"

definition iqs7219_status_quiet :: "u16 \<Rightarrow> bool" where
  "iqs7219_status_quiet sys_flags \<longleftrightarrow>
     sys_flags AND IQS7219_SYS_STATUS_RESET = 0
     \<and> sys_flags AND IQS7219_SYS_STATUS_ATI_ERROR = 0
     \<and> sys_flags AND IQS7219_SYS_STATUS_ATI_ACTIVE = 0"

definition is_push_event :: "io \<Rightarrow> bool" where
  "is_push_event e = (case e of Iio_push_event c d \<Rightarrow> True | _ \<Rightarrow> False)"

definition pushed_events :: "io list \<Rightarrow> io list" where
  "pushed_events tr = filter is_push_event tr"

lemma report_event_trace:
  "iqs7219_report_event flags i j (st, w) = (st', w') \<Longrightarrow>
     trace w' = trace w @ expected_event st flags i j \<and> same_events_cfg st st'"
  by (auto simp: iqs7219_report_event_def expected_event_def event_changed_def event_dir_def
        event_bit_def same_events_cfg_def iio_push_event_def Let_def split: if_splits)

lemma upt3: "[0..<3] = [0, 1, 2]" by (simp add: upt_rec)
lemma upt2: "[0..<2] = [0, 1]" by (simp add: upt_rec)

lemma expected_event_cong:
  "same_events_cfg st st' \<Longrightarrow> expected_event st' = expected_event st"
  by (simp add: expected_event_def same_events_cfg_def fun_eq_iff)

lemma same_events_cfg_trans:
  "same_events_cfg a b \<Longrightarrow> same_events_cfg b c \<Longrightarrow> same_events_cfg a c"
  by (simp add: same_events_cfg_def)

lemma report_events_trace:
  assumes "fold (iqs7219_report_event flags i) [0..<3] (st, w) = (st', w')"
  shows "trace w' = trace w @ concat (map (expected_event st flags i) [0..<3])
         \<and> same_events_cfg st st'"
proof -
  obtain s1 w1 where a: "iqs7219_report_event flags i 0 (st, w) = (s1, w1)"
    by (cases "iqs7219_report_event flags i 0 (st, w)")
  obtain s2 w2 where b: "iqs7219_report_event flags i 1 (s1, w1) = (s2, w2)"
    by (cases "iqs7219_report_event flags i 1 (s1, w1)")
  obtain s3 w3 where c: "iqs7219_report_event flags i 2 (s2, w2) = (s3, w3)"
    by (cases "iqs7219_report_event flags i 2 (s2, w2)")
  note A = report_event_trace [OF a] and B = report_event_trace [OF b]
    and C = report_event_trace [OF c]
  have e: "s3 = st'" "w3 = w'" using assms a b c by (simp_all add: upt3)
  have s12: "same_events_cfg st s2" using A B same_events_cfg_trans by blast
  show ?thesis
    using A B C e s12 expected_event_cong [of st s1]
      expected_event_cong [of st s2] same_events_cfg_trans [of st s2 s3]
    by (simp add: upt3)
qed

lemma report_chan_trace:
  assumes "iqs7219_report_chan val_buf flags sid ci i (st, out, p, w) = (st', out', p', w')"
  shows "trace w' = trace w @ concat (map (expected_event st flags i) [0..<3])
         \<and> same_events_cfg st st'"
proof -
  let ?st2 = "st\<lparr>scan_data := (scan_data st)[i := scan_at (iqs7219_scan val_buf flags i) (int (scan_mux st ! i))],
        trig_valid := (trig_valid st)[i := (intf_mode st = 0 \<and> trig_enable st)]\<rparr>"
  obtain s3 w3 where f: "fold (iqs7219_report_event flags i) [0..<3] (?st2, w) = (s3, w3)"
    by (cases "fold (iqs7219_report_event flags i) [0..<3] (?st2, w)")
  have c: "same_events_cfg st ?st2" by (simp add: same_events_cfg_def)
  from assms f have e: "st' = s3" "w' = w3"
    by (simp_all add: iqs7219_report_chan_def Let_def)
  from report_events_trace [OF f] c e show ?thesis
    using same_events_cfg_trans [of st ?st2 s3]
    by (simp add: expected_event_cong [OF c])
qed

lemma report_chans_trace:
  assumes "fold (iqs7219_report_chan val_buf flags sid ci) [0..<IQS7219_NUM_CHAN] (st, out, p, w)
             = (st', out', p', w')"
  shows "trace w' = trace w @ expected_events st flags \<and> same_events_cfg st st'"
proof -
  obtain s1 o1 p1 w1 where a: "iqs7219_report_chan val_buf flags sid ci 0 (st, out, p, w) = (s1, o1, p1, w1)"
    by (cases "iqs7219_report_chan val_buf flags sid ci 0 (st, out, p, w)")
  obtain s2 o2 p2 w2 where b: "iqs7219_report_chan val_buf flags sid ci 1 (s1, o1, p1, w1) = (s2, o2, p2, w2)"
    by (cases "iqs7219_report_chan val_buf flags sid ci 1 (s1, o1, p1, w1)")
  note A = report_chan_trace [OF a] and B = report_chan_trace [OF b]
  have e: "s2 = st'" "w2 = w'" using assms a b by (simp_all add: upt2 IQS7219_NUM_CHAN_def)
  have x: "expected_event s1 = expected_event st"
    using A by (simp add: expected_event_cong)
  show ?thesis
    using A B e x same_events_cfg_trans [of st s1 s2]
    by (simp add: expected_events_def upt2 IQS7219_NUM_CHAN_def)
qed

lemma pushed_expected_event [simp]:
  "pushed_events (expected_event st flags i j) = expected_event st flags i j"
  by (simp add: pushed_events_def expected_event_def is_push_event_def)

lemma pushed_events_append [simp]:
  "pushed_events (a @ b) = pushed_events a @ pushed_events b"
  by (simp add: pushed_events_def)

lemma pushed_expected_events [simp]:
  "pushed_events (expected_events st flags) = expected_events st flags"
  by (simp add: expected_events_def upt2 upt3 IQS7219_NUM_CHAN_def)

lemma report_sync_decode:
  assumes rd: "iqs7219_read_burst K IQS7219_SYS_STATUS (replicate (IQS7219_NUM_COLS_STAT * 2) 0)
                 IQS7219_NUM_COLS_STAT w = ((0, bytes), w1)"
    and quiet: "iqs7219_status_quiet (le16_words bytes ! 0)"
    and rs: "iqs7219_report_sync K st sid ci val w = (r, st', w')"
  shows "pxs_flags st' = le16_words bytes ! 1
         \<and> pushed_events (trace w') = pushed_events (trace w1) @ expected_events st (le16_words bytes ! 1)
         \<and> event_mask st' = event_mask st \<and> event_enable st' = event_enable st
         \<and> fst r = 0"
proof -
  let ?flags = "le16_words bytes ! 1"
  obtain s2 out p w2 where f:
    "fold (iqs7219_report_chan (le16_words bytes) ?flags sid ci) [0..<IQS7219_NUM_CHAN]
       (st, None, False, w1) = (s2, out, p, w2)"
    by (cases "fold (iqs7219_report_chan (le16_words bytes) ?flags sid ci) [0..<IQS7219_NUM_CHAN]
       (st, None, False, w1)")
  from rs rd quiet f have e: "st' = s2\<lparr>timestamp := int (now w) * 1000, pxs_flags := ?flags\<rparr>"
     "w' = (if p then iio_trigger_poll_chained w2 else w2)" "fst r = 0"
    by (auto simp: iqs7219_report_sync_def iqs7219_status_quiet_def Let_def)
  have t: "pushed_events [Iio_trigger_poll] = []"
    by (simp add: pushed_events_def is_push_event_def)
  from report_chans_trace [OF f] e show ?thesis
    by (auto simp: same_events_cfg_def iio_trigger_poll_chained_def t)
qed

lemma expected_events_same:
  "expected_events st (pxs_flags st) = []"
  by (simp add: expected_events_def expected_event_def event_changed_def upt2 upt3
        IQS7219_NUM_CHAN_def)

lemma expected_events_one:
  assumes "i0 < 2" "j0 < 3"
    and "\<forall>i<2. \<forall>j<3. (event_changed (event_mask st) (pxs_flags st) flags i j \<and> event_enable st ! i)
            = (i = i0 \<and> j = j0)"
  shows "expected_events st flags = [Iio_push_event i0 (event_dir (event_mask st) flags i0 j0)]"
proof -
  have i: "i0 = 0 \<or> i0 = 1" using assms(1) by auto
  have j: "j0 = 0 \<or> j0 = 1 \<or> j0 = 2" using assms(2) by auto
  have a: "\<And>i j. i < 2 \<Longrightarrow> j < 3 \<Longrightarrow>
     expected_event st flags i j = (if i = i0 \<and> j = j0
        then [Iio_push_event i0 (event_dir (event_mask st) flags i0 j0)] else [])"
    using assms(3) by (auto simp: expected_event_def)
  have "expected_events st flags =
     expected_event st flags 0 0 @ expected_event st flags 0 1 @ expected_event st flags 0 2
     @ expected_event st flags 1 0 @ expected_event st flags 1 1 @ expected_event st flags 1 2"
    by (simp add: expected_events_def upt2 upt3 IQS7219_NUM_CHAN_def)
  also have "\<dots> = [Iio_push_event i0 (event_dir (event_mask st) flags i0 j0)]"
    using i j by (auto simp: a)
  finally show ?thesis .
qed

text \<open>C3: when a status read reaches the decoder (the burst read succeeded and none of
  the reset, ATI-error and ATI-active flags is set), the cached flags become the flags
  just read, whether or not any event is enabled; a following read with the same flags
  dispatches nothing; a read whose flags equal the cache dispatches nothing; and when
  exactly one configured event of an enabled channel has a changed masked bit, exactly
  that event is dispatched, rising if its new bit is set and falling otherwise.\<close>

theorem iqs7219_event_debounce:
  assumes rd: "iqs7219_read_burst K IQS7219_SYS_STATUS (replicate (IQS7219_NUM_COLS_STAT * 2) 0)
                 IQS7219_NUM_COLS_STAT w = ((0, bytes), w1)"
    and quiet: "iqs7219_status_quiet (le16_words bytes ! 0)"
    and rs: "iqs7219_report_sync K st sid ci val w = (r, st', w')"
    and rd2: "iqs7219_read_burst K IQS7219_SYS_STATUS (replicate (IQS7219_NUM_COLS_STAT * 2) 0)
                 IQS7219_NUM_COLS_STAT w' = ((0, bytes2), w2)"
    and quiet2: "iqs7219_status_quiet (le16_words bytes2 ! 0)"
    and same2: "le16_words bytes2 ! 1 = le16_words bytes ! 1"
    and rs2: "iqs7219_report_sync K st' sid2 ci2 val2 w' = (r2, st'', w'')"
  shows "pxs_flags st' = le16_words bytes ! 1
     \<and> pushed_events (trace w'') = pushed_events (trace w2)
     \<and> (le16_words bytes ! 1 = pxs_flags st \<longrightarrow> pushed_events (trace w') = pushed_events (trace w1))
     \<and> (\<forall>i0<2. \<forall>j0<3.
          (\<forall>i<2. \<forall>j<3. (event_changed (event_mask st) (pxs_flags st) (le16_words bytes ! 1) i j
                            \<and> event_enable st ! i) = (i = i0 \<and> j = j0))
          \<longrightarrow> pushed_events (trace w') = pushed_events (trace w1)
                @ [Iio_push_event i0 (if le16_words bytes ! 1 AND event_bit (event_mask st) i0 j0 \<noteq> 0
                                      then IIO_EV_DIR_RISING else IIO_EV_DIR_FALLING)])"
proof -
  note A = report_sync_decode [OF rd quiet rs]
  note B = report_sync_decode [OF rd2 quiet2 rs2]
  have 1: "pxs_flags st' = le16_words bytes ! 1" using A by simp
  have 2: "pushed_events (trace w'') = pushed_events (trace w2)"
    using B 1 same2 expected_events_same [of st'] by simp
  have 3: "le16_words bytes ! 1 = pxs_flags st \<longrightarrow> pushed_events (trace w') = pushed_events (trace w1)"
    using A expected_events_same [of st] by auto
  have 4: "\<forall>i0<2. \<forall>j0<3.
          (\<forall>i<2. \<forall>j<3. (event_changed (event_mask st) (pxs_flags st) (le16_words bytes ! 1) i j
                            \<and> event_enable st ! i) = (i = i0 \<and> j = j0))
          \<longrightarrow> pushed_events (trace w') = pushed_events (trace w1)
                @ [Iio_push_event i0 (if le16_words bytes ! 1 AND event_bit (event_mask st) i0 j0 \<noteq> 0
                                      then IIO_EV_DIR_RISING else IIO_EV_DIR_FALLING)]"
    using A expected_events_one [of _ _ st "le16_words bytes ! 1"]
    by (auto simp: event_dir_def)
  from 1 2 3 4 show ?thesis by blast
qed

definition status_block0 :: "u8 list" where
  "status_block0 = le16_buf [0, 1, 0, 0, 0, 0, 0, 0, 0, 0, 0, 0]"

lemma all_less_2: "(\<forall>i<2. P i) = (P (0::nat) \<and> P 1)"
proof -
  have "\<And>i::nat. i < 2 \<longleftrightarrow> i = 0 \<or> i = 1" by arith
  then show ?thesis by auto
qed

lemma all_less_3: "(\<forall>i<3. P i) = (P (0::nat) \<and> P 1 \<and> P 2)"
proof -
  have "\<And>i::nat. i < 3 \<longleftrightarrow> i = 0 \<or> i = 1 \<or> i = 2" by arith
  then show ?thesis by auto
qed

theorem iqs7219_event_debounce_witness:
  "pxs_flags (fst (snd (iqs7219_report_sync (ready_kernel status_block0) iqs7219_idle (-1) (-1) False world0))) = 1
   \<and> pushed_events (trace (snd (snd (iqs7219_report_sync (ready_kernel status_block0) iqs7219_idle (-1) (-1) False world0))))
       = [Iio_push_event 0 IIO_EV_DIR_RISING]
   \<and> pushed_events (trace (snd (snd (iqs7219_report_sync (ready_kernel status_block0)
         (fst (snd (iqs7219_report_sync (ready_kernel status_block0) iqs7219_idle (-1) (-1) False world0)))
         (-1) (-1) False
         (snd (snd (iqs7219_report_sync (ready_kernel status_block0) iqs7219_idle (-1) (-1) False world0)))))))
       = [Iio_push_event 0 IIO_EV_DIR_RISING]"
proof -
  let ?K = "ready_kernel status_block0"
  let ?rd = "\<lambda>w. iqs7219_read_burst ?K IQS7219_SYS_STATUS (replicate (IQS7219_NUM_COLS_STAT * 2) 0)
                 IQS7219_NUM_COLS_STAT w"
  let ?r1 = "iqs7219_report_sync ?K iqs7219_idle (-1) (-1) False world0"
  let ?r2 = "iqs7219_report_sync ?K (fst (snd ?r1)) (-1) (-1) False (snd (snd ?r1))"
  have rd: "?rd world0 = ((0, snd (fst (?rd world0))), snd (?rd world0))"
    by code_simp
  have quiet: "iqs7219_status_quiet (le16_words (snd (fst (?rd world0))) ! 0)"
    by code_simp
  have rs: "?r1 = (fst ?r1, fst (snd ?r1), snd (snd ?r1))"
    by simp
  have rd2: "?rd (snd (snd ?r1)) = ((0, snd (fst (?rd (snd (snd ?r1))))), snd (?rd (snd (snd ?r1))))"
    by code_simp
  have quiet2: "iqs7219_status_quiet (le16_words (snd (fst (?rd (snd (snd ?r1))))) ! 0)"
    by code_simp
  have same2: "le16_words (snd (fst (?rd (snd (snd ?r1))))) ! 1 = le16_words (snd (fst (?rd world0))) ! 1"
    by code_simp
  have rs2: "?r2 = (fst ?r2, fst (snd ?r2), snd (snd ?r2))"
    by simp
  note T = iqs7219_event_debounce [OF rd quiet rs rd2 quiet2 same2 rs2]
  have f: "le16_words (snd (fst (?rd world0))) ! 1 = 1" by code_simp
  have p1: "pushed_events (trace (snd (?rd world0))) = []" by code_simp
  have p2: "pushed_events (trace (snd (?rd (snd (snd ?r1))))) = [Iio_push_event 0 IIO_EV_DIR_RISING]"
    by code_simp
  have only: "\<forall>i<2. \<forall>j<3. (event_changed (event_mask iqs7219_idle) (pxs_flags iqs7219_idle)
                  (le16_words (snd (fst (?rd world0))) ! 1) i j \<and> event_enable iqs7219_idle ! i)
                = (i = 0 \<and> j = 0)"
    unfolding f all_less_2 all_less_3 by code_simp
  have d: "(1::u16) AND event_bit (event_mask iqs7219_idle) 0 0 \<noteq> 0" by code_simp
  from T have c1: "pxs_flags (fst (snd ?r1)) = 1" using f by simp
  from T have c3: "pushed_events (trace (snd (snd ?r2))) = [Iio_push_event 0 IIO_EV_DIR_RISING]"
    using p2 by simp
  have z: "(0::nat) < 2" "(0::nat) < 3" by simp_all
  from T only z have "pushed_events (trace (snd (snd ?r1))) = pushed_events (trace (snd (?rd world0)))
      @ [Iio_push_event 0 (if le16_words (snd (fst (?rd world0))) ! 1
                                AND event_bit (event_mask iqs7219_idle) 0 0 \<noteq> 0
                           then IIO_EV_DIR_RISING else IIO_EV_DIR_FALLING)]"
    by blast
  then have c2: "pushed_events (trace (snd (snd ?r1))) = [Iio_push_event 0 IIO_EV_DIR_RISING]"
    using p1 d f by simp
  from c1 c2 c3 show ?thesis by blast
qed

section \<open>Properties of the burst read\<close>

lemma gpiod_get_value_xfers:
  "gpiod_get_value_cansleep K w = (r, w') \<Longrightarrow> xfers w' = xfers w"
  by (auto simp: gpiod_get_value_cansleep_def)

lemma iqs7219_irq_poll_until_xfers:
  "xfers (snd (iqs7219_irq_poll_until K t w)) = xfers w"
proof (induction K t w rule: iqs7219_irq_poll_until.induct)
  case (1 K t w)
  obtain ret w' where g: "gpiod_get_value_cansleep K (usleep_range 1000 w) = (ret, w')"
    by (cases "gpiod_get_value_cansleep K (usleep_range 1000 w)")
  then have n: "xfers w' = xfers w"
    by (auto simp: gpiod_get_value_cansleep_def usleep_range_def)
  show ?case
  proof (cases "\<not> ret < 0 \<and> \<not> ret > 0 \<and> now w' < t")
    case True
    with 1 [OF g [symmetric]] g n show ?thesis
      by (subst iqs7219_irq_poll_until.simps) simp
  next
    case False
    with g n show ?thesis
      by (subst iqs7219_irq_poll_until.simps) auto
  qed
qed

lemma iqs7219_irq_poll_xfers:
  "iqs7219_irq_poll K t w = (r, w') \<Longrightarrow> xfers w' = xfers w"
  using iqs7219_irq_poll_until_xfers [of K "now w + 1000 * t" w]
  by (simp add: iqs7219_irq_poll_def)

lemma iqs7219_force_comms_xfers:
  "iqs7219_force_comms K w = (r, w') \<Longrightarrow> xfers w' = xfers w"
  by (auto simp: iqs7219_force_comms_def gpiod_get_value_cansleep_def i2c_master_send_def
        msleep_def split: prod.splits if_splits dest!: iqs7219_irq_poll_xfers)

lemma iqs7219_force_comms_ready:
  "0 < gpio_value K (gpio_reads w) \<Longrightarrow>
     iqs7219_force_comms K w = (0, w\<lparr>gpio_reads := Suc (gpio_reads w)\<rparr>)"
  by (simp add: iqs7219_force_comms_def gpiod_get_value_cansleep_def)

text \<open>The bytes the \<open>n\<close>-th bus read delivers into a buffer of \<open>len\<close> bytes, and whether
  that read is one the retry loop accepts: the transfer completed both messages and the
  first word is not the sentinel.\<close>

definition xfer_bytes :: "kernel \<Rightarrow> nat \<Rightarrow> nat \<Rightarrow> u8 list" where
  "xfer_bytes K len n = take len (i2c_xfer_data K n @ replicate len 0)"

definition xfer_good :: "kernel \<Rightarrow> nat \<Rightarrow> nat \<Rightarrow> bool" where
  "xfer_good K len n \<longleftrightarrow> 2 \<le> i2c_xfer_ret K n \<and> get_unaligned_le16 (xfer_bytes K len n) \<noteq> 0xEEEE"

lemma iqs7219_read_attempts_bound:
  "iqs7219_read_attempts n K reg nv rb w = ((r, b), w') \<Longrightarrow>
     xfers w' \<le> xfers w + n
     \<and> (0 < n \<longrightarrow> r \<le> 0)
     \<and> (0 < n \<and> r = 0 \<longrightarrow> get_unaligned_le16 b \<noteq> IQS7219_COMMS_ERROR
           \<and> xfers w < xfers w' \<and> b = xfer_bytes K (nv * 2) (xfers w' - 1) \<and> xfer_good K (nv * 2) (xfers w' - 1))"
proof (induction n arbitrary: rb w)
  case 0
  then show ?case by simp
next
  case (Suc n)
  obtain ret0 buf where rb: "rb = (ret0, buf)" by (cases rb)
  obtain ret w1 where fc: "iqs7219_force_comms K w = (ret, w1)"
    by (cases "iqs7219_force_comms K w")
  note x1 = iqs7219_force_comms_xfers [OF fc]
  show ?case
  proof (cases "ret < 0")
    case True
    with Suc.prems rb fc have "iqs7219_read_attempts n K reg nv (ret, buf) w1 = ((r, b), w')"
      by simp
    from Suc.IH [OF this] x1 True Suc.prems rb fc show ?thesis
      by (cases n) auto
  next
    case False
    let ?r2 = "i2c_xfer_ret K (xfers w1)"
    let ?b2 = "xfer_bytes K (nv * 2) (xfers w1)"
    let ?w2 = "w1\<lparr>xfers := Suc (xfers w1), trace := trace w1 @ [I2c_read [reg] (nv * 2)]\<rparr>"
    have tr: "i2c_transfer K [reg] (nv * 2) w1 = ((?r2, ?b2), ?w2)"
      by (simp add: i2c_transfer_def xfer_bytes_def)
    show ?thesis
    proof (cases "?r2 < 2")
      case True
      with Suc.prems rb fc tr False
      have "iqs7219_read_attempts n K reg nv ((if ?r2 \<ge> 0 then - EIO else ?r2), ?b2)
              (msleep IQS7219_COMMS_RETRY_MS ?w2) = ((r, b), w')"
        by simp
      from Suc.IH [OF this] x1 True Suc.prems rb fc tr False show ?thesis
        by (cases n) (auto simp: msleep_def EIO_def split: if_splits)
    next
      case r2: False
      show ?thesis
      proof (cases "get_unaligned_le16 ?b2 = IQS7219_COMMS_ERROR")
        case True
        with Suc.prems rb fc tr False r2
        have "iqs7219_read_attempts n K reg nv (- ENODATA, ?b2) ?w2 = ((r, b), w')"
          by simp
        from Suc.IH [OF this] x1 True Suc.prems rb fc tr False r2 show ?thesis
          by (cases n) (auto simp: ENODATA_def)
      next
        case ok: False
        with Suc.prems rb fc tr False r2 have "r = 0" "b = ?b2" "w' = ?w2" by simp_all
        with x1 ok r2 show ?thesis
          by (simp add: xfer_good_def IQS7219_COMMS_ERROR_def)
      qed
    qed
  qed
qed

lemma first_good:
  assumes "\<exists>k<n. P (k::nat)"
  shows "\<exists>k<n. P k \<and> (\<forall>j<k. \<not> P j)"
proof -
  from assms obtain k where k: "k < n" "P k" by blast
  define m where "m = (LEAST i. P i)"
  have "P m" unfolding m_def using k(2) by (rule LeastI)
  moreover have "m \<le> k" unfolding m_def using k(2) by (rule Least_le)
  moreover have "\<forall>j<m. \<not> P j" unfolding m_def using not_less_Least by blast
  ultimately have "m < n \<and> P m \<and> (\<forall>j<m. \<not> P j)" using k(1) by simp
  then show ?thesis by blast
qed

lemma iqs9150_force_comms_xfers:
  "iqs9150_force_comms K cm w = (r, w') \<Longrightarrow> xfers w' = xfers w"
  by (auto simp: iqs9150_force_comms_def iqs9150_irq_poll_def readx_poll_timeout_def Let_def
        gpiod_get_value_cansleep_def i2c_master_send_def msleep_def iqs9150_irq_wait_def
        usleep_range_def split: prod.splits if_splits iqs9150_comms_mode.splits)

lemma iqs9150_read_attempts_bound:
  "iqs9150_read_attempts n K cm reg len rb w = ((r, b), w') \<Longrightarrow>
     xfers w' \<le> xfers w + n
     \<and> (0 < n \<longrightarrow> r \<le> 0)
     \<and> (0 < n \<and> r = 0 \<longrightarrow> get_unaligned_le16 b \<noteq> IQS9150_COMMS_ERROR
           \<and> xfers w < xfers w' \<and> b = xfer_bytes K len (xfers w' - 1) \<and> xfer_good K len (xfers w' - 1))"
proof (induction n arbitrary: rb w)
  case 0
  then show ?case by simp
next
  case (Suc n)
  obtain ret0 buf where rb: "rb = (ret0, buf)" by (cases rb)
  obtain ret w1 where fc: "iqs9150_force_comms K cm w = (ret, w1)"
    by (cases "iqs9150_force_comms K cm w")
  note x1 = iqs9150_force_comms_xfers [OF fc]
  show ?case
  proof (cases "ret < 0")
    case True
    with Suc.prems rb fc have "iqs9150_read_attempts n K cm reg len (ret, buf) w1 = ((r, b), w')"
      by simp
    from Suc.IH [OF this] x1 True Suc.prems rb fc show ?thesis
      by (cases n) auto
  next
    case False
    let ?r2 = "i2c_xfer_ret K (xfers w1)"
    let ?b2 = "xfer_bytes K len (xfers w1)"
    let ?w2 = "w1\<lparr>xfers := Suc (xfers w1), trace := trace w1 @ [I2c_read (le16_bytes reg) len]\<rparr>"
    have tr: "i2c_transfer K (le16_bytes reg) len w1 = ((?r2, ?b2), ?w2)"
      by (simp add: i2c_transfer_def xfer_bytes_def)
    show ?thesis
    proof (cases "?r2 < 2")
      case True
      with Suc.prems rb fc tr False
      have "iqs9150_read_attempts n K cm reg len ((if ?r2 \<ge> 0 then - EIO else ?r2), ?b2)
              (msleep IQS9150_COMMS_RETRY_MS ?w2) = ((r, b), w')"
        by simp
      from Suc.IH [OF this] x1 True Suc.prems rb fc tr False show ?thesis
        by (cases n) (auto simp: msleep_def EIO_def split: if_splits)
    next
      case r2: False
      show ?thesis
      proof (cases "get_unaligned_le16 ?b2 = IQS9150_COMMS_ERROR")
        case True
        with Suc.prems rb fc tr False r2
        have "iqs9150_read_attempts n K cm reg len (- ENODATA, ?b2) ?w2 = ((r, b), w')"
          by simp
        from Suc.IH [OF this] x1 True Suc.prems rb fc tr False r2 show ?thesis
          by (cases n) (auto simp: ENODATA_def)
      next
        case ok: False
        with Suc.prems rb fc tr False r2 have "r = 0" "b = ?b2" "w' = ?w2" by simp_all
        with x1 ok r2 show ?thesis
          by (simp add: xfer_good_def IQS9150_COMMS_ERROR_def)
      qed
    qed
  qed
qed

text \<open>One attempt of a burst read, in the words of the specification: communication is
  forced and, unless that failed, one bus transaction is made. The result is the return
  code the attempt leaves, zero for an attempt that succeeded, the bytes it read if it
  got as far as the transaction, and the world after it.\<close>

definition iqs7219_read_attempt ::
  "kernel \<Rightarrow> u8 \<Rightarrow> nat \<Rightarrow> world \<Rightarrow> (int \<times> u8 list option) \<times> world" where
  "iqs7219_read_attempt K reg num_val w =
     (case iqs7219_force_comms K w of (ret, w1) \<Rightarrow>
        if ret < 0 then ((ret, None), w1)
        else (case i2c_transfer K [reg] (num_val * 2) w1 of ((ret, buf), w2) \<Rightarrow>
          if ret < 2 then
            (((if ret \<ge> 0 then - EIO else ret), Some buf), msleep IQS7219_COMMS_RETRY_MS w2)
          else if get_unaligned_le16 buf = IQS7219_COMMS_ERROR then ((- ENODATA, Some buf), w2)
          else ((0, Some buf), w2)))"

definition iqs9150_read_attempt ::
  "kernel \<Rightarrow> iqs9150_comms_mode \<Rightarrow> u16 \<Rightarrow> nat \<Rightarrow> world \<Rightarrow> (int \<times> u8 list option) \<times> world" where
  "iqs9150_read_attempt K cm reg val_len w =
     (case iqs9150_force_comms K cm w of (ret, w1) \<Rightarrow>
        if ret < 0 then ((ret, None), w1)
        else (case i2c_transfer K (le16_bytes reg) val_len w1 of ((ret, buf), w2) \<Rightarrow>
          if ret < 2 then
            (((if ret \<ge> 0 then - EIO else ret), Some buf), msleep IQS9150_COMMS_RETRY_MS w2)
          else if get_unaligned_le16 buf = IQS9150_COMMS_ERROR then ((- ENODATA, Some buf), w2)
          else ((0, Some buf), w2)))"

text \<open>The world in which attempt \<open>k\<close> of a retry loop starts, the attempts before it having
  failed, and whether that attempt succeeds.\<close>

fun attempt_world :: "(world \<Rightarrow> 'r \<times> world) \<Rightarrow> nat \<Rightarrow> world \<Rightarrow> world" where
  "attempt_world att 0 w = w"
| "attempt_world att (Suc k) w = attempt_world att k (snd (att w))"

definition attempt_good :: "(world \<Rightarrow> (int \<times> 'b) \<times> world) \<Rightarrow> nat \<Rightarrow> world \<Rightarrow> bool" where
  "attempt_good att k w \<longleftrightarrow> fst (fst (att (attempt_world att k w))) = 0"

lemma attempt_good_Suc: "attempt_good att (Suc k) w = attempt_good att k (snd (att w))"
  by (simp add: attempt_good_def)

lemma attempt_good_0: "attempt_good att 0 w \<longleftrightarrow> fst (fst (att w)) = 0"
  by (simp add: attempt_good_def)

lemma attempt_world_Suc_end:
  "attempt_world att (Suc k) w = snd (att (attempt_world att k w))"
  by (induction k arbitrary: w) simp_all

text \<open>A loop that makes up to \<open>n\<close> attempts and returns at the first that succeeds.\<close>

lemma retry_first_good:
  fixes f :: "nat \<Rightarrow> int \<times> 'b \<Rightarrow> world \<Rightarrow> (int \<times> 'b) \<times> world"
    and att :: "world \<Rightarrow> (int \<times> 'b option) \<times> world"
  assumes fS: "\<And>n r0 buf w. f (Suc n) (r0, buf) w =
      (case att w of ((r, b), w') \<Rightarrow>
         if r = 0 then ((0, the b), w')
         else f n (r, (case b of None \<Rightarrow> buf | Some b' \<Rightarrow> b')) w')"
  shows "k < n \<Longrightarrow> attempt_good att k w \<Longrightarrow> \<forall>j<k. \<not> attempt_good att j w \<Longrightarrow>
     f n rb w = ((0, the (snd (fst (att (attempt_world att k w))))),
                 snd (att (attempt_world att k w)))"
proof (induction n arbitrary: k w rb)
  case 0
  then show ?case by simp
next
  case (Suc n)
  obtain r0 buf where rb: "rb = (r0, buf)" by (cases rb)
  obtain r b w' where a: "att w = ((r, b), w')" by (cases "att w") auto
  show ?case
  proof (cases k)
    case 0
    with Suc.prems(2) a have "r = 0" by (simp add: attempt_good_0)
    with a 0 show ?thesis by (simp add: rb fS)
  next
    case (Suc k')
    with Suc.prems(3) have "\<not> attempt_good att 0 w" by blast
    with a have r: "r \<noteq> 0" by (simp add: attempt_good_0)
    have 1: "k' < n" using Suc Suc.prems(1) by simp
    have 2: "attempt_good att k' w'" using Suc.prems(2) Suc a by (simp add: attempt_good_Suc)
    have 3: "\<forall>j<k'. \<not> attempt_good att j w'"
    proof (intro allI impI)
      fix j assume "j < k'"
      then have "Suc j < k" using Suc by simp
      with Suc.prems(3) have "\<not> attempt_good att (Suc j) w" by blast
      then show "\<not> attempt_good att j w'" using a by (simp add: attempt_good_Suc)
    qed
    from Suc.IH [OF 1 2 3] a r Suc show ?thesis by (simp add: rb fS)
  qed
qed

lemma retry_none_good:
  fixes f :: "nat \<Rightarrow> int \<times> 'b \<Rightarrow> world \<Rightarrow> (int \<times> 'b) \<times> world"
    and att :: "world \<Rightarrow> (int \<times> 'b option) \<times> world"
  assumes f0: "\<And>rb w. f 0 rb w = (rb, w)"
    and fS: "\<And>n r0 buf w. f (Suc n) (r0, buf) w =
      (case att w of ((r, b), w') \<Rightarrow>
         if r = 0 then ((0, the b), w')
         else f n (r, (case b of None \<Rightarrow> buf | Some b' \<Rightarrow> b')) w')"
  shows "\<forall>k<Suc n. \<not> attempt_good att k w \<Longrightarrow>
     fst (fst (f (Suc n) rb w)) = fst (fst (att (attempt_world att n w)))
     \<and> snd (f (Suc n) rb w) = attempt_world att (Suc n) w"
proof (induction n arbitrary: w rb)
  case 0
  obtain r0 buf where rb: "rb = (r0, buf)" by (cases rb)
  obtain r b w' where a: "att w = ((r, b), w')" by (cases "att w") auto
  from 0 a have "r \<noteq> 0" by (simp add: attempt_good_0)
  with a show ?case by (simp add: rb fS f0)
next
  case (Suc n)
  obtain r0 buf where rb: "rb = (r0, buf)" by (cases rb)
  obtain r b w' where a: "att w = ((r, b), w')" by (cases "att w") auto
  from Suc.prems have "\<not> attempt_good att 0 w" by blast
  with a have r: "r \<noteq> 0" by (simp add: attempt_good_0)
  have "\<forall>k<Suc n. \<not> attempt_good att k w'"
  proof (intro allI impI)
    fix k assume "k < Suc n"
    then have "Suc k < Suc (Suc n)" by simp
    with Suc.prems have "\<not> attempt_good att (Suc k) w" by blast
    then show "\<not> attempt_good att k w'" using a by (simp add: attempt_good_Suc)
  qed
  from Suc.IH [OF this, of "(r, (case b of None \<Rightarrow> buf | Some b' \<Rightarrow> b'))"] a r
  show ?case by (simp add: rb fS [of "Suc n"])
qed

lemma iqs7219_read_attempts_unfold:
  "iqs7219_read_attempts (Suc n) K reg nv (r0, buf) w =
      (case iqs7219_read_attempt K reg nv w of ((r, b), w') \<Rightarrow>
         if r = 0 then ((0, the b), w')
         else iqs7219_read_attempts n K reg nv (r, (case b of None \<Rightarrow> buf | Some b' \<Rightarrow> b')) w')"
  by (auto simp: iqs7219_read_attempt_def errno_defs split: prod.splits)

lemma iqs9150_read_attempts_unfold:
  "iqs9150_read_attempts (Suc n) K cm reg len (r0, buf) w =
      (case iqs9150_read_attempt K cm reg len w of ((r, b), w') \<Rightarrow>
         if r = 0 then ((0, the b), w')
         else iqs9150_read_attempts n K cm reg len (r, (case b of None \<Rightarrow> buf | Some b' \<Rightarrow> b')) w')"
  by (auto simp: iqs9150_read_attempt_def errno_defs split: prod.splits)

text \<open>An attempt leaves zero or a negative error. It succeeds if and only if forcing
  communication did not fail, the transaction went through and its first word is not
  the sentinel; it makes one bus transaction, or none if forcing communication failed.\<close>

lemma iqs7219_read_attempt_good:
  "fst (fst (iqs7219_read_attempt K reg nv w)) \<le> 0
   \<and> (fst (fst (iqs7219_read_attempt K reg nv w)) = 0 \<longleftrightarrow>
        0 \<le> fst (iqs7219_force_comms K w) \<and> xfer_good K (nv * 2) (xfers w))
   \<and> xfers (snd (iqs7219_read_attempt K reg nv w))
        = (if fst (iqs7219_force_comms K w) < 0 then xfers w else Suc (xfers w))
   \<and> (fst (fst (iqs7219_read_attempt K reg nv w)) = 0 \<longrightarrow>
        snd (fst (iqs7219_read_attempt K reg nv w)) = Some (xfer_bytes K (nv * 2) (xfers w)))"
proof -
  obtain r1 w1 where fc: "iqs7219_force_comms K w = (r1, w1)"
    by (cases "iqs7219_force_comms K w")
  note x = iqs7219_force_comms_xfers [OF fc]
  show ?thesis
    using x
    by (auto simp: iqs7219_read_attempt_def fc i2c_transfer_def xfer_good_def xfer_bytes_def
          msleep_def IQS7219_COMMS_ERROR_def errno_defs)
qed

lemma iqs9150_read_attempt_good:
  "fst (fst (iqs9150_read_attempt K cm reg len w)) \<le> 0
   \<and> (fst (fst (iqs9150_read_attempt K cm reg len w)) = 0 \<longleftrightarrow>
        0 \<le> fst (iqs9150_force_comms K cm w) \<and> xfer_good K len (xfers w))
   \<and> xfers (snd (iqs9150_read_attempt K cm reg len w))
        = (if fst (iqs9150_force_comms K cm w) < 0 then xfers w else Suc (xfers w))
   \<and> (fst (fst (iqs9150_read_attempt K cm reg len w)) = 0 \<longrightarrow>
        snd (fst (iqs9150_read_attempt K cm reg len w)) = Some (xfer_bytes K len (xfers w)))"
proof -
  obtain r1 w1 where fc: "iqs9150_force_comms K cm w = (r1, w1)"
    by (cases "iqs9150_force_comms K cm w")
  note x = iqs9150_force_comms_xfers [OF fc]
  show ?thesis
    using x
    by (auto simp: iqs9150_read_attempt_def fc i2c_transfer_def xfer_good_def xfer_bytes_def
          msleep_def IQS9150_COMMS_ERROR_def errno_defs)
qed

text \<open>What a retry loop of \<open>n\<close> attempts promises, whatever happens on the bus: the
  result is zero or a negative error; it is zero if and only if one of the \<open>n\<close> attempts
  succeeds; the loop ends with the first attempt that succeeds and returns the bytes
  that attempt read; and if none of them succeeds it ends after the \<open>n\<close>-th with that
  attempt's negative error. \<open>fin\<close> is the delay that follows the loop.\<close>

definition retry_outcome ::
  "nat \<Rightarrow> (world \<Rightarrow> (int \<times> u8 list option) \<times> world) \<Rightarrow> (world \<Rightarrow> world) \<Rightarrow> world
     \<Rightarrow> (int \<times> u8 list) \<times> world \<Rightarrow> bool" where
  "retry_outcome n att fin w res \<longleftrightarrow>
     fst (fst res) \<le> 0
     \<and> (fst (fst res) = 0 \<longleftrightarrow> (\<exists>k<n. attempt_good att k w))
     \<and> (\<forall>k<n. attempt_good att k w \<and> (\<forall>j<k. \<not> attempt_good att j w) \<longrightarrow>
           res = ((0, the (snd (fst (att (attempt_world att k w))))),
                  fin (snd (att (attempt_world att k w)))))
     \<and> ((\<forall>k<n. \<not> attempt_good att k w) \<longrightarrow>
           fst (fst res) = fst (fst (att (attempt_world att (n - 1) w))) \<and> fst (fst res) < 0
           \<and> snd res = fin (attempt_world att n w))"

lemma retry_outcome_loop:
  fixes f :: "nat \<Rightarrow> int \<times> u8 list \<Rightarrow> world \<Rightarrow> (int \<times> u8 list) \<times> world"
  assumes f0: "\<And>rb w. f 0 rb w = (rb, w)"
    and fS: "\<And>n r0 buf w. f (Suc n) (r0, buf) w =
      (case att w of ((r, b), w') \<Rightarrow>
         if r = 0 then ((0, the b), w')
         else f n (r, (case b of None \<Rightarrow> buf | Some b' \<Rightarrow> b')) w')"
    and neg: "\<And>w. fst (fst (att w)) \<le> 0"
  shows "retry_outcome (Suc n) att fin w (fst (f (Suc n) rb w), fin (snd (f (Suc n) rb w)))"
proof -
  let ?res = "f (Suc n) rb w"
  have first: "?res = ((0, the (snd (fst (att (attempt_world att k w))))),
                 snd (att (attempt_world att k w)))"
    if "k < Suc n" "attempt_good att k w" "\<forall>j<k. \<not> attempt_good att j w" for k
    using retry_first_good [of f att, OF fS that] .
  have none: "fst (fst ?res) = fst (fst (att (attempt_world att n w)))
     \<and> snd ?res = attempt_world att (Suc n) w \<and> fst (fst ?res) < 0"
    if h: "\<forall>k<Suc n. \<not> attempt_good att k w"
  proof -
    note a = retry_none_good [of f att, OF f0 fS h, of rb]
    from h have "fst (fst (att (attempt_world att n w))) \<noteq> 0"
      by (auto simp: attempt_good_def)
    with neg [of "attempt_world att n w"] have "fst (fst (att (attempt_world att n w))) < 0"
      by simp
    with a show ?thesis by simp
  qed
  have iff: "fst (fst ?res) = 0 \<longleftrightarrow> (\<exists>k<Suc n. attempt_good att k w)"
  proof
    assume z: "fst (fst ?res) = 0"
    show "\<exists>k<Suc n. attempt_good att k w"
    proof (rule ccontr)
      assume "\<not> (\<exists>k<Suc n. attempt_good att k w)"
      then have "\<forall>k<Suc n. \<not> attempt_good att k w" by blast
      from none [OF this] z show False by simp
    qed
  next
    assume "\<exists>k<Suc n. attempt_good att k w"
    from first_good [OF this] obtain k where
      "k < Suc n" "attempt_good att k w" "\<forall>j<k. \<not> attempt_good att j w" by blast
    from first [OF this] show "fst (fst ?res) = 0" by simp
  qed
  have le: "fst (fst ?res) \<le> 0"
  proof (cases "\<exists>k<Suc n. attempt_good att k w")
    case True
    with iff show ?thesis by simp
  next
    case False
    then have "\<forall>k<Suc n. \<not> attempt_good att k w" by blast
    from none [OF this] show ?thesis by simp
  qed
  show ?thesis
    unfolding retry_outcome_def
  proof (intro conjI allI impI)
    show "fst (fst (fst ?res, fin (snd ?res))) \<le> 0" using le by simp
    show "(fst (fst (fst ?res, fin (snd ?res))) = 0) = (\<exists>k<Suc n. attempt_good att k w)"
      using iff by simp
  next
    fix k assume "k < Suc n" "attempt_good att k w \<and> (\<forall>j<k. \<not> attempt_good att j w)"
    then show "(fst ?res, fin (snd ?res))
        = ((0, the (snd (fst (att (attempt_world att k w))))),
           fin (snd (att (attempt_world att k w))))"
      using first [of k] by simp
  next
    assume h: "\<forall>k<Suc n. \<not> attempt_good att k w"
    from none [OF h]
    show "fst (fst (fst ?res, fin (snd ?res))) = fst (fst (att (attempt_world att (Suc n - 1) w)))"
      "fst (fst (fst ?res, fin (snd ?res))) < 0"
      "snd (fst ?res, fin (snd ?res)) = fin (attempt_world att (Suc n) w)"
      by simp_all
  qed
qed

lemma iqs7219_read_burst_outcome:
  "retry_outcome 5 (iqs7219_read_attempt K reg nv) (usleep_range 50) w
     (iqs7219_read_burst K reg val nv w)"
proof -
  have five: "IQS7219_NUM_RETRIES = Suc 4" "(5::nat) = Suc 4"
    by (simp_all add: IQS7219_NUM_RETRIES_def)
  have neg: "\<And>w. fst (fst (iqs7219_read_attempt K reg nv w)) \<le> 0"
    using iqs7219_read_attempt_good by blast
  from retry_outcome_loop [of "\<lambda>n. iqs7219_read_attempts n K reg nv"
      "iqs7219_read_attempt K reg nv" 4 "usleep_range 50" w "(0, val)",
      OF _ iqs7219_read_attempts_unfold neg]
  show ?thesis
    unfolding iqs7219_read_burst_def five by (simp add: split_beta)
qed

lemma iqs9150_read_burst_outcome:
  "retry_outcome 5 (iqs9150_read_attempt K cm reg len) iqs9150_irq_wait w
     (iqs9150_read_burst_raw K cm reg val len w)"
proof -
  have five: "IQS9150_NUM_RETRIES = Suc 4" "(5::nat) = Suc 4"
    by (simp_all add: IQS9150_NUM_RETRIES_def)
  have neg: "\<And>w. fst (fst (iqs9150_read_attempt K cm reg len w)) \<le> 0"
    using iqs9150_read_attempt_good by blast
  from retry_outcome_loop [of "\<lambda>n. iqs9150_read_attempts n K cm reg len"
      "iqs9150_read_attempt K cm reg len" 4 iqs9150_irq_wait w "(0, val)",
      OF _ iqs9150_read_attempts_unfold neg]
  show ?thesis
    unfolding iqs9150_read_burst_raw_def five by (simp add: split_beta)
qed

lemma iqs7219_read_burst_bound:
  "xfers (snd (iqs7219_read_burst K reg val nv w)) \<le> xfers w + 5
   \<and> (fst (fst (iqs7219_read_burst K reg val nv w)) = 0 \<longrightarrow>
        get_unaligned_le16 (snd (fst (iqs7219_read_burst K reg val nv w))) \<noteq> 0xEEEE)"
proof -
  obtain r b w1 where ra: "iqs7219_read_attempts 5 K reg nv (0, val) w = ((r, b), w1)"
    by (cases "iqs7219_read_attempts 5 K reg nv (0, val) w") auto
  from iqs7219_read_attempts_bound [OF ra] ra show ?thesis
    by (auto simp: iqs7219_read_burst_def IQS7219_NUM_RETRIES_def usleep_range_def
          IQS7219_COMMS_ERROR_def)
qed

lemma iqs9150_read_burst_bound:
  "xfers (snd (iqs9150_read_burst_raw K cm reg val len w)) \<le> xfers w + 5
   \<and> (fst (fst (iqs9150_read_burst_raw K cm reg val len w)) = 0 \<longrightarrow>
        get_unaligned_le16 (snd (fst (iqs9150_read_burst_raw K cm reg val len w))) \<noteq> 0xEEEE)"
proof -
  obtain r b w1 where ra: "iqs9150_read_attempts 5 K cm reg len (0, val) w = ((r, b), w1)"
    by (cases "iqs9150_read_attempts 5 K cm reg len (0, val) w") auto
  from iqs9150_read_attempts_bound [OF ra] ra show ?thesis
    by (auto simp: iqs9150_read_burst_raw_def IQS9150_NUM_RETRIES_def iqs9150_irq_wait_def
          usleep_range_def IQS9150_COMMS_ERROR_def)
qed

definition flaky_kernel :: "nat \<Rightarrow> kernel" where
  "flaky_kernel n = \<lparr>gpio_value = (\<lambda>m. 1), i2c_send_ret = (\<lambda>m. 3),
     i2c_xfer_ret = (\<lambda>m. if m < n then 0 else 2), i2c_xfer_data = (\<lambda>m. [1, 0]),
     poll_value = (\<lambda>m. 1)\<rparr>"

lemma flaky_good: "xfer_good (flaky_kernel n) 2 k \<longleftrightarrow> n \<le> k"
  by (simp add: xfer_good_def xfer_bytes_def flaky_kernel_def get_unaligned_le16_def)

text \<open>A kernel whose ready line reads an error the first time it is sampled and is
  asserted from then on, over a bus that always succeeds.\<close>

definition stalled_kernel :: kernel where
  "stalled_kernel = \<lparr>gpio_value = (\<lambda>m. if m = 0 then - 5 else 1), i2c_send_ret = (\<lambda>m. 3),
     i2c_xfer_ret = (\<lambda>m. 2), i2c_xfer_data = (\<lambda>m. [1, 0]), poll_value = (\<lambda>m. 1)\<rparr>"

text \<open>C2. A burst read of either driver makes at most five attempts, each forcing
  communication and then, unless that failed, making one bus transaction; an attempt
  succeeds if and only if forcing communication did not fail, the transaction went
  through and its first word is not the sentinel \<open>0xEEEE\<close>, so that a sentinel read
  counts as a failed attempt and is retried. Whatever happens on the bus, the read
  returns zero if and only if one of the five attempts succeeds; it then ends with the
  first such attempt, the fifth included, and returns the bytes that attempt read, whose
  first word is not the sentinel. If none succeeds it ends after the fifth attempt with
  that attempt's negative error. It never makes more than five bus transactions.\<close>

theorem burst_read_retry:
  "retry_outcome 5 (iqs7219_read_attempt K reg num_val) (usleep_range 50) w
     (iqs7219_read_burst K reg val num_val w)
   \<and> xfers (snd (iqs7219_read_burst K reg val num_val w)) \<le> xfers w + 5
   \<and> (fst (fst (iqs7219_read_burst K reg val num_val w)) = 0 \<longrightarrow>
        get_unaligned_le16 (snd (fst (iqs7219_read_burst K reg val num_val w))) \<noteq> 0xEEEE)
   \<and> fst (fst (iqs7219_read_attempt K reg num_val v)) \<le> 0
   \<and> (fst (fst (iqs7219_read_attempt K reg num_val v)) = 0 \<longleftrightarrow>
        0 \<le> fst (iqs7219_force_comms K v) \<and> xfer_good K (num_val * 2) (xfers v))
   \<and> xfers (snd (iqs7219_read_attempt K reg num_val v))
        = (if fst (iqs7219_force_comms K v) < 0 then xfers v else Suc (xfers v))
   \<and> (fst (fst (iqs7219_read_attempt K reg num_val v)) = 0 \<longrightarrow>
        snd (fst (iqs7219_read_attempt K reg num_val v))
          = Some (xfer_bytes K (num_val * 2) (xfers v)))
   \<and> retry_outcome 5 (iqs9150_read_attempt K' cm reg' val_len) iqs9150_irq_wait w'
       (iqs9150_read_burst_raw K' cm reg' val' val_len w')
   \<and> xfers (snd (iqs9150_read_burst_raw K' cm reg' val' val_len w')) \<le> xfers w' + 5
   \<and> (fst (fst (iqs9150_read_burst_raw K' cm reg' val' val_len w')) = 0 \<longrightarrow>
        get_unaligned_le16 (snd (fst (iqs9150_read_burst_raw K' cm reg' val' val_len w'))) \<noteq> 0xEEEE)
   \<and> fst (fst (iqs9150_read_attempt K' cm reg' val_len v')) \<le> 0
   \<and> (fst (fst (iqs9150_read_attempt K' cm reg' val_len v')) = 0 \<longleftrightarrow>
        0 \<le> fst (iqs9150_force_comms K' cm v') \<and> xfer_good K' val_len (xfers v'))
   \<and> xfers (snd (iqs9150_read_attempt K' cm reg' val_len v'))
        = (if fst (iqs9150_force_comms K' cm v') < 0 then xfers v' else Suc (xfers v'))
   \<and> (fst (fst (iqs9150_read_attempt K' cm reg' val_len v')) = 0 \<longrightarrow>
        snd (fst (iqs9150_read_attempt K' cm reg' val_len v'))
          = Some (xfer_bytes K' val_len (xfers v')))"
  using iqs7219_read_burst_outcome [of K reg num_val w val]
    iqs7219_read_burst_bound [of K reg val num_val w]
    iqs7219_read_attempt_good [of K reg num_val v]
    iqs9150_read_burst_outcome [of K' cm reg' val_len w' val']
    iqs9150_read_burst_bound [of K' cm reg' val' val_len w']
    iqs9150_read_attempt_good [of K' cm reg' val_len v']
  by blast

lemma retry_outcome_first:
  assumes "retry_outcome n att fin w res" "k < n" "attempt_good att k w"
    and "\<forall>j<k. \<not> attempt_good att j w"
  shows "res = ((0, the (snd (fst (att (attempt_world att k w))))),
                fin (snd (att (attempt_world att k w))))"
  using assms unfolding retry_outcome_def by blast

lemma retry_outcome_none:
  assumes "retry_outcome n att fin w res" "\<forall>k<n. \<not> attempt_good att k w"
  shows "fst (fst res) = fst (fst (att (attempt_world att (n - 1) w)))
       \<and> snd res = fin (attempt_world att n w)"
  using assms unfolding retry_outcome_def by blast

text \<open>On a kernel that never fails to force communication every attempt makes its bus
  transaction, and succeeds if and only if that transaction is good.\<close>

lemma iqs7219_attempts_forced:
  assumes "\<And>v. 0 \<le> fst (iqs7219_force_comms K v)"
  shows "xfers (attempt_world (iqs7219_read_attempt K reg nv) k w) = xfers w + k
       \<and> (attempt_good (iqs7219_read_attempt K reg nv) k w \<longleftrightarrow> xfer_good K (nv * 2) (xfers w + k))"
proof (induction k arbitrary: w)
  case 0
  show ?case using iqs7219_read_attempt_good [of K reg nv w] assms [of w]
    by (simp add: attempt_good_0)
next
  case (Suc k)
  have "xfers (snd (iqs7219_read_attempt K reg nv w)) = Suc (xfers w)"
    using iqs7219_read_attempt_good [of K reg nv w] assms [of w] by simp
  with Suc [of "snd (iqs7219_read_attempt K reg nv w)"] show ?case
    by (simp add: attempt_good_Suc)
qed

lemma iqs9150_attempts_forced:
  assumes "\<And>v. 0 \<le> fst (iqs9150_force_comms K cm v)"
  shows "xfers (attempt_world (iqs9150_read_attempt K cm reg len) k w) = xfers w + k
       \<and> (attempt_good (iqs9150_read_attempt K cm reg len) k w \<longleftrightarrow> xfer_good K len (xfers w + k))"
proof (induction k arbitrary: w)
  case 0
  show ?case using iqs9150_read_attempt_good [of K cm reg len w] assms [of w]
    by (simp add: attempt_good_0)
next
  case (Suc k)
  have "xfers (snd (iqs9150_read_attempt K cm reg len w)) = Suc (xfers w)"
    using iqs9150_read_attempt_good [of K cm reg len w] assms [of w] by simp
  with Suc [of "snd (iqs9150_read_attempt K cm reg len w)"] show ?case
    by (simp add: attempt_good_Suc)
qed

lemma ready_7219:
  "0 \<le> fst (iqs7219_force_comms (flaky_kernel n) w)"
  "0 \<le> fst (iqs7219_force_comms (ready_kernel d) w)"
  by (simp_all add: iqs7219_force_comms_ready flaky_kernel_def ready_kernel_def)

lemma ready_9150:
  "0 \<le> fst (iqs9150_force_comms (flaky_kernel n) IQS9150_COMMS_MODE_FORCE w)"
  "0 \<le> fst (iqs9150_force_comms (ready_kernel d) IQS9150_COMMS_MODE_FORCE w)"
  by (simp_all add: iqs9150_force_comms_def gpiod_get_value_cansleep_def flaky_kernel_def
        ready_kernel_def)

lemma sentinel_bad: "\<not> xfer_good (ready_kernel [0xEE, 0xEE]) 2 k"
  by (simp add: xfer_good_def xfer_bytes_def ready_kernel_def get_unaligned_le16_def)

lemma stalled_good: "xfer_good stalled_kernel 2 k"
  by (simp add: xfer_good_def xfer_bytes_def stalled_kernel_def get_unaligned_le16_def)

lemma stalled_7219:
  "iqs7219_force_comms stalled_kernel world0 = (- 5, world0\<lparr>gpio_reads := 1\<rparr>)"
  "iqs7219_read_attempt stalled_kernel reg nv world0 = ((- 5, None), world0\<lparr>gpio_reads := 1\<rparr>)"
  "fst (iqs7219_force_comms stalled_kernel (world0\<lparr>gpio_reads := 1\<rparr>)) = 0"
  by (simp_all add: iqs7219_read_attempt_def iqs7219_force_comms_def gpiod_get_value_cansleep_def
        stalled_kernel_def world0_def)

lemma stalled_9150:
  "iqs9150_force_comms stalled_kernel IQS9150_COMMS_MODE_FORCE world0
     = (- 5, world0\<lparr>gpio_reads := 1\<rparr>)"
  "iqs9150_read_attempt stalled_kernel IQS9150_COMMS_MODE_FORCE reg len world0
     = ((- 5, None), world0\<lparr>gpio_reads := 1\<rparr>)"
  "fst (iqs9150_force_comms stalled_kernel IQS9150_COMMS_MODE_FORCE (world0\<lparr>gpio_reads := 1\<rparr>)) = 0"
  by (simp_all add: iqs9150_read_attempt_def iqs9150_force_comms_def gpiod_get_value_cansleep_def
        stalled_kernel_def world0_def)

lemma sentinel_error:
  "fst (fst (iqs7219_read_attempt (ready_kernel [0xEE, 0xEE]) reg 1 v)) = - ENODATA"
  "fst (fst (iqs9150_read_attempt (ready_kernel [0xEE, 0xEE]) IQS9150_COMMS_MODE_FORCE reg' 2 v))
     = - ENODATA"
  by (simp_all add: iqs7219_read_attempt_def iqs9150_read_attempt_def iqs7219_force_comms_def
        iqs9150_force_comms_def gpiod_get_value_cansleep_def i2c_transfer_def ready_kernel_def
        get_unaligned_le16_def IQS7219_COMMS_ERROR_def IQS9150_COMMS_ERROR_def)

theorem burst_read_retry_witness:
  "fst (fst (iqs7219_read_burst (flaky_kernel 4) 0x10 [0, 0] 1 world0)) = 0
   \<and> xfers (snd (iqs7219_read_burst (flaky_kernel 4) 0x10 [0, 0] 1 world0)) = 5
   \<and> fst (fst (iqs7219_read_burst (ready_kernel [0xEE, 0xEE]) 0x10 [0, 0] 1 world0)) = - ENODATA
   \<and> xfers (snd (iqs7219_read_burst (ready_kernel [0xEE, 0xEE]) 0x10 [0, 0] 1 world0)) = 5
   \<and> fst (iqs7219_force_comms stalled_kernel world0) < 0
   \<and> fst (fst (iqs7219_read_burst stalled_kernel 0x10 [0, 0] 1 world0)) = 0
   \<and> xfers (snd (iqs7219_read_burst stalled_kernel 0x10 [0, 0] 1 world0)) = 1
   \<and> fst (fst (iqs9150_read_burst_raw (flaky_kernel 4) IQS9150_COMMS_MODE_FORCE 0x1018 [0, 0] 2 world0)) = 0
   \<and> xfers (snd (iqs9150_read_burst_raw (flaky_kernel 4) IQS9150_COMMS_MODE_FORCE 0x1018 [0, 0] 2 world0)) = 5
   \<and> fst (fst (iqs9150_read_burst_raw (ready_kernel [0xEE, 0xEE]) IQS9150_COMMS_MODE_FORCE 0x1018
                 [0, 0] 2 world0)) = - ENODATA
   \<and> xfers (snd (iqs9150_read_burst_raw (ready_kernel [0xEE, 0xEE]) IQS9150_COMMS_MODE_FORCE 0x1018
                 [0, 0] 2 world0)) = 5
   \<and> fst (iqs9150_force_comms stalled_kernel IQS9150_COMMS_MODE_FORCE world0) < 0
   \<and> fst (fst (iqs9150_read_burst_raw stalled_kernel IQS9150_COMMS_MODE_FORCE 0x1018 [0, 0] 2 world0)) = 0
   \<and> xfers (snd (iqs9150_read_burst_raw stalled_kernel IQS9150_COMMS_MODE_FORCE 0x1018 [0, 0] 2 world0)) = 1"
proof -
  let ?a = "\<lambda>K. iqs7219_read_attempt K 0x10 (Suc 0)"
  let ?b = "\<lambda>K. iqs9150_read_attempt K IQS9150_COMMS_MODE_FORCE 0x1018 2"
  let ?sentinel = "ready_kernel [0xEE, 0xEE]"
  let ?w1 = "world0\<lparr>gpio_reads := 1\<rparr>"
  have x0: "xfers world0 = 0" "xfers ?w1 = 0" by (simp_all add: world0_def)
  have four: "(4::nat) < 5" and one: "(1::nat) < 5" by simp_all
  note A = burst_read_retry [where K = "flaky_kernel 4" and reg = "0x10" and num_val = "Suc 0"
      and val = "[0, 0]" and w = world0 and v = world0 and K' = "flaky_kernel 4"
      and cm = IQS9150_COMMS_MODE_FORCE and reg' = "0x1018" and val' = "[0, 0]" and val_len = 2
      and w' = world0 and v' = world0]
  note B = burst_read_retry [where K = ?sentinel and reg = "0x10" and num_val = "Suc 0"
      and val = "[0, 0]" and w = world0 and v = world0 and K' = ?sentinel
      and cm = IQS9150_COMMS_MODE_FORCE and reg' = "0x1018" and val' = "[0, 0]" and val_len = 2
      and w' = world0 and v' = world0]
  note C = burst_read_retry [where K = stalled_kernel and reg = "0x10" and num_val = "Suc 0"
      and val = "[0, 0]" and w = world0 and v = ?w1 and K' = stalled_kernel
      and cm = IQS9150_COMMS_MODE_FORCE and reg' = "0x1018" and val' = "[0, 0]" and val_len = 2
      and w' = world0 and v' = ?w1]
  from A have A7: "retry_outcome 5 (?a (flaky_kernel 4)) (usleep_range 50) world0
      (iqs7219_read_burst (flaky_kernel 4) 0x10 [0, 0] (Suc 0) world0)"
    and A9: "retry_outcome 5 (?b (flaky_kernel 4)) iqs9150_irq_wait world0
      (iqs9150_read_burst_raw (flaky_kernel 4) IQS9150_COMMS_MODE_FORCE 0x1018 [0, 0] 2 world0)"
    by blast+
  from B have B7: "retry_outcome 5 (?a ?sentinel) (usleep_range 50) world0
      (iqs7219_read_burst ?sentinel 0x10 [0, 0] (Suc 0) world0)"
    and B9: "retry_outcome 5 (?b ?sentinel) iqs9150_irq_wait world0
      (iqs9150_read_burst_raw ?sentinel IQS9150_COMMS_MODE_FORCE 0x1018 [0, 0] 2 world0)"
    by blast+
  from C have C7: "retry_outcome 5 (?a stalled_kernel) (usleep_range 50) world0
      (iqs7219_read_burst stalled_kernel 0x10 [0, 0] (Suc 0) world0)"
    and C9: "retry_outcome 5 (?b stalled_kernel) iqs9150_irq_wait world0
      (iqs9150_read_burst_raw stalled_kernel IQS9150_COMMS_MODE_FORCE 0x1018 [0, 0] 2 world0)"
    and c7g: "fst (fst (?a stalled_kernel ?w1)) = 0
        \<longleftrightarrow> 0 \<le> fst (iqs7219_force_comms stalled_kernel ?w1) \<and> xfer_good stalled_kernel (Suc 0 * 2) (xfers ?w1)"
    and c7x: "xfers (snd (?a stalled_kernel ?w1))
        = (if fst (iqs7219_force_comms stalled_kernel ?w1) < 0 then xfers ?w1 else Suc (xfers ?w1))"
    and c9g: "fst (fst (?b stalled_kernel ?w1)) = 0
        \<longleftrightarrow> 0 \<le> fst (iqs9150_force_comms stalled_kernel IQS9150_COMMS_MODE_FORCE ?w1)
            \<and> xfer_good stalled_kernel 2 (xfers ?w1)"
    and c9x: "xfers (snd (?b stalled_kernel ?w1))
        = (if fst (iqs9150_force_comms stalled_kernel IQS9150_COMMS_MODE_FORCE ?w1) < 0
           then xfers ?w1 else Suc (xfers ?w1))"
    by blast+
  have F7: "\<And>k. xfers (attempt_world (?a (flaky_kernel 4)) k world0) = k"
    "\<And>k. attempt_good (?a (flaky_kernel 4)) k world0 \<longleftrightarrow> xfer_good (flaky_kernel 4) 2 k"
    using iqs7219_attempts_forced [of "flaky_kernel 4" "0x10" "Suc 0" _ world0, OF ready_7219(1)]
    by (simp_all add: x0)
  have F9: "\<And>k. xfers (attempt_world (?b (flaky_kernel 4)) k world0) = k"
    "\<And>k. attempt_good (?b (flaky_kernel 4)) k world0 \<longleftrightarrow> xfer_good (flaky_kernel 4) 2 k"
    using iqs9150_attempts_forced [of "flaky_kernel 4" IQS9150_COMMS_MODE_FORCE "0x1018" 2 _ world0,
        OF ready_9150(1)]
    by (simp_all add: x0)
  have S7: "\<And>k. xfers (attempt_world (?a ?sentinel) k world0) = k"
    "\<And>k. attempt_good (?a ?sentinel) k world0 \<longleftrightarrow> xfer_good ?sentinel 2 k"
    using iqs7219_attempts_forced [of ?sentinel "0x10" "Suc 0" _ world0, OF ready_7219(2)]
    by (simp_all add: x0)
  have S9: "\<And>k. xfers (attempt_world (?b ?sentinel) k world0) = k"
    "\<And>k. attempt_good (?b ?sentinel) k world0 \<longleftrightarrow> xfer_good ?sentinel 2 k"
    using iqs9150_attempts_forced [of ?sentinel IQS9150_COMMS_MODE_FORCE "0x1018" 2 _ world0,
        OF ready_9150(2)]
    by (simp_all add: x0)
  have last: "snd (att (attempt_world att 4 w)) = attempt_world att 5 w"
    for att :: "world \<Rightarrow> (int \<times> u8 list option) \<times> world" and w
    using attempt_world_Suc_end [of att 4 w] by simp
  have ga: "attempt_good (?a (flaky_kernel 4)) 4 world0"
    "attempt_good (?b (flaky_kernel 4)) 4 world0"
    "\<forall>j<4. \<not> attempt_good (?a (flaky_kernel 4)) j world0"
    "\<forall>j<4. \<not> attempt_good (?b (flaky_kernel 4)) j world0"
    by (simp_all add: F7 F9 flaky_good)
  have nb: "\<forall>k<5. \<not> attempt_good (?a ?sentinel) k world0"
    "\<forall>k<5. \<not> attempt_good (?b ?sentinel) k world0"
    by (simp_all add: S7 S9 sentinel_bad)
  have fc1: "fst (iqs7219_force_comms stalled_kernel (world0\<lparr>gpio_reads := Suc 0\<rparr>)) = 0"
    "fst (iqs9150_force_comms stalled_kernel IQS9150_COMMS_MODE_FORCE
       (world0\<lparr>gpio_reads := Suc 0\<rparr>)) = 0"
    using stalled_7219(3) stalled_9150(3) by simp_all
  have gc: "attempt_good (?a stalled_kernel) 1 world0"
    "attempt_good (?b stalled_kernel) 1 world0"
    "\<forall>j<1. \<not> attempt_good (?a stalled_kernel) j world0"
    "\<forall>j<1. \<not> attempt_good (?b stalled_kernel) j world0"
    using c7g c9g
    by (simp_all add: attempt_good_def stalled_7219 stalled_9150 stalled_good x0 fc1)
  note a7 = retry_outcome_first [OF A7 four ga(1) ga(3)]
  note a9 = retry_outcome_first [OF A9 four ga(2) ga(4)]
  note c7 = retry_outcome_first [OF C7 one gc(1) gc(3)]
  note c9 = retry_outcome_first [OF C9 one gc(2) gc(4)]
  note b7 = retry_outcome_none [OF B7 nb(1)]
  note b9 = retry_outcome_none [OF B9 nb(2)]
  have xa: "xfers (snd (?a (flaky_kernel 4) (attempt_world (?a (flaky_kernel 4)) 4 world0))) = 5"
    "xfers (snd (?b (flaky_kernel 4) (attempt_world (?b (flaky_kernel 4)) 4 world0))) = 5"
    by (simp_all only: last F7 F9)
  have xb: "xfers (attempt_world (?a ?sentinel) 5 world0) = 5"
    "xfers (attempt_world (?b ?sentinel) 5 world0) = 5"
    by (simp_all only: S7 S9)
  have xc: "xfers (snd (?a stalled_kernel (attempt_world (?a stalled_kernel) 1 world0))) = 1"
    "xfers (snd (?b stalled_kernel (attempt_world (?b stalled_kernel) 1 world0))) = 1"
    using c7x c9x by (simp_all add: stalled_7219 stalled_9150 x0 fc1)
  have s1: "fst (fst (iqs7219_read_attempt ?sentinel reg (Suc 0) v)) = - ENODATA" for reg v
    using sentinel_error(1) [of reg v] by simp
  show ?thesis
    using a7 a9 c7 c9 b7 b9 xa xb xc
    by (simp add: usleep_range_def iqs9150_irq_wait_def sentinel_error s1 stalled_7219
          stalled_9150)
qed

section \<open>Properties of the configuration builders\<close>

subsection \<open>Bit macros on machine words\<close>

lemma BIT_word: "(word_of_int (BIT n) :: 'a::len word) = push_bit n 1"
  by (simp add: BIT_def)

lemma GENMASK_word:
  "l \<le> h \<Longrightarrow> (word_of_int (GENMASK h l) :: 'a::len word) = push_bit l (mask (Suc h - l))"
proof -
  assume lh: "l \<le> h"
  have "(2::int) ^ Suc h = 2 ^ l * 2 ^ (Suc h - l)"
    using lh by (simp flip: power_add)
  then have "GENMASK h l = push_bit l (mask (Suc h - l))"
    by (simp add: GENMASK_def push_bit_eq_mult mask_eq_exp_minus_1 algebra_simps)
  then show ?thesis
    by (simp add: of_int_push_bit of_int_mask_eq)
qed

lemma bit_GENMASK:
  "l \<le> h \<Longrightarrow> bit (word_of_int (GENMASK h l) :: 'a::len word) n \<longleftrightarrow> l \<le> n \<and> n \<le> h \<and> n < LENGTH('a)"
  by (auto simp: GENMASK_word bit_simps)

lemma set_bit_BIT: "x OR word_of_int (BIT n) = set_bit n (x :: 'a::len word)"
  by (simp add: BIT_word set_bit_eq_or)

lemma unset_bit_BIT: "x AND NOT (word_of_int (BIT n)) = unset_bit n (x :: 'a::len word)"
  by (simp add: BIT_word unset_bit_eq_and_not)

lemma bit_small:
  fixes x :: "'a::len word"
  assumes "unat x < 2 ^ k" "bit x n"
  shows "n < k"
proof -
  from assms(2) have "bit (unat x) n" by (simp add: bit_unsigned_iff)
  then have "odd (unat x div 2 ^ n)" by (simp add: bit_iff_odd)
  then have "unat x div 2 ^ n \<noteq> 0" by (metis even_zero)
  then have "2 ^ n \<le> unat x" by (simp add: div_eq_0_iff not_less)
  from this assms(1) have "(2::nat) ^ n < 2 ^ k" by (rule le_less_trans)
  then show ?thesis by (simp add: power_strict_increasing_iff)
qed


subsection \<open>Fields of a descriptor\<close>

definition pitch_of :: "('g, 'k) prop_desc \<Rightarrow> nat" where
  "pitch_of d = (if val_pitch d = 0 then 1 else val_pitch d)"

definition field_capacity :: "('g, 'k) prop_desc \<Rightarrow> nat" where
  "field_capacity d = (2 ^ reg_width d - 1) * pitch_of d"

definition max_of :: "('g, 'k) prop_desc \<Rightarrow> nat" where
  "max_of d = (if val_max d = 0 then field_capacity d else val_max d)"

definition in_span :: "('g, 'k) prop_desc \<Rightarrow> nat \<Rightarrow> bool" where
  "in_span d n \<longleftrightarrow> reg_shift d \<le> n \<and> n < reg_shift d + reg_width d"

definition span_mask :: "('g, 'k) prop_desc \<Rightarrow> u16" where
  "span_mask d = push_bit (reg_shift d) (mask (reg_width d))"

definition field_raw :: "('g, 'k) prop_desc \<Rightarrow> u16 \<Rightarrow> nat" where
  "field_raw d x = unat (take_bit (reg_width d) (drop_bit (reg_shift d) x))"

definition field_decode :: "('g, 'k) prop_desc \<Rightarrow> u16 \<Rightarrow> nat" where
  "field_decode d x = field_raw d x * pitch_of d"

definition desc_fits :: "('g, 'k) prop_desc \<Rightarrow> bool" where
  "desc_fits d \<longleftrightarrow>
     0 < reg_width d \<and> reg_shift d + reg_width d \<le> 16
     \<and> max_of d \<le> field_capacity d \<and> val_min d < 2 ^ 32 \<and> pitch_of d < 2 ^ 16
     \<and> (val_subs d = [] \<or> (max_of d < length (val_subs d)
           \<and> list_all (\<lambda>x. x AND NOT (span_mask d) = 0) (val_subs d)))"

lemma unat_of_nat_eq:
  "n < 2 ^ LENGTH('a) \<Longrightarrow> unat (word_of_nat n :: 'a::len word) = n"
  by (simp add: unat_of_nat)

lemma unat_of_int_nat_eq:
  "n < 2 ^ LENGTH('a) \<Longrightarrow> unat (word_of_int (int n) :: 'a::len word) = n"
  by (simp add: unat_of_nat)

lemma pitch_pos [simp]: "0 < pitch_of d"
  by (simp add: pitch_of_def)

lemma capacity_bound:
  assumes "desc_fits d"
  shows "field_capacity d < 2 ^ 32"
proof -
  from assms have w: "reg_width d \<le> 16" and p: "pitch_of d < 2 ^ 16"
    by (simp_all add: desc_fits_def)
  have "(2::nat) ^ reg_width d \<le> 2 ^ 16" using w by (intro power_increasing) simp_all
  then have "(2::nat) ^ reg_width d - 1 < 2 ^ 16" by simp
  then have "(2 ^ reg_width d - 1) * pitch_of d < 2 ^ 16 * 2 ^ 16"
    using p by (intro mult_strict_mono) simp_all
  then show ?thesis by (simp add: field_capacity_def)
qed

lemma span_mask_GENMASK:
  "0 < reg_width d \<Longrightarrow>
     (word_of_int (GENMASK (reg_shift d + reg_width d - 1) (reg_shift d)) :: u16) = span_mask d"
  by (simp add: GENMASK_word span_mask_def Suc_diff_le)

lemma vmax_word:
  assumes "desc_fits d"
  shows "unat ((if val_max d = 0 then word_of_int (GENMASK (reg_width d - 1) 0 * int (pitch_of d))
                else word_of_nat (val_max d)) :: u32) = max_of d"
proof -
  have c: "field_capacity d < 2 ^ 32" using assms by (rule capacity_bound)
  have w: "0 < reg_width d" using assms by (simp add: desc_fits_def)
  have m: "max_of d \<le> field_capacity d" using assms by (simp add: desc_fits_def)
  have g: "GENMASK (reg_width d - 1) 0 * int (pitch_of d) = int (field_capacity d)"
    using w by (simp add: GENMASK_def field_capacity_def of_nat_diff)
  show ?thesis
  proof (cases "val_max d = 0")
    case True
    then show ?thesis using c g by (simp add: max_of_def unat_of_nat_eq)
  next
    case False
    then show ?thesis using c m by (simp add: max_of_def unat_of_nat_eq)
  qed
qed

lemma vmin_word:
  assumes "desc_fits d"
  shows "unat (word_of_nat (val_min d) :: u32) = val_min d"
  using assms by (simp add: desc_fits_def unat_of_nat_eq)

lemma range_check:
  assumes "desc_fits d"
  shows "((v :: u32) < word_of_nat (val_min d)
            \<or> v > (if val_max d = 0 then word_of_int (GENMASK (reg_width d - 1) 0 * int (pitch_of d))
                    else word_of_nat (val_max d)))
         \<longleftrightarrow> (unat v < val_min d \<or> max_of d < unat v)"
  using vmax_word [OF assms] vmin_word [OF assms] by (simp add: word_less_nat_alt)

text \<open>The raw value the encoder puts into the field: \<open>v / pitch\<close>.\<close>

definition field_quot :: "('g, 'k) prop_desc \<Rightarrow> u32 \<Rightarrow> nat" where
  "field_quot d v = unat v div pitch_of d"

lemma quot_word:
  assumes "desc_fits d"
  shows "unat (v div word_of_nat (pitch_of d) :: u32) = field_quot d v"
proof -
  have "pitch_of d < 2 ^ 32"
    using assms by (simp add: desc_fits_def)
  then show ?thesis by (simp add: unat_div unat_of_nat_eq field_quot_def)
qed

lemma quot_small:
  assumes "desc_fits d" "unat v \<le> max_of d"
  shows "field_quot d v < 2 ^ reg_width d"
proof -
  from assms have "unat v \<le> (2 ^ reg_width d - 1) * pitch_of d"
    by (simp add: desc_fits_def field_capacity_def)
  then have "unat v div pitch_of d \<le> 2 ^ reg_width d - 1"
    by (metis div_le_mono nonzero_mult_div_cancel_right pitch_pos less_numeral_extra(3))
  moreover have "(0::nat) < 2 ^ reg_width d" by simp
  ultimately show ?thesis unfolding field_quot_def by linarith
qed


lemma bit_small_nat:
  assumes "(q::nat) < 2 ^ k" "bit q n"
  shows "n < k"
proof -
  from assms(2) have "odd (q div 2 ^ n)" by (simp add: bit_iff_odd)
  then have "q div 2 ^ n \<noteq> 0" by (metis even_zero)
  then have "2 ^ n \<le> q" by (simp add: div_eq_0_iff not_less)
  from this assms(1) have "(2::nat) ^ n < 2 ^ k" by (rule le_less_trans)
  then show ?thesis by (simp add: power_strict_increasing_iff)
qed

text \<open>The word the specification describes: the field's bit span cleared and the raw value
  shifted into it.\<close>

definition field_store :: "('g, 'k) prop_desc \<Rightarrow> nat \<Rightarrow> u16 \<Rightarrow> u16" where
  "field_store d q x = (x AND NOT (span_mask d)) OR push_bit (reg_shift d) (word_of_nat q)"

lemma bit_span_mask: "bit (span_mask d) n \<longleftrightarrow> in_span d n \<and> n < 16"
  by (auto simp: span_mask_def in_span_def bit_simps)

lemma bit_field_store:
  assumes "q < 2 ^ reg_width d" "reg_shift d + reg_width d \<le> 16"
  shows "bit (field_store d q x) n \<longleftrightarrow> (if in_span d n then bit q (n - reg_shift d) else bit x n)"
proof (cases "in_span d n")
  case True
  then have n16: "n < 16" and sh: "reg_shift d \<le> n" using assms(2) by (auto simp: in_span_def)
  have "bit (field_store d q x) n \<longleftrightarrow> bit (push_bit (reg_shift d) (word_of_nat q :: u16)) n"
    using True n16 by (simp add: field_store_def bit_simps bit_span_mask)
  also have "\<dots> \<longleftrightarrow> bit q (n - reg_shift d)"
    using n16 sh by (auto simp: bit_simps)
  finally show ?thesis using True by simp
next
  case False
  have "\<not> bit (push_bit (reg_shift d) (word_of_nat q :: u16)) n"
  proof
    assume "bit (push_bit (reg_shift d) (word_of_nat q :: u16)) n"
    then have sh: "reg_shift d \<le> n" and b: "bit q (n - reg_shift d)"
      by (auto simp: bit_simps)
    from bit_small_nat [OF assms(1) b] sh have "in_span d n" by (auto simp: in_span_def)
    with False show False by simp
  qed
  then show ?thesis using False bit_imp_le_length [of x n]
    by (auto simp: field_store_def bit_simps bit_span_mask)
qed

lemma field_raw_store:
  assumes "q < 2 ^ reg_width d" "reg_shift d + reg_width d \<le> 16"
  shows "field_raw d (field_store d q x) = q"
proof -
  have "take_bit (reg_width d) (drop_bit (reg_shift d) (field_store d q x)) = (word_of_nat q :: u16)"
  proof (rule bit_eqI)
    fix n
    have "bit (take_bit (reg_width d) (drop_bit (reg_shift d) (field_store d q x))) n
          \<longleftrightarrow> n < reg_width d \<and> bit (field_store d q x) (reg_shift d + n)"
      by (simp add: bit_simps)
    also have "\<dots> \<longleftrightarrow> n < reg_width d \<and> bit q n"
      using bit_field_store [OF assms, of x "reg_shift d + n"] by (auto simp: in_span_def)
    also have "\<dots> \<longleftrightarrow> bit q n" using bit_small_nat [OF assms(1)] by blast
    also have "\<dots> \<longleftrightarrow> bit (word_of_nat q :: u16) n"
      using bit_small_nat [OF assms(1), of n] assms(2) by (auto simp: bit_simps)
    finally show "bit (take_bit (reg_width d) (drop_bit (reg_shift d) (field_store d q x))) n
          \<longleftrightarrow> bit (word_of_nat q :: u16) n" .
  qed
  moreover have "q < 2 ^ 16"
  proof -
    have "(2::nat) ^ reg_width d \<le> 2 ^ 16" using assms(2) by (intro power_increasing) simp_all
    with assms(1) show ?thesis by simp
  qed
  ultimately show ?thesis by (simp add: field_raw_def unat_of_nat_eq)
qed

lemma enc_word:
  assumes "desc_fits d"
  shows "(ucast (push_bit (reg_shift d) (v div word_of_nat (pitch_of d) :: u32)) :: u16)
           = push_bit (reg_shift d) (word_of_nat (field_quot d v))"
proof (rule bit_eqI)
  fix n
  have q: "field_quot d v = unat (v div word_of_nat (pitch_of d) :: u32)"
    using quot_word [OF assms] by simp
  show "bit (ucast (push_bit (reg_shift d) (v div word_of_nat (pitch_of d) :: u32)) :: u16) n
        \<longleftrightarrow> bit (push_bit (reg_shift d) (word_of_nat (field_quot d v)) :: u16) n"
    unfolding q by (auto simp: bit_simps)
qed


subsection \<open>One pass over a descriptor\<close>

text \<open>What a pass leaves in a one-bit field: the bit is set exactly when \<open>invert\<close> and
  the presence of the key differ.\<close>

definition bool_store :: "('g, 'k) prop_desc \<Rightarrow> bool \<Rightarrow> u16 \<Rightarrow> u16" where
  "bool_store d present x =
     (if invert d = present then unset_bit (reg_shift d) x else set_bit (reg_shift d) x)"

lemma set_unset_bit: "set_bit n (unset_bit n (x :: u16)) = set_bit n x"
  and unset_set_bit: "unset_bit n (set_bit n (x :: u16)) = unset_bit n x"
  and set_set_bit: "set_bit n (set_bit n (x :: u16)) = set_bit n x"
  and unset_unset_bit: "unset_bit n (unset_bit n (x :: u16)) = unset_bit n x"
  by (rule bit_eqI; auto simp: bit_simps)+

lemma update_twice:
  "xs[i := f (xs[i := a] ! i)] = xs[i := f a]"
  by (cases "i < length xs") (simp_all add: list_update_beyond not_less)

lemma iqs7219_parse_prop_bool:
  assumes "reg_width d = 1"
  shows "iqs7219_parse_prop node d row =
           (0, row[reg_offset d := bool_store d (fwnode_property_present node (name d))
                                     (row ! reg_offset d)])"
  using assms
  by (simp add: iqs7219_parse_prop_def Let_def bool_store_def set_bit_BIT unset_bit_BIT
        update_twice set_unset_bit unset_set_bit)

lemma iqs323_parse_prop_bool:
  assumes "reg_width d = 1"
  shows "iqs323_parse_prop node d row =
           (0, row[reg_offset d := bool_store d (fwnode_property_present node (name d))
                                     (row ! reg_offset d)])"
  using assms
  by (simp add: iqs323_parse_prop_def Let_def bool_store_def set_bit_BIT unset_bit_BIT
        update_twice set_unset_bit unset_set_bit)

lemma iqs7219_parse_prop_wide:
  assumes "desc_fits d" "reg_width d \<noteq> 1"
  shows "iqs7219_parse_prop node d row =
     (if \<not> fwnode_property_present node (name d) then (0, row)
      else (case fwnode_property_read_u32 node (name d) of (error, v) \<Rightarrow>
        if error \<noteq> 0 then (error, row)
        else if unat v < val_min d \<or> max_of d < unat v then (- EINVAL, row)
        else (0, row[reg_offset d := field_store d (field_quot d v) (row ! reg_offset d)])))"
proof -
  have w: "0 < reg_width d" using assms(1) by (simp add: desc_fits_def)
  show ?thesis
    unfolding iqs7219_parse_prop_def Let_def pitch_of_def [symmetric]
      range_check [OF assms(1)] span_mask_GENMASK [OF w] enc_word [OF assms(1)]
    using assms(2)
    by (simp add: field_store_def split: prod.splits)
qed

text \<open>The substitution-table variant of the stored word.\<close>

definition subs_store :: "('g, 'k) prop_desc \<Rightarrow> u32 \<Rightarrow> u16 \<Rightarrow> u16" where
  "subs_store d v x = (x AND NOT (span_mask d)) OR val_subs d ! unat v"

lemma iqs323_parse_prop_wide:
  assumes "desc_fits d" "reg_width d \<noteq> 1"
  shows "iqs323_parse_prop node d row =
     (case fwnode_property_read_u32 node (name d) of (error, v) \<Rightarrow>
        if error = - EINVAL then (0, row)
        else if error \<noteq> 0 then (error, row)
        else if unat v < val_min d \<or> max_of d < unat v then (- EINVAL, row)
        else (0, row[reg_offset d :=
                (if val_subs d \<noteq> [] then subs_store d v (row ! reg_offset d)
                 else field_store d (field_quot d v) (row ! reg_offset d))]))"
proof -
  have w: "0 < reg_width d" using assms(1) by (simp add: desc_fits_def)
  show ?thesis
    unfolding iqs323_parse_prop_def Let_def pitch_of_def [symmetric]
      range_check [OF assms(1)] span_mask_GENMASK [OF w] enc_word [OF assms(1)]
    using assms(2)
    by (simp add: field_store_def subs_store_def split: prod.splits)
qed

lemma read_u32_absent:
  "\<not> fwnode_property_present node key \<Longrightarrow> fwnode_property_read_u32 node key = (- EINVAL, 0)"
  by (simp add: fwnode_property_present_def fwnode_property_read_u32_def)

lemma read_u32_present:
  "fwnode_property_present node key \<Longrightarrow> fst (fwnode_property_read_u32 node key) \<noteq> - EINVAL"
  by (auto simp: fwnode_property_present_def fwnode_property_read_u32_def errno_defs
        split: option.splits list.splits)


subsection \<open>Bits a pass leaves alone\<close>

definition keeps_outside :: "('g, 'k) prop_desc \<Rightarrow> (u16 \<Rightarrow> u16) \<Rightarrow> bool" where
  "keeps_outside d f \<longleftrightarrow> (\<forall>x n. \<not> in_span d n \<longrightarrow> bit (f x) n = bit x n)"

lemma keeps_id: "keeps_outside d (\<lambda>x. x)"
  by (simp add: keeps_outside_def)

lemma keeps_bool: "reg_width d = 1 \<Longrightarrow> keeps_outside d (bool_store d p)"
  by (auto simp: keeps_outside_def bool_store_def in_span_def bit_simps)

lemma keeps_field:
  "desc_fits d \<Longrightarrow> q < 2 ^ reg_width d \<Longrightarrow> keeps_outside d (field_store d q)"
  by (simp add: keeps_outside_def bit_field_store desc_fits_def)

lemma keeps_subs:
  assumes "desc_fits d" "val_subs d \<noteq> []" "unat v \<le> max_of d"
  shows "keeps_outside d (subs_store d v)"
proof -
  from assms have "unat v < length (val_subs d)"
    and "list_all (\<lambda>x. x AND NOT (span_mask d) = 0) (val_subs d)"
    by (auto simp: desc_fits_def)
  then have z: "val_subs d ! unat v AND NOT (span_mask d) = 0"
    by (simp add: list_all_length)
  have "\<not> bit (val_subs d ! unat v) n" if "\<not> in_span d n" for n
  proof
    assume b: "bit (val_subs d ! unat v) n"
    then have "n < 16" using bit_imp_le_length by fastforce
    with b that have "bit (val_subs d ! unat v AND NOT (span_mask d)) n"
      by (simp add: bit_simps bit_span_mask)
    with z show False by simp
  qed
  moreover have "n < 16" if "bit x n" for x :: u16 and n
    using bit_imp_le_length [OF that] by simp
  ultimately show ?thesis
    by (auto simp: keeps_outside_def subs_store_def bit_simps bit_span_mask)
qed

lemma iqs7219_parse_prop_shape:
  assumes "reg_width d = 1 \<or> desc_fits d"
  shows "\<exists>f. keeps_outside d f
            \<and> snd (iqs7219_parse_prop node d row) = row[reg_offset d := f (row ! reg_offset d)]"
proof (cases "reg_width d = 1")
  case True
  then show ?thesis using keeps_bool [OF True] by (auto simp: iqs7219_parse_prop_bool)
next
  case False
  with assms have fits: "desc_fits d" by simp
  obtain e v where r: "fwnode_property_read_u32 node (name d) = (e, v)"
    by (cases "fwnode_property_read_u32 node (name d)")
  show ?thesis
  proof (cases "fwnode_property_present node (name d) \<and> e = 0
                 \<and> \<not> (unat v < val_min d \<or> max_of d < unat v)")
    case True
    then have "field_quot d v < 2 ^ reg_width d" using quot_small [OF fits] by simp
    from keeps_field [OF fits this] True r show ?thesis
      by (auto simp: iqs7219_parse_prop_wide [OF fits False])
  next
    case no: False
    have "snd (iqs7219_parse_prop node d row) = row"
      using no r by (auto simp: iqs7219_parse_prop_wide [OF fits False])
    then show ?thesis using keeps_id [of d] by (metis list_update_id)
  qed
qed

lemma iqs323_parse_prop_shape:
  assumes "reg_width d = 1 \<or> desc_fits d"
  shows "\<exists>f. keeps_outside d f
            \<and> snd (iqs323_parse_prop node d row) = row[reg_offset d := f (row ! reg_offset d)]"
proof (cases "reg_width d = 1")
  case True
  then show ?thesis using keeps_bool [OF True] by (auto simp: iqs323_parse_prop_bool)
next
  case False
  with assms have fits: "desc_fits d" by simp
  obtain e v where r: "fwnode_property_read_u32 node (name d) = (e, v)"
    by (cases "fwnode_property_read_u32 node (name d)")
  show ?thesis
  proof (cases "e = 0 \<and> \<not> (unat v < val_min d \<or> max_of d < unat v)")
    case True
    then have q: "field_quot d v < 2 ^ reg_width d" and m: "unat v \<le> max_of d"
      using quot_small [OF fits] by simp_all
    show ?thesis
    proof (cases "val_subs d = []")
      case True
      from keeps_field [OF fits q] True \<open>e = 0 \<and> _\<close> r show ?thesis
        by (auto simp: iqs323_parse_prop_wide [OF fits False] errno_defs)
    next
      case s: False
      from keeps_subs [OF fits s m] s True r show ?thesis
        by (auto simp: iqs323_parse_prop_wide [OF fits False] errno_defs)
    qed
  next
    case no: False
    have "snd (iqs323_parse_prop node d row) = row"
      using no r by (auto simp: iqs323_parse_prop_wide [OF fits False])
    then show ?thesis using keeps_id [of d] by (metis list_update_id)
  qed
qed

text \<open>A descriptor stays clear of bit \<open>n\<close> of word \<open>off\<close>.\<close>

definition clear_of :: "('g, 'k) prop_desc \<Rightarrow> nat \<Rightarrow> nat \<Rightarrow> bool" where
  "clear_of d off n \<longleftrightarrow> (reg_width d = 1 \<or> desc_fits d) \<and> (reg_offset d \<noteq> off \<or> \<not> in_span d n)"

lemma shape_keeps:
  assumes "keeps_outside d f" "row' = row[reg_offset d := f (row ! reg_offset d)]"
    and "reg_offset d \<noteq> off \<or> \<not> in_span d n"
  shows "bit (row' ! off) n = bit (row ! off) n \<and> length row' = length row"
proof (cases "reg_offset d = off \<and> off < length row")
  case True
  with assms show ?thesis by (simp add: keeps_outside_def)
next
  case False
  then show ?thesis using assms(2)
    by (cases "reg_offset d = off") (simp_all add: list_update_beyond not_less)
qed

lemma iqs7219_parse_prop_keeps:
  assumes "clear_of d off n"
  shows "bit (snd (iqs7219_parse_prop node d row) ! off) n = bit (row ! off) n"
proof -
  from assms have a: "reg_width d = 1 \<or> desc_fits d" and b: "reg_offset d \<noteq> off \<or> \<not> in_span d n"
    by (simp_all add: clear_of_def)
  from iqs7219_parse_prop_shape [OF a, of node row] obtain f where
    "keeps_outside d f" "snd (iqs7219_parse_prop node d row) = row[reg_offset d := f (row ! reg_offset d)]"
    by blast
  from shape_keeps [OF this b] show ?thesis by simp
qed

lemma iqs323_parse_prop_keeps:
  assumes "clear_of d off n"
  shows "bit (snd (iqs323_parse_prop node d row) ! off) n = bit (row ! off) n"
proof -
  from assms have a: "reg_width d = 1 \<or> desc_fits d" and b: "reg_offset d \<noteq> off \<or> \<not> in_span d n"
    by (simp_all add: clear_of_def)
  from iqs323_parse_prop_shape [OF a, of node row] obtain f where
    "keeps_outside d f" "snd (iqs323_parse_prop node d row) = row[reg_offset d := f (row ! reg_offset d)]"
    by blast
  from shape_keeps [OF this b] show ?thesis by simp
qed

lemma iqs7219_parse_prop_length:
  "length (snd (iqs7219_parse_prop node d row)) = length row"
  by (simp add: iqs7219_parse_prop_def Let_def split: prod.splits)

lemma iqs323_parse_prop_length:
  "length (snd (iqs323_parse_prop node d row)) = length row"
  by (simp add: iqs323_parse_prop_def Let_def split: prod.splits)

lemma iqs7219_loop_keeps:
  "\<forall>d \<in> set ds. reg_key d = k \<longrightarrow> clear_of d off n \<Longrightarrow>
     bit (snd (iqs7219_parse_props_loop node k ds row) ! off) n = bit (row ! off) n"
proof (induction ds arbitrary: row)
  case Nil
  then show ?case by simp
next
  case (Cons d ds)
  show ?case
  proof (cases "reg_key d = k")
    case False
    with Cons show ?thesis by simp
  next
    case True
    with Cons.prems have c: "clear_of d off n" by simp
    obtain e row' where s: "iqs7219_parse_prop node d row = (e, row')"
      by (cases "iqs7219_parse_prop node d row")
    from iqs7219_parse_prop_keeps [OF c, of node row] s
    have k: "bit (row' ! off) n = bit (row ! off) n" by simp
    from Cons.IH [of row'] Cons.prems k s True show ?thesis by simp
  qed
qed

lemma iqs323_loop_keeps:
  "\<forall>d \<in> set ds. reg_grp d = g \<and> reg_key d = k \<longrightarrow> clear_of d off n \<Longrightarrow>
     bit (snd (iqs323_parse_props_loop node g k ds row) ! off) n = bit (row ! off) n"
proof (induction ds arbitrary: row)
  case Nil
  then show ?case by simp
next
  case (Cons d ds)
  show ?case
  proof (cases "reg_grp d = g \<and> reg_key d = k")
    case False
    with Cons show ?thesis by auto
  next
    case True
    with Cons.prems have c: "clear_of d off n" by simp
    obtain e row' where s: "iqs323_parse_prop node d row = (e, row')"
      by (cases "iqs323_parse_prop node d row")
    from iqs323_parse_prop_keeps [OF c, of node row] s
    have k: "bit (row' ! off) n = bit (row ! off) n" by simp
    from Cons.IH [of row'] Cons.prems k s True show ?thesis by simp
  qed
qed

subsection \<open>The descriptor tables\<close>

lemma iqs7219_props_fit: "list_all (\<lambda>d. reg_width d = 1 \<or> desc_fits d) iqs7219_props"
  by (simp add: iqs7219_props_def iqs7219_prop_def desc_fits_def max_of_def field_capacity_def
        pitch_of_def)

lemma iqs323_props_fit: "list_all (\<lambda>d. reg_width d = 1 \<or> desc_fits d) iqs323_props"
  by (simp add: iqs323_props_def iqs323_prop_def desc_fits_def max_of_def field_capacity_def
        pitch_of_def span_mask_def iqs323_sense_modes_def iqs323_rx_inactives_def
        mask_eq_exp_minus_1)

text \<open>No later descriptor of the same group and key touches the bit of a one-bit field.\<close>

fun bools_kept :: "('g, 'k) prop_desc list \<Rightarrow> bool" where
  "bools_kept [] = True"
| "bools_kept (d # ds) =
     ((reg_width d \<noteq> 1 \<or> (reg_shift d < 16 \<and>
         list_all (\<lambda>d'. (reg_grp d' = reg_grp d \<and> reg_key d' = reg_key d) \<longrightarrow>
                     (reg_offset d' \<noteq> reg_offset d \<or> \<not> in_span d' (reg_shift d))) ds))
      \<and> bools_kept ds)"

lemma iqs7219_props_bools: "bools_kept iqs7219_props"
  by (simp add: iqs7219_props_def iqs7219_prop_def in_span_def)

lemma iqs323_props_bools: "bools_kept iqs323_props"
  by (simp add: iqs323_props_def iqs323_prop_def in_span_def)


lemma bit_bool_store:
  "reg_shift d < 16 \<Longrightarrow>
     bit (bool_store d p x) n \<longleftrightarrow> (if n = reg_shift d then invert d \<noteq> p else bit x n)"
  by (auto simp: bool_store_def bit_simps)

lemma bools_kept_clear:
  assumes "list_all (\<lambda>d. reg_width d = 1 \<or> desc_fits d) ds"
    and "list_all (\<lambda>d'. (reg_grp d' = g \<and> reg_key d' = k) \<longrightarrow>
                     (reg_offset d' \<noteq> off \<or> \<not> in_span d' n)) ds"
  shows "\<forall>d' \<in> set ds. reg_grp d' = g \<and> reg_key d' = k \<longrightarrow> clear_of d' off n"
  using assms by (auto simp: list_all_iff clear_of_def)

lemma iqs7219_loop_bool:
  assumes "list_all (\<lambda>d. reg_width d = 1 \<or> desc_fits d) ds" "bools_kept ds"
    and "d \<in> set ds" "reg_width d = 1" "reg_key d = k" "reg_offset d < length row"
    and "iqs7219_parse_props_loop node k ds row = (0, row')"
  shows "bit (row' ! reg_offset d) (reg_shift d) \<longleftrightarrow> invert d \<noteq> fwnode_property_present node (name d)"
  using assms
proof (induction ds arbitrary: row)
  case Nil
  then show ?case by simp
next
  case (Cons d0 ds)
  show ?case
  proof (cases "reg_key d0 = k")
    case False
    with Cons.prems have "d \<in> set ds" "iqs7219_parse_props_loop node k ds row = (0, row')"
      by auto
    with Cons.IH [of row] Cons.prems show ?thesis by simp
  next
    case True
    obtain e row1 where s: "iqs7219_parse_prop node d0 row = (e, row1)"
      by (cases "iqs7219_parse_prop node d0 row")
    from Cons.prems(7) True s have e: "e = 0"
      by (auto split: if_splits)
    with Cons.prems(7) True s have l: "iqs7219_parse_props_loop node k ds row1 = (0, row')"
      by simp
    have len: "length row1 = length row" using iqs7219_parse_prop_length [of node d0 row] s by simp
    show ?thesis
    proof (cases "d = d0")
      case same: True
      from Cons.prems(2) same Cons.prems(4) have sh: "reg_shift d < 16"
        and la: "list_all (\<lambda>d'. (reg_grp d' = reg_grp d \<and> reg_key d' = reg_key d) \<longrightarrow>
                     (reg_offset d' \<noteq> reg_offset d \<or> \<not> in_span d' (reg_shift d))) ds"
        by simp_all
      from Cons.prems(1) have fits: "list_all (\<lambda>d. reg_width d = 1 \<or> desc_fits d) ds" by simp
      have "\<forall>d' \<in> set ds. reg_key d' = k \<longrightarrow> clear_of d' (reg_offset d) (reg_shift d)"
        using bools_kept_clear [OF fits la] Cons.prems(5) by simp
      from iqs7219_loop_keeps [OF this, of node row1] l
      have "bit (row' ! reg_offset d) (reg_shift d) = bit (row1 ! reg_offset d) (reg_shift d)"
        by simp
      also have "row1 = row[reg_offset d := bool_store d (fwnode_property_present node (name d))
                                     (row ! reg_offset d)]"
        using iqs7219_parse_prop_bool [OF Cons.prems(4), of node row] s same by simp
      finally show ?thesis using Cons.prems(6) sh by (simp add: bit_bool_store)
    next
      case False
      with Cons.prems have "d \<in> set ds" by simp
      with Cons.IH [of row1] Cons.prems l len show ?thesis by simp
    qed
  qed
qed

lemma iqs323_loop_bool:
  assumes "list_all (\<lambda>d. reg_width d = 1 \<or> desc_fits d) ds" "bools_kept ds"
    and "d \<in> set ds" "reg_width d = 1" "reg_grp d = g" "reg_key d = k" "reg_offset d < length row"
    and "iqs323_parse_props_loop node g k ds row = (0, row')"
  shows "bit (row' ! reg_offset d) (reg_shift d) \<longleftrightarrow> invert d \<noteq> fwnode_property_present node (name d)"
  using assms
proof (induction ds arbitrary: row)
  case Nil
  then show ?case by simp
next
  case (Cons d0 ds)
  show ?case
  proof (cases "reg_grp d0 = g \<and> reg_key d0 = k")
    case False
    with Cons.prems have "d \<in> set ds" "iqs323_parse_props_loop node g k ds row = (0, row')"
      by auto
    with Cons.IH [of row] Cons.prems show ?thesis by simp
  next
    case True
    obtain e row1 where s: "iqs323_parse_prop node d0 row = (e, row1)"
      by (cases "iqs323_parse_prop node d0 row")
    from Cons.prems(8) True s have e: "e = 0"
      by (auto split: if_splits)
    with Cons.prems(8) True s have l: "iqs323_parse_props_loop node g k ds row1 = (0, row')"
      by simp
    have len: "length row1 = length row" using iqs323_parse_prop_length [of node d0 row] s by simp
    show ?thesis
    proof (cases "d = d0")
      case same: True
      from Cons.prems(2) same Cons.prems(4) have sh: "reg_shift d < 16"
        and la: "list_all (\<lambda>d'. (reg_grp d' = reg_grp d \<and> reg_key d' = reg_key d) \<longrightarrow>
                     (reg_offset d' \<noteq> reg_offset d \<or> \<not> in_span d' (reg_shift d))) ds"
        by simp_all
      from Cons.prems(1) have fits: "list_all (\<lambda>d. reg_width d = 1 \<or> desc_fits d) ds" by simp
      have "\<forall>d' \<in> set ds. reg_grp d' = g \<and> reg_key d' = k \<longrightarrow> clear_of d' (reg_offset d) (reg_shift d)"
        using bools_kept_clear [OF fits la] Cons.prems(5,6) by simp
      from iqs323_loop_keeps [OF this, of node row1] l
      have "bit (row' ! reg_offset d) (reg_shift d) = bit (row1 ! reg_offset d) (reg_shift d)"
        by simp
      also have "row1 = row[reg_offset d := bool_store d (fwnode_property_present node (name d))
                                     (row ! reg_offset d)]"
        using iqs323_parse_prop_bool [OF Cons.prems(4), of node row] s same by simp
      finally show ?thesis using Cons.prems(7) sh by (simp add: bit_bool_store)
    next
      case False
      with Cons.prems have "d \<in> set ds" by simp
      with Cons.IH [of row1] Cons.prems l len show ?thesis by simp
    qed
  qed
qed

subsection \<open>One-bit fields\<close>

lemma bool_step_bits:
  assumes "reg_width d = 1" "reg_shift d < 16" "reg_offset d < length row"
    and "row' = row[reg_offset d := bool_store d p (row ! reg_offset d)]"
  shows "length row' = length row
     \<and> (\<forall>j n. bit (row' ! j) n \<longleftrightarrow>
           (if j = reg_offset d \<and> n = reg_shift d then invert d \<noteq> p else bit (row ! j) n))"
  using assms by (auto simp: bit_bool_store nth_list_update)

text \<open>C4. A pass of either configuration builder over a one-bit descriptor never fails
  and rewrites exactly one bit of the register row: afterwards the bit at the descriptor's
  shift in the descriptor's word is set if and only if \<open>invert\<close> differs from the presence of
  the key, that is, it holds the inverted default when the key is absent and the opposite
  value when it is present, whatever the row held before; every other bit of the row is
  as it was. For the descriptor tables of the two drivers the same holds of a whole run of
  the builder's loop that ends without an error: the bit of every one-bit field of the
  group is set if and only if \<open>invert\<close> differs from the presence of its key.\<close>

theorem boolean_field_reset:
  fixes d :: iqs7219_prop_desc and e :: iqs323_prop_desc
  shows "(reg_width d = 1 \<and> reg_shift d < 16 \<and> reg_offset d < length row \<longrightarrow>
            fst (iqs7219_parse_prop node d row) = 0
          \<and> length (snd (iqs7219_parse_prop node d row)) = length row
          \<and> (\<forall>j n. bit (snd (iqs7219_parse_prop node d row) ! j) n \<longleftrightarrow>
                (if j = reg_offset d \<and> n = reg_shift d
                 then invert d \<noteq> fwnode_property_present node (name d) else bit (row ! j) n)))
       \<and> (reg_width e = 1 \<and> reg_shift e < 16 \<and> reg_offset e < length row \<longrightarrow>
            fst (iqs323_parse_prop node e row) = 0
          \<and> length (snd (iqs323_parse_prop node e row)) = length row
          \<and> (\<forall>j n. bit (snd (iqs323_parse_prop node e row) ! j) n \<longleftrightarrow>
                (if j = reg_offset e \<and> n = reg_shift e
                 then invert e \<noteq> fwnode_property_present node (name e) else bit (row ! j) n)))
       \<and> (d \<in> set iqs7219_props \<and> reg_width d = 1 \<and> reg_offset d < length row
            \<and> fst (iqs7219_parse_props_loop node (reg_key d) iqs7219_props row) = 0 \<longrightarrow>
            (bit (snd (iqs7219_parse_props_loop node (reg_key d) iqs7219_props row) ! reg_offset d)
                 (reg_shift d)
               \<longleftrightarrow> invert d \<noteq> fwnode_property_present node (name d)))
       \<and> (e \<in> set iqs323_props \<and> reg_width e = 1 \<and> reg_offset e < length row
            \<and> fst (iqs323_parse_props_loop node (reg_grp e) (reg_key e) iqs323_props row) = 0 \<longrightarrow>
            (bit (snd (iqs323_parse_props_loop node (reg_grp e) (reg_key e) iqs323_props row)
                    ! reg_offset e) (reg_shift e)
               \<longleftrightarrow> invert e \<noteq> fwnode_property_present node (name e)))"
proof -
  have 1: "fst (iqs7219_parse_prop node d row) = 0
          \<and> length (snd (iqs7219_parse_prop node d row)) = length row
          \<and> (\<forall>j n. bit (snd (iqs7219_parse_prop node d row) ! j) n \<longleftrightarrow>
                (if j = reg_offset d \<and> n = reg_shift d
                 then invert d \<noteq> fwnode_property_present node (name d) else bit (row ! j) n))"
    if h: "reg_width d = 1" "reg_shift d < 16" "reg_offset d < length row"
    using bool_step_bits [OF h refl, of "fwnode_property_present node (name d)"]
    by (simp add: iqs7219_parse_prop_bool [OF h(1)])
  have 2: "fst (iqs323_parse_prop node e row) = 0
          \<and> length (snd (iqs323_parse_prop node e row)) = length row
          \<and> (\<forall>j n. bit (snd (iqs323_parse_prop node e row) ! j) n \<longleftrightarrow>
                (if j = reg_offset e \<and> n = reg_shift e
                 then invert e \<noteq> fwnode_property_present node (name e) else bit (row ! j) n))"
    if h: "reg_width e = 1" "reg_shift e < 16" "reg_offset e < length row"
    using bool_step_bits [OF h refl, of "fwnode_property_present node (name e)"]
    by (simp add: iqs323_parse_prop_bool [OF h(1)])
  have 3: "bit (snd (iqs7219_parse_props_loop node (reg_key d) iqs7219_props row) ! reg_offset d)
                 (reg_shift d)
               \<longleftrightarrow> invert d \<noteq> fwnode_property_present node (name d)"
    if h: "d \<in> set iqs7219_props" "reg_width d = 1" "reg_offset d < length row"
      and z: "fst (iqs7219_parse_props_loop node (reg_key d) iqs7219_props row) = 0"
  proof -
    from z have "iqs7219_parse_props_loop node (reg_key d) iqs7219_props row
        = (0, snd (iqs7219_parse_props_loop node (reg_key d) iqs7219_props row))"
      by (simp add: prod_eq_iff)
    from iqs7219_loop_bool [OF iqs7219_props_fit iqs7219_props_bools h(1,2) refl h(3) this]
    show ?thesis .
  qed
  have 4: "bit (snd (iqs323_parse_props_loop node (reg_grp e) (reg_key e) iqs323_props row)
                    ! reg_offset e) (reg_shift e)
               \<longleftrightarrow> invert e \<noteq> fwnode_property_present node (name e)"
    if h: "e \<in> set iqs323_props" "reg_width e = 1" "reg_offset e < length row"
      and z: "fst (iqs323_parse_props_loop node (reg_grp e) (reg_key e) iqs323_props row) = 0"
  proof -
    from z have "iqs323_parse_props_loop node (reg_grp e) (reg_key e) iqs323_props row
        = (0, snd (iqs323_parse_props_loop node (reg_grp e) (reg_key e) iqs323_props row))"
      by (simp add: prod_eq_iff)
    from iqs323_loop_bool [OF iqs323_props_fit iqs323_props_bools h(1,2) refl refl h(3) this]
    show ?thesis .
  qed
  from 1 2 3 4 show ?thesis by blast
qed

lemma iqs7219_loop_absent:
  "(\<And>key. \<not> fwnode_property_present node key) \<Longrightarrow>
     fst (iqs7219_parse_props_loop node k ds row) = 0"
  by (induction ds arbitrary: row)
     (simp_all add: iqs7219_parse_prop_def Let_def split: prod.splits)

lemma iqs323_loop_absent:
  "(\<And>key. \<not> fwnode_property_present node key) \<Longrightarrow>
     fst (iqs323_parse_props_loop node g k ds row) = 0"
  by (induction ds arbitrary: row)
     (simp_all add: iqs323_parse_prop_def Let_def read_u32_absent split: prod.splits)

definition stale_row :: "u16 list" where
  "stale_row = replicate 13 0xFFF7"

definition invert_enable_desc :: iqs7219_prop_desc where
  "invert_enable_desc = iqs7219_prop ''azoteq,invert-enable'' IQS7219_REG_KEY_CHAN 0 1 1"

definition band_tighten_desc :: iqs323_prop_desc where
  "band_tighten_desc =
     (iqs323_prop ''azoteq,ati-band-tighten'' IQS323_REG_GRP_SNSR IQS323_REG_KEY_NONE 6 3 1)
       \<lparr>invert := True\<rparr>"

theorem boolean_field_reset_witness:
  "bit (stale_row ! 0) 1 \<and> \<not> bit (stale_row ! 6) 3
   \<and> fst (iqs7219_parse_prop (Fwnode [] []) invert_enable_desc stale_row) = 0
   \<and> \<not> bit (snd (iqs7219_parse_prop (Fwnode [] []) invert_enable_desc stale_row) ! 0) 1
   \<and> fst (iqs323_parse_prop (Fwnode [] []) band_tighten_desc stale_row) = 0
   \<and> bit (snd (iqs323_parse_prop (Fwnode [] []) band_tighten_desc stale_row) ! 6) 3
   \<and> \<not> bit (snd (iqs7219_parse_props_loop (Fwnode [] []) IQS7219_REG_KEY_CHAN iqs7219_props
               stale_row) ! 0) 1
   \<and> bit (snd (iqs323_parse_props_loop (Fwnode [] []) IQS323_REG_GRP_SNSR IQS323_REG_KEY_NONE
             iqs323_props stale_row) ! 6) 3"
proof -
  let ?n = "Fwnode [] []"
  have d: "reg_width invert_enable_desc = 1" "reg_shift invert_enable_desc = 1"
    "reg_offset invert_enable_desc = 0" "reg_key invert_enable_desc = IQS7219_REG_KEY_CHAN"
    "\<not> invert invert_enable_desc"
    by (simp_all add: invert_enable_desc_def iqs7219_prop_def)
  have e: "reg_width band_tighten_desc = 1" "reg_shift band_tighten_desc = 3"
    "reg_offset band_tighten_desc = 6" "reg_key band_tighten_desc = IQS323_REG_KEY_NONE"
    "reg_grp band_tighten_desc = IQS323_REG_GRP_SNSR" "invert band_tighten_desc"
    by (simp_all add: band_tighten_desc_def iqs323_prop_def)
  have len: "length stale_row = 13" by (simp add: stale_row_def)
  have din: "invert_enable_desc \<in> set iqs7219_props"
    by (simp add: invert_enable_desc_def iqs7219_props_def)
  have ein: "band_tighten_desc \<in> set iqs323_props"
    by (simp add: band_tighten_desc_def iqs323_props_def)
  have absent: "\<not> fwnode_property_present ?n (name invert_enable_desc)"
    "\<not> fwnode_property_present ?n (name band_tighten_desc)"
    by (simp_all add: fwnode_property_present_def)
  have l7: "fst (iqs7219_parse_props_loop ?n IQS7219_REG_KEY_CHAN iqs7219_props stale_row) = 0"
    by (rule iqs7219_loop_absent) (simp add: fwnode_property_present_def)
  have l3: "fst (iqs323_parse_props_loop ?n IQS323_REG_GRP_SNSR IQS323_REG_KEY_NONE iqs323_props
                   stale_row) = 0"
    by (rule iqs323_loop_absent) (simp add: fwnode_property_present_def)
  have s: "bit (stale_row ! 0) 1" "\<not> bit (stale_row ! 6) 3"
    by (simp_all add: stale_row_def bit_iff_odd)
  note T = boolean_field_reset [where d = invert_enable_desc and e = band_tighten_desc
      and row = stale_row and node = ?n]
  from T d e len din ein l7 l3 absent s show ?thesis
    by simp
qed

subsection \<open>Wider fields\<close>

lemma props_fit_mem:
  "list_all (\<lambda>d. reg_width d = 1 \<or> desc_fits d) ds \<Longrightarrow> d \<in> set ds \<Longrightarrow> reg_width d \<noteq> 1
     \<Longrightarrow> desc_fits d"
  by (auto simp: list_all_iff)







subsection \<open>Decoding a field\<close>

lemma field_decode_store:
  fixes v :: u32
  assumes "desc_fits d" "unat v \<le> max_of d"
  shows "field_decode d (field_store d (unat v div pitch_of d) x)
           = unat v div pitch_of d * pitch_of d"
proof -
  have q: "unat v div pitch_of d < 2 ^ reg_width d"
    using quot_small [OF assms] by (simp add: field_quot_def)
  from assms(1) have s: "reg_shift d + reg_width d \<le> 16" by (simp add: desc_fits_def)
  from field_raw_store [OF q s] show ?thesis by (simp add: field_decode_def)
qed

lemma subs_store_field:
  fixes v :: u32
  assumes "desc_fits d" "val_subs d \<noteq> []" "unat v \<le> max_of d"
  shows "subs_store d v x AND span_mask d = val_subs d ! unat v"
proof -
  from assms have "unat v < length (val_subs d)"
    and "list_all (\<lambda>x. x AND NOT (span_mask d) = 0) (val_subs d)"
    by (auto simp: desc_fits_def)
  then have z: "val_subs d ! unat v AND NOT (span_mask d) = 0"
    by (simp add: list_all_length)
  have t: "bit (val_subs d ! unat v) n \<Longrightarrow> bit (span_mask d) n" for n
  proof (rule ccontr)
    assume "bit (val_subs d ! unat v) n" "\<not> bit (span_mask d) n"
    then have "bit (val_subs d ! unat v AND NOT (span_mask d)) n"
      using bit_imp_le_length [of "val_subs d ! unat v" n] by (simp add: bit_simps)
    with z show False by simp
  qed
  show ?thesis
    by (rule bit_eqI) (auto simp: subs_store_def bit_simps dest: t)
qed

lemma wide_step_bits:
  assumes "keeps_outside d f" "reg_offset d < length row"
    and "row' = row[reg_offset d := f (row ! reg_offset d)]"
  shows "(\<forall>n. \<not> in_span d n \<longrightarrow> bit (row' ! reg_offset d) n = bit (row ! reg_offset d) n)
       \<and> (\<forall>j. j \<noteq> reg_offset d \<longrightarrow> row' ! j = row ! j)"
  using assms by (simp add: keeps_outside_def)


lemma read_u32_ok_present:
  "fwnode_property_read_u32 node key = (0, v) \<Longrightarrow> fwnode_property_present node key"
  by (auto simp: fwnode_property_present_def fwnode_property_read_u32_def errno_defs
        split: option.splits list.splits)

lemma iqs7219_props_no_pitch: "list_all (\<lambda>d. val_pitch d = 0) iqs7219_props"
  by (simp add: iqs7219_props_def iqs7219_prop_def)

definition press_timeout_desc :: iqs323_prop_desc where
  "press_timeout_desc =
     (iqs323_prop ''azoteq,timeout-press-ms'' IQS323_REG_GRP_GEN IQS323_REG_KEY_TOUCH 2 8 8)
       \<lparr>val_pitch := 512\<rparr>"

definition press_timeout_node :: "u32 \<Rightarrow> fwnode" where
  "press_timeout_node v = Fwnode [(''azoteq,timeout-press-ms'', [v])] []"

lemma press_timeout_fits: "desc_fits press_timeout_desc"
  by (simp add: press_timeout_desc_def iqs323_prop_def desc_fits_def max_of_def
        field_capacity_def pitch_of_def)

lemma press_timeout_store:
  "field_store press_timeout_desc q x = (x AND 0x00FF) OR push_bit 8 (word_of_nat q)"
proof -
  have "NOT (span_mask press_timeout_desc) = 0x00FF"
    by (simp add: span_mask_def press_timeout_desc_def iqs323_prop_def mask_eq_exp_minus_1)
  then show ?thesis
    by (simp add: field_store_def press_timeout_desc_def iqs323_prop_def)
qed

text \<open>C6, as claimed, fails on the press timeout of the IQS323, a field of eight bits
  with a pitch of 512: the values 512 and 513 both lie within the bounds, both are
  accepted and both leave the same word, so that decoding the field after encoding 513
  gives the raw value 1, or 512 once scaled by the pitch, and not 513.\<close>

theorem pitch_field_roundtrip_fails:
  "press_timeout_desc \<in> set iqs323_props
   \<and> val_min press_timeout_desc \<le> 513 \<and> 513 \<le> max_of press_timeout_desc
   \<and> iqs323_parse_prop (press_timeout_node 513) press_timeout_desc [0, 0, 0, 0, 0]
       = (0, [0, 0, 0x0100, 0, 0])
   \<and> iqs323_parse_prop (press_timeout_node 512) press_timeout_desc [0, 0, 0, 0, 0]
       = (0, [0, 0, 0x0100, 0, 0])
   \<and> field_raw press_timeout_desc 0x0100 = 1
   \<and> field_decode press_timeout_desc 0x0100 = 512
   \<and> field_decode press_timeout_desc
        (snd (iqs323_parse_prop (press_timeout_node 513) press_timeout_desc [0, 0, 0, 0, 0]) ! 2)
       \<noteq> 513"
proof -
  have m: "press_timeout_desc \<in> set iqs323_props"
    by (simp add: press_timeout_desc_def iqs323_props_def)
  have f: "reg_width press_timeout_desc \<noteq> 1" "val_min press_timeout_desc = 0"
    "max_of press_timeout_desc = 130560" "pitch_of press_timeout_desc = 512"
    "reg_offset press_timeout_desc = 2" "val_subs press_timeout_desc = []"
    "name press_timeout_desc = ''azoteq,timeout-press-ms''"
    by (simp_all add: press_timeout_desc_def iqs323_prop_def max_of_def field_capacity_def
          pitch_of_def)
  have r: "fwnode_property_read_u32 (press_timeout_node v) ''azoteq,timeout-press-ms'' = (0, v)"
    for v
    by (simp add: press_timeout_node_def fwnode_property_read_u32_def)
  have q: "field_quot press_timeout_desc 513 = 1" "field_quot press_timeout_desc 512 = 1"
    by (simp_all add: field_quot_def f)
  have p: "iqs323_parse_prop (press_timeout_node 513) press_timeout_desc [0, 0, 0, 0, 0]
       = (0, [0, 0, 0x0100, 0, 0])"
    "iqs323_parse_prop (press_timeout_node 512) press_timeout_desc [0, 0, 0, 0, 0]
       = (0, [0, 0, 0x0100, 0, 0])"
    by (simp_all add: iqs323_parse_prop_wide [OF press_timeout_fits f(1)] f r q
          press_timeout_store errno_defs)
  have raw: "field_raw press_timeout_desc 0x0100 = 1"
    by (simp add: field_raw_def press_timeout_desc_def iqs323_prop_def drop_bit_eq_div
          take_bit_eq_mod)
  then have dec: "field_decode press_timeout_desc 0x0100 = 512"
    by (simp add: field_decode_def f)
  from m f p raw dec show ?thesis by simp
qed

text \<open>C6, amended. For every descriptor of the two tables wider than one bit and every
  value \<open>v\<close> read for its key within the bounds, the pass succeeds and leaves every bit of
  the target word outside the span \<open>[S, S + W)\<close> as it was. Decoding the field afterwards,
  that is, taking the \<open>W\<close> bits at \<open>S\<close> and scaling them by the pitch, gives \<open>v\<close> rounded
  down to a multiple of the pitch: \<open>v\<close> itself for every descriptor of the IQS7219A, none
  of which has a pitch, and for the descriptors of the IQS323 apart from the three
  press timeouts. For a descriptor with a substitution table the field holds the table's
  entry for \<open>v\<close> instead.\<close>

theorem wide_field_roundtrip:
  fixes d :: iqs7219_prop_desc and e :: iqs323_prop_desc
  shows "(d \<in> set iqs7219_props \<and> reg_width d \<noteq> 1 \<and> reg_offset d < length row
            \<and> fwnode_property_read_u32 node (name d) = (0, v)
            \<and> val_min d \<le> unat v \<and> unat v \<le> max_of d \<longrightarrow>
            fst (iqs7219_parse_prop node d row) = 0
          \<and> field_decode d (snd (iqs7219_parse_prop node d row) ! reg_offset d) = unat v
          \<and> (\<forall>n. \<not> in_span d n \<longrightarrow>
                bit (snd (iqs7219_parse_prop node d row) ! reg_offset d) n
                  = bit (row ! reg_offset d) n))
       \<and> (e \<in> set iqs323_props \<and> reg_width e \<noteq> 1 \<and> reg_offset e < length row'
            \<and> fwnode_property_read_u32 node' (name e) = (0, v')
            \<and> val_min e \<le> unat v' \<and> unat v' \<le> max_of e \<longrightarrow>
            fst (iqs323_parse_prop node' e row') = 0
          \<and> (if val_subs e \<noteq> []
              then snd (iqs323_parse_prop node' e row') ! reg_offset e AND span_mask e
                     = val_subs e ! unat v'
              else field_decode e (snd (iqs323_parse_prop node' e row') ! reg_offset e)
                     = unat v' div pitch_of e * pitch_of e)
          \<and> (\<forall>n. \<not> in_span e n \<longrightarrow>
                bit (snd (iqs323_parse_prop node' e row') ! reg_offset e) n
                  = bit (row' ! reg_offset e) n))"
proof -
  have 1: "fst (iqs7219_parse_prop node d row) = 0
          \<and> field_decode d (snd (iqs7219_parse_prop node d row) ! reg_offset d) = unat v
          \<and> (\<forall>n. \<not> in_span d n \<longrightarrow>
                bit (snd (iqs7219_parse_prop node d row) ! reg_offset d) n
                  = bit (row ! reg_offset d) n)"
    if h: "d \<in> set iqs7219_props" "reg_width d \<noteq> 1" and len: "reg_offset d < length row"
      and r: "fwnode_property_read_u32 node (name d) = (0, v)"
      and b: "val_min d \<le> unat v" "unat v \<le> max_of d"
  proof -
    have fits: "desc_fits d" using props_fit_mem [OF iqs7219_props_fit h] .
    have p: "pitch_of d = 1"
      using iqs7219_props_no_pitch h(1) by (auto simp: list_all_iff pitch_of_def)
    have s: "iqs7219_parse_prop node d row
               = (0, row[reg_offset d := field_store d (field_quot d v) (row ! reg_offset d)])"
      using iqs7219_parse_prop_wide [OF fits h(2), of node row] read_u32_ok_present [OF r] r b
      by simp
    have q: "field_quot d v < 2 ^ reg_width d" using quot_small [OF fits b(2)] .
    from field_decode_store [OF fits b(2), of "row ! reg_offset d"] p
    have dec: "field_decode d (field_store d (field_quot d v) (row ! reg_offset d)) = unat v"
      by (simp add: field_quot_def)
    from wide_step_bits [OF keeps_field [OF fits q] len refl] s dec len
    show ?thesis by simp
  qed
  have 2: "fst (iqs323_parse_prop node' e row') = 0
          \<and> (if val_subs e \<noteq> []
              then snd (iqs323_parse_prop node' e row') ! reg_offset e AND span_mask e
                     = val_subs e ! unat v'
              else field_decode e (snd (iqs323_parse_prop node' e row') ! reg_offset e)
                     = unat v' div pitch_of e * pitch_of e)
          \<and> (\<forall>n. \<not> in_span e n \<longrightarrow>
                bit (snd (iqs323_parse_prop node' e row') ! reg_offset e) n
                  = bit (row' ! reg_offset e) n)"
    if h: "e \<in> set iqs323_props" "reg_width e \<noteq> 1" and len: "reg_offset e < length row'"
      and r: "fwnode_property_read_u32 node' (name e) = (0, v')"
      and b: "val_min e \<le> unat v'" "unat v' \<le> max_of e"
  proof -
    have fits: "desc_fits e" using props_fit_mem [OF iqs323_props_fit h] .
    have q: "field_quot e v' < 2 ^ reg_width e" using quot_small [OF fits b(2)] .
    show ?thesis
    proof (cases "val_subs e = []")
      case True
      have s: "iqs323_parse_prop node' e row'
               = (0, row'[reg_offset e := field_store e (field_quot e v') (row' ! reg_offset e)])"
        using iqs323_parse_prop_wide [OF fits h(2), of node' row'] r b True
        by (simp add: errno_defs)
      from field_decode_store [OF fits b(2), of "row' ! reg_offset e"]
      have dec: "field_decode e (field_store e (field_quot e v') (row' ! reg_offset e))
                   = unat v' div pitch_of e * pitch_of e"
        by (simp add: field_quot_def)
      from wide_step_bits [OF keeps_field [OF fits q] len refl] s dec len True
      show ?thesis by simp
    next
      case False
      have s: "iqs323_parse_prop node' e row'
               = (0, row'[reg_offset e := subs_store e v' (row' ! reg_offset e)])"
        using iqs323_parse_prop_wide [OF fits h(2), of node' row'] r b False
        by (simp add: errno_defs)
      from wide_step_bits [OF keeps_subs [OF fits False b(2)] len refl] s len False
        subs_store_field [OF fits False b(2), of "row' ! reg_offset e"]
      show ?thesis by simp
    qed
  qed
  from 1 2 show ?thesis by blast
qed

definition counts_beta_desc :: iqs7219_prop_desc where
  "counts_beta_desc = iqs7219_prop ''azoteq,counts-beta-np'' IQS7219_REG_KEY_CHAN 0 8 4"

definition counts_beta_node :: fwnode where
  "counts_beta_node = Fwnode [(''azoteq,counts-beta-np'', [9])] []"

theorem wide_field_roundtrip_witness:
  "fst (iqs7219_parse_prop counts_beta_node counts_beta_desc (replicate 13 0xFFFF)) = 0
   \<and> field_decode counts_beta_desc
        (snd (iqs7219_parse_prop counts_beta_node counts_beta_desc (replicate 13 0xFFFF)) ! 0) = 9
   \<and> bit (snd (iqs7219_parse_prop counts_beta_node counts_beta_desc (replicate 13 0xFFFF)) ! 0) 7
   \<and> fst (iqs323_parse_prop (press_timeout_node 1500) press_timeout_desc (replicate 5 0x00FF)) = 0
   \<and> field_decode press_timeout_desc
        (snd (iqs323_parse_prop (press_timeout_node 1500) press_timeout_desc (replicate 5 0x00FF)) ! 2)
       = 1024
   \<and> bit (snd (iqs323_parse_prop (press_timeout_node 1500) press_timeout_desc (replicate 5 0x00FF)) ! 2) 7"
proof -
  have din: "counts_beta_desc \<in> set iqs7219_props"
    by (simp add: counts_beta_desc_def iqs7219_props_def)
  have ein: "press_timeout_desc \<in> set iqs323_props"
    by (simp add: press_timeout_desc_def iqs323_props_def)
  have fd: "reg_width counts_beta_desc \<noteq> 1" "reg_offset counts_beta_desc = 0"
    "val_min counts_beta_desc = 0" "max_of counts_beta_desc = 15"
    "\<not> in_span counts_beta_desc 7"
    by (simp_all add: counts_beta_desc_def iqs7219_prop_def max_of_def field_capacity_def
          pitch_of_def in_span_def)
  have fe: "reg_width press_timeout_desc \<noteq> 1" "reg_offset press_timeout_desc = 2"
    "val_min press_timeout_desc = 0" "max_of press_timeout_desc = 130560"
    "pitch_of press_timeout_desc = 512" "val_subs press_timeout_desc = []"
    "\<not> in_span press_timeout_desc 7"
    by (simp_all add: press_timeout_desc_def iqs323_prop_def max_of_def field_capacity_def
          pitch_of_def in_span_def)
  have rd: "fwnode_property_read_u32 counts_beta_node (name counts_beta_desc) = (0, 9)"
    by (simp add: counts_beta_node_def counts_beta_desc_def iqs7219_prop_def
          fwnode_property_read_u32_def)
  have re: "fwnode_property_read_u32 (press_timeout_node 1500) (name press_timeout_desc) = (0, 1500)"
    by (simp add: press_timeout_node_def press_timeout_desc_def iqs323_prop_def
          fwnode_property_read_u32_def)
  have b: "bit (0xFFFF :: u16) 7" "bit (0x00FF :: u16) 7"
    by (simp_all add: bit_iff_odd)
  note T = wide_field_roundtrip [where d = counts_beta_desc and e = press_timeout_desc
      and node = counts_beta_node and node' = "press_timeout_node 1500"
      and row = "replicate 13 0xFFFF" and row' = "replicate 5 0x00FF"
      and v = 9 and v' = 1500]
  from T din ein fd fe rd re b show ?thesis by simp
qed

section \<open>The scan multiplexer selector\<close>

definition scan_mux_tree :: fwnode where
  "scan_mux_tree = Fwnode [] [(''channel-0'', Fwnode [(''azoteq,scan-mux'', [6])] [])]"

lemma scan_mux_tree_parsed:
  "iqs7219_parse_chan scan_mux_tree iqs7219_idle 0 = (0, iqs7219_idle\<lparr>scan_mux := [6, 0]\<rparr>)"
  by code_simp

text \<open>C10. The selector value 6, the number of scan options itself, passes the bounds
  check of the firmware-node parser and of the attribute setter and is stored in
  \<open>scan_mux\<close>; the status report then indexes the six-element array \<open>scan\<close> of that
  channel at 6, one past its last element, and the channel's reported scan value has no
  element of the array to come from.\<close>

theorem iqs7219_scan_mux_off_the_end:
  "fst (iqs7219_parse_chan scan_mux_tree iqs7219_idle 0) = 0
   \<and> scan_mux (snd (iqs7219_parse_chan scan_mux_tree iqs7219_idle 0)) ! 0 = IQS7219_NUM_SCAN
   \<and> fst (iqs7219_scan_mux_set iqs7219_idle 0 IQS7219_NUM_SCAN) = 0
   \<and> scan_mux (snd (iqs7219_scan_mux_set iqs7219_idle 0 IQS7219_NUM_SCAN)) ! 0 = IQS7219_NUM_SCAN
   \<and> length (iqs7219_scan (le16_words status_block0) 1 0) = IQS7219_NUM_SCAN
   \<and> scan_at (iqs7219_scan (le16_words status_block0) 1 0) (int IQS7219_NUM_SCAN) = None
   \<and> scan_data (fst (snd (iqs7219_report_sync (ready_kernel status_block0)
        (snd (iqs7219_parse_chan scan_mux_tree iqs7219_idle 0)) (-1) (-1) False world0))) ! 0 = None"
  unfolding scan_mux_tree_parsed by code_simp

section \<open>Properties of the ATI trigger\<close>

text \<open>A bus on which nothing goes wrong: the ready line always reads asserted, every
  message is sent whole and every transfer completes.\<close>

definition bus_ready :: "kernel \<Rightarrow> bool" where
  "bus_ready K \<longleftrightarrow>
     (\<forall>n. 0 < gpio_value K n) \<and> (\<forall>n. 64 \<le> i2c_send_ret K n) \<and> (\<forall>n. 2 \<le> i2c_xfer_ret K n)
     \<and> (\<forall>n. 0 < poll_value K n)"

text \<open>The word the \<open>n\<close>-th bus read delivers first.\<close>

definition xfer_word :: "kernel \<Rightarrow> nat \<Rightarrow> u16" where
  "xfer_word K n = get_unaligned_le16 (xfer_bytes K 2 n)"

text \<open>The world after a register read and after a register write on such a bus.\<close>

definition iqs7219_after_read :: "u8 \<Rightarrow> nat \<Rightarrow> world \<Rightarrow> world" where
  "iqs7219_after_read reg len w =
     w\<lparr>now := now w + 50, gpio_reads := Suc (gpio_reads w), xfers := Suc (xfers w),
       trace := trace w @ [I2c_read [reg] len]\<rparr>"

definition iqs7219_after_write :: "u8 list \<Rightarrow> world \<Rightarrow> world" where
  "iqs7219_after_write msg w =
     w\<lparr>now := now w + 50, gpio_reads := Suc (gpio_reads w), sends := Suc (sends w),
       trace := trace w @ [I2c_send msg]\<rparr>"

lemma bus_ready_gpio:
  "bus_ready K \<Longrightarrow> 0 < gpio_value K n \<and> \<not> gpio_value K n < 0"
  by (auto simp: bus_ready_def dest: spec [of _ n])

lemma iqs7219_force_comms_bus_ready:
  "bus_ready K \<Longrightarrow> iqs7219_force_comms K w = (0, w\<lparr>gpio_reads := Suc (gpio_reads w)\<rparr>)"
  by (simp add: bus_ready_gpio iqs7219_force_comms_def gpiod_get_value_cansleep_def)

lemma iqs7219_irq_poll_bus_ready:
  "bus_ready K \<Longrightarrow>
     iqs7219_irq_poll K t w = (0, w\<lparr>now := now w + 1000, gpio_reads := Suc (gpio_reads w)\<rparr>)"
  by (subst iqs7219_irq_poll_def, subst iqs7219_irq_poll_until.simps)
     (simp add: bus_ready_gpio gpiod_get_value_cansleep_def usleep_range_def)

lemma iqs7219_read_word_bus_ready:
  assumes "bus_ready K" "xfer_word K (xfers w) \<noteq> 0xEEEE"
  shows "iqs7219_read_word K reg w = ((0, xfer_word K (xfers w)), iqs7219_after_read reg 2 w)"
proof -
  have x: "\<not> i2c_xfer_ret K (xfers w) < 2" using assms(1) by (simp add: bus_ready_def not_less)
  show ?thesis
    using assms(2) x
    by (simp add: iqs7219_read_word_def iqs7219_read_burst_def IQS7219_NUM_RETRIES_def
          eval_nat_numeral iqs7219_force_comms_bus_ready [OF assms(1)] i2c_transfer_def
          xfer_word_def xfer_bytes_def IQS7219_COMMS_ERROR_def usleep_range_def
          iqs7219_after_read_def)
qed

lemma iqs7219_write_burst_bus_ready:
  assumes "bus_ready K" "length val < 63"
  shows "iqs7219_write_burst K reg val w = (0, iqs7219_after_write (reg # val) w)"
proof -
  have "64 \<le> i2c_send_ret K (sends w)" using assms(1) by (simp add: bus_ready_def)
  then have x: "\<not> i2c_send_ret K (sends w) < 1 + int (length val)" using assms(2) by simp
  show ?thesis
    using x
    by (simp add: iqs7219_write_burst_def IQS7219_NUM_RETRIES_def
          eval_nat_numeral iqs7219_force_comms_bus_ready [OF assms(1)] i2c_master_send_def
          usleep_range_def iqs7219_after_write_def)
qed

lemma iqs7219_write_word_bus_ready:
  assumes "bus_ready K"
  shows "iqs7219_write_word K reg v w = (0, iqs7219_after_write (reg # le16_bytes v) w)"
  using iqs7219_write_burst_bus_ready [OF assms, of "le16_bytes v" reg w]
  by (simp add: iqs7219_write_word_def le16_bytes_def)

text \<open>The world after one pass of the wait loop of \<^verbatim>\<open>iqs7219_ati_trigger\<close> on such a bus:
  the ready line was polled once and the status register read.\<close>

definition iqs7219_after_status :: "world \<Rightarrow> world" where
  "iqs7219_after_status w =
     iqs7219_after_read IQS7219_SYS_STATUS 2
       (w\<lparr>now := now w + 1000, gpio_reads := Suc (gpio_reads w)\<rparr>)"

text \<open>The redo-ATI command and the restored system setup that \<^verbatim>\<open>iqs7219_ati_trigger\<close>
  writes, for the system setup word \<open>sys\<close> it read first.\<close>

definition iqs7219_redo_ati_msg :: "u16 \<Rightarrow> u8 list" where
  "iqs7219_redo_ati_msg sys =
     IQS7219_SYS_SETUP # le16_bytes
       (((sys AND NOT IQS7219_SYS_SETUP_INTF_MODE_MASK) AND NOT IQS7219_SYS_SETUP_PWR_MODE_MASK)
          OR IQS7219_SYS_SETUP_REDO_ATI)"

definition iqs7219_restore_msg :: "iqs7219_private \<Rightarrow> u16 \<Rightarrow> u8 list" where
  "iqs7219_restore_msg st sys =
     IQS7219_SYS_SETUP # le16_bytes ((sys AND NOT IQS7219_SYS_SETUP_INTF_MODE_MASK) OR intf_mode st)"

lemma iqs7219_after_status_simps [simp]:
  "xfers (iqs7219_after_status w) = Suc (xfers w)"
  "now (iqs7219_after_status w) = now w + 1050"
  "trace (iqs7219_after_status w) = trace w @ [I2c_read [IQS7219_SYS_STATUS] 2]"
  by (simp_all add: iqs7219_after_status_def iqs7219_after_read_def)

lemma iqs7219_after_write_simps [simp]:
  "xfers (iqs7219_after_write msg w) = xfers w"
  "now (iqs7219_after_write msg w) = now w + 50"
  "trace (iqs7219_after_write msg w) = trace w @ [I2c_send msg]"
  by (simp_all add: iqs7219_after_write_def)

lemma iqs7219_after_read_simps [simp]:
  "xfers (iqs7219_after_read reg len w) = Suc (xfers w)"
  "now (iqs7219_after_read reg len w) = now w + 50"
  "trace (iqs7219_after_read reg len w) = trace w @ [I2c_read [reg] len]"
  by (simp_all add: iqs7219_after_read_def)

lemma iqs7219_ati_wait_bus_ready:
  assumes "bus_ready K" "xfer_word K (xfers w) \<noteq> 0xEEEE"
  shows "iqs7219_ati_wait K mode sys t w =
     (if xfer_word K (xfers w) AND IQS7219_SYS_STATUS_ATI_ACTIVE \<noteq> 0 then
        (if now (iqs7219_after_status w) < t
         then iqs7219_ati_wait K mode sys t (iqs7219_after_status w)
         else (None, iqs7219_after_status w))
      else if xfer_word K (xfers w) AND IQS7219_SYS_STATUS_ATI_ERROR \<noteq> 0
      then (None, iqs7219_after_status w)
      else (Some 0, iqs7219_after_write (IQS7219_SYS_SETUP # le16_bytes (sys OR mode))
                      (iqs7219_after_status w)))"
proof -
  let ?w1 = "w\<lparr>now := now w + 1000, gpio_reads := Suc (gpio_reads w)\<rparr>"
  have r: "iqs7219_read_word K IQS7219_SYS_STATUS ?w1
             = ((0, xfer_word K (xfers w)), iqs7219_after_status w)"
    using iqs7219_read_word_bus_ready [OF assms(1), of ?w1 IQS7219_SYS_STATUS] assms(2)
    by (simp add: iqs7219_after_status_def)
  show ?thesis
    by (subst iqs7219_ati_wait.simps)
       (simp add: iqs7219_irq_poll_bus_ready [OF assms(1)] r
          iqs7219_write_word_bus_ready [OF assms(1)])
qed

text \<open>An attempt that ends on a status with the ATI-error bit.\<close>

definition iqs7219_failed_attempt :: "u8 list \<Rightarrow> world \<Rightarrow> world" where
  "iqs7219_failed_attempt msg w = iqs7219_after_status (iqs7219_after_write msg w)"

definition iqs7219_status_error :: "u16 \<Rightarrow> bool" where
  "iqs7219_status_error s \<longleftrightarrow>
     s \<noteq> 0xEEEE \<and> s AND IQS7219_SYS_STATUS_ATI_ACTIVE = 0 \<and> s AND IQS7219_SYS_STATUS_ATI_ERROR \<noteq> 0"

definition iqs7219_status_active :: "u16 \<Rightarrow> bool" where
  "iqs7219_status_active s \<longleftrightarrow> s \<noteq> 0xEEEE \<and> s AND IQS7219_SYS_STATUS_ATI_ACTIVE \<noteq> 0"

definition iqs7219_status_done :: "u16 \<Rightarrow> bool" where
  "iqs7219_status_done s \<longleftrightarrow>
     s \<noteq> 0xEEEE \<and> s AND IQS7219_SYS_STATUS_ATI_ACTIVE = 0 \<and> s AND IQS7219_SYS_STATUS_ATI_ERROR = 0"

lemma iqs7219_failed_attempt_simps [simp]:
  "xfers (iqs7219_failed_attempt msg w) = Suc (xfers w)"
  "trace (iqs7219_failed_attempt msg w) = trace w @ [I2c_send msg, I2c_read [IQS7219_SYS_STATUS] 2]"
  by (simp_all add: iqs7219_failed_attempt_def)

lemma iqs7219_ati_attempts_errors:
  assumes "bus_ready K"
  shows "\<forall>k<n. iqs7219_status_error (xfer_word K (xfers w + k)) \<Longrightarrow>
     iqs7219_ati_attempts n K mode sys w
       = (- ETIMEDOUT,
          (iqs7219_failed_attempt
             (IQS7219_SYS_SETUP # le16_bytes
                ((sys AND NOT IQS7219_SYS_SETUP_PWR_MODE_MASK) OR IQS7219_SYS_SETUP_REDO_ATI)) ^^ n) w)"
proof (induction n arbitrary: w)
  case 0
  then show ?case by simp
next
  case (Suc n)
  let ?msg = "IQS7219_SYS_SETUP # le16_bytes
                ((sys AND NOT IQS7219_SYS_SETUP_PWR_MODE_MASK) OR IQS7219_SYS_SETUP_REDO_ATI)"
  let ?w1 = "iqs7219_after_write ?msg w"
  from Suc.prems have s0: "iqs7219_status_error (xfer_word K (xfers w))"
    by (metis add.right_neutral zero_less_Suc)
  then have wait: "iqs7219_ati_wait K mode sys (now ?w1 + 1000 * IQS7219_ATI_TIMEOUT_MS) ?w1
      = (None, iqs7219_failed_attempt ?msg w)"
    using iqs7219_ati_wait_bus_ready [OF assms, of ?w1]
    by (simp add: iqs7219_status_error_def iqs7219_failed_attempt_def)
  have "\<forall>k<n. iqs7219_status_error (xfer_word K (xfers (iqs7219_failed_attempt ?msg w) + k))"
    using Suc.prems by (auto dest: spec [of _ "Suc _"])
  from Suc.IH [OF this] wait show ?case
    by (simp add: iqs7219_write_word_bus_ready [OF assms] funpow_swap1)
qed

lemma failed_attempts_trace:
  "trace ((iqs7219_failed_attempt msg ^^ n) w)
     = trace w @ concat (replicate n [I2c_send msg, I2c_read [IQS7219_SYS_STATUS] 2])"
  by (induction n arbitrary: w) (simp_all add: funpow_swap1)

lemma iqs7219_ati_trigger_errors:
  assumes "bus_ready K" "xfer_word K (xfers w) \<noteq> 0xEEEE"
    and "\<forall>k<5. iqs7219_status_error (xfer_word K (xfers w + 1 + k))"
  shows "fst (iqs7219_ati_trigger K st w) = - ETIMEDOUT
       \<and> trace (snd (iqs7219_ati_trigger K st w))
           = trace w @ I2c_read [IQS7219_SYS_SETUP] 2
               # concat (replicate 5 [I2c_send (iqs7219_redo_ati_msg (xfer_word K (xfers w))),
                                       I2c_read [IQS7219_SYS_STATUS] 2])"
proof -
  let ?w1 = "iqs7219_after_read IQS7219_SYS_SETUP 2 w"
  have e: "\<forall>k<5. iqs7219_status_error (xfer_word K (xfers ?w1 + k))"
    using assms(3) by simp
  show ?thesis
    unfolding iqs7219_ati_trigger_def iqs7219_read_word_bus_ready [OF assms(1,2)] prod.case
      IQS7219_NUM_RETRIES_def iqs7219_ati_attempts_errors [OF assms(1) e]
    by (simp add: failed_attempts_trace iqs7219_redo_ati_msg_def)
qed

lemma iqs7219_ati_trigger_done:
  assumes "bus_ready K" "xfer_word K (xfers w) \<noteq> 0xEEEE"
    and "iqs7219_status_active (xfer_word K (xfers w + 1))"
    and "iqs7219_status_active (xfer_word K (xfers w + 2))"
    and "iqs7219_status_done (xfer_word K (xfers w + 3))"
  shows "fst (iqs7219_ati_trigger K st w) = 0
       \<and> trace (snd (iqs7219_ati_trigger K st w))
           = trace w @ [I2c_read [IQS7219_SYS_SETUP] 2,
                        I2c_send (iqs7219_redo_ati_msg (xfer_word K (xfers w))),
                        I2c_read [IQS7219_SYS_STATUS] 2,
                        I2c_read [IQS7219_SYS_STATUS] 2,
                        I2c_read [IQS7219_SYS_STATUS] 2,
                        I2c_send (iqs7219_restore_msg st (xfer_word K (xfers w)))]"
proof -
  let ?sys = "xfer_word K (xfers w) AND NOT IQS7219_SYS_SETUP_INTF_MODE_MASK"
  let ?w1 = "iqs7219_after_read IQS7219_SYS_SETUP 2 w"
  let ?w2 = "iqs7219_after_write (iqs7219_redo_ati_msg (xfer_word K (xfers w))) ?w1"
  let ?t = "now ?w2 + 1000 * IQS7219_ATI_TIMEOUT_MS"
  let ?w3 = "iqs7219_after_status ?w2"
  let ?w4 = "iqs7219_after_status ?w3"
  let ?w5 = "iqs7219_after_status ?w4"
  have s1: "iqs7219_status_active (xfer_word K (xfers ?w2))"
    and s2: "iqs7219_status_active (xfer_word K (xfers ?w3))"
    and s3: "iqs7219_status_done (xfer_word K (xfers ?w4))"
    using assms(3-5) by (simp_all add: numeral_2_eq_2 numeral_3_eq_3)
  have t: "now ?w3 < ?t" "now ?w4 < ?t"
    by (simp_all add: IQS7219_ATI_TIMEOUT_MS_def)
  have 3: "iqs7219_ati_wait K (intf_mode st) ?sys ?t ?w4
             = (Some 0, iqs7219_after_write (iqs7219_restore_msg st (xfer_word K (xfers w))) ?w5)"
    using iqs7219_ati_wait_bus_ready [OF assms(1), of ?w4 "intf_mode st" ?sys ?t] s3
    by (simp add: iqs7219_status_done_def iqs7219_restore_msg_def)
  have 2: "iqs7219_ati_wait K (intf_mode st) ?sys ?t ?w3 = iqs7219_ati_wait K (intf_mode st) ?sys ?t ?w4"
    using iqs7219_ati_wait_bus_ready [OF assms(1), of ?w3 "intf_mode st" ?sys ?t] s2 t(2)
    by (simp add: iqs7219_status_active_def)
  have 1: "iqs7219_ati_wait K (intf_mode st) ?sys ?t ?w2 = iqs7219_ati_wait K (intf_mode st) ?sys ?t ?w3"
    using iqs7219_ati_wait_bus_ready [OF assms(1), of ?w2 "intf_mode st" ?sys ?t] s1 t(1)
    by (simp add: iqs7219_status_active_def)
  have w: "iqs7219_write_word K IQS7219_SYS_SETUP
             ((?sys AND NOT IQS7219_SYS_SETUP_PWR_MODE_MASK) OR IQS7219_SYS_SETUP_REDO_ATI) ?w1
           = (0, ?w2)"
    by (simp add: iqs7219_write_word_bus_ready [OF assms(1)] iqs7219_redo_ati_msg_def)
  have a: "iqs7219_ati_attempts (Suc 4) K (intf_mode st) ?sys ?w1
          = (0, iqs7219_after_write (iqs7219_restore_msg st (xfer_word K (xfers w))) ?w5)"
    unfolding iqs7219_ati_attempts.simps w prod.case 1 2 3 by simp
  have five: "IQS7219_NUM_RETRIES = Suc 4" by (simp add: IQS7219_NUM_RETRIES_def)
  have "iqs7219_ati_trigger K st w
          = (0, iqs7219_after_write (iqs7219_restore_msg st (xfer_word K (xfers w))) ?w5)"
    unfolding iqs7219_ati_trigger_def iqs7219_read_word_bus_ready [OF assms(1,2)] prod.case
      five a by simp
  then show ?thesis by simp
qed

definition iqs323_after_read :: "u8 \<Rightarrow> nat \<Rightarrow> world \<Rightarrow> world" where
  "iqs323_after_read reg len w =
     w\<lparr>now := now w + 2500, gpio_reads := Suc (gpio_reads w), xfers := Suc (xfers w),
       trace := trace w @ [I2c_read [reg] len]\<rparr>"

definition iqs323_after_write :: "u8 list \<Rightarrow> world \<Rightarrow> world" where
  "iqs323_after_write msg w =
     w\<lparr>now := now w + 2500, gpio_reads := Suc (gpio_reads w), sends := Suc (sends w),
       trace := trace w @ [I2c_send msg]\<rparr>"

lemma iqs323_after_read_simps [simp]:
  "xfers (iqs323_after_read reg len w) = Suc (xfers w)"
  "trace (iqs323_after_read reg len w) = trace w @ [I2c_read [reg] len]"
  by (simp_all add: iqs323_after_read_def)

lemma iqs323_after_write_simps [simp]:
  "xfers (iqs323_after_write msg w) = xfers w"
  "trace (iqs323_after_write msg w) = trace w @ [I2c_send msg]"
  by (simp_all add: iqs323_after_write_def)

lemma bus_ready_poll:
  "bus_ready K \<Longrightarrow> poll_value K n \<noteq> 0 \<and> \<not> poll_value K n < 0"
  by (auto simp: bus_ready_def dest: spec [of _ n])

lemma iqs323_irq_poll_bus_ready:
  "bus_ready K \<Longrightarrow> iqs323_irq_poll K t w = (0, w\<lparr>polls := Suc (polls w)\<rparr>)"
  by (simp add: iqs323_irq_poll_def readx_poll_timeout_def Let_def bus_ready_poll)

lemma iqs323_force_comms_bus_ready:
  "bus_ready K \<Longrightarrow> iqs323_force_comms K w = (0, w\<lparr>gpio_reads := Suc (gpio_reads w)\<rparr>)"
  by (simp add: bus_ready_gpio iqs323_force_comms_def gpiod_get_value_cansleep_def)

lemma iqs323_read_word_bus_ready:
  assumes "bus_ready K" "xfer_word K (xfers w) \<noteq> 0xEEEE"
  shows "iqs323_read_word K reg w = ((0, xfer_word K (xfers w)), iqs323_after_read reg 2 w)"
proof -
  have x: "\<not> i2c_xfer_ret K (xfers w) < 2" using assms(1) by (simp add: bus_ready_def not_less)
  show ?thesis
    using assms(2) x
    by (simp add: iqs323_read_word_def iqs323_read_burst_def IQS323_NUM_RETRIES_def
          eval_nat_numeral iqs323_force_comms_bus_ready [OF assms(1)] i2c_transfer_def
          xfer_word_def xfer_bytes_def IQS323_COMMS_ERROR_def usleep_range_def
          iqs323_irq_wait_def iqs323_after_read_def)
qed

lemma iqs323_write_burst_bus_ready:
  assumes "bus_ready K" "length val < 63"
  shows "iqs323_write_burst K reg val w = (0, iqs323_after_write (reg # val) w)"
proof -
  have "64 \<le> i2c_send_ret K (sends w)" using assms(1) by (simp add: bus_ready_def)
  then have x: "\<not> i2c_send_ret K (sends w) < 1 + int (length val)" using assms(2) by simp
  show ?thesis
    using x
    by (simp add: iqs323_write_burst_def IQS323_NUM_RETRIES_def
          eval_nat_numeral iqs323_force_comms_bus_ready [OF assms(1)] i2c_master_send_def
          usleep_range_def iqs323_irq_wait_def iqs323_after_write_def)
qed

lemma iqs323_write_word_bus_ready:
  assumes "bus_ready K"
  shows "iqs323_write_word K reg v w = (0, iqs323_after_write (reg # le16_bytes v) w)"
  using iqs323_write_burst_bus_ready [OF assms, of "le16_bytes v" reg w]
  by (simp add: iqs323_write_word_def le16_bytes_def)

text \<open>The message \<^verbatim>\<open>iqs323_write_mode\<close> puts on the bus.\<close>

definition iqs323_mode_msg ::
  "iqs323_private \<Rightarrow> iqs323_intf_mode_id \<Rightarrow> iqs323_power_mode_id \<Rightarrow> u16 \<Rightarrow> u8 list" where
  "iqs323_mode_msg st mode power_mode cmd =
     (let s0 = q_sys_setup st ! 0 OR cmd;
          s1 = (if mode = IQS323_INTF_MODE_EVENT then s0 OR IQS323_SYS_SETUP_EVENT_MODE
                else s0 AND NOT IQS323_SYS_SETUP_EVENT_MODE);
          s2 = (if power_mode \<noteq> IQS323_POWER_MODE_USER
                then (s1 AND NOT IQS323_SYS_SETUP_POWER_MODE_MASK)
                       OR push_bit IQS323_SYS_SETUP_POWER_MODE_SHIFT (iqs323_power_mode_val power_mode)
                else s1)
      in IQS323_SYS_SETUP # le16_bytes s2)"

lemma iqs323_write_mode_bus_ready:
  assumes "bus_ready K"
  shows "iqs323_write_mode K st mode power_mode cmd w
           = ((0, st\<lparr>q_intf_mode := mode\<rparr>),
              iqs323_after_write (iqs323_mode_msg st mode power_mode cmd) w)"
  by (simp add: iqs323_write_mode_def iqs323_mode_msg_def Let_def
        iqs323_write_word_bus_ready [OF assms])

lemma iqs323_mode_msg_intf [simp]:
  "iqs323_mode_msg (st\<lparr>q_intf_mode := m\<rparr>) mode power_mode cmd = iqs323_mode_msg st mode power_mode cmd"
  by (simp add: iqs323_mode_msg_def)

text \<open>The world after one attempt of \<^verbatim>\<open>iqs323_ati_trigger\<close> that reaches the status read.\<close>

definition iqs323_redo_ati_msg :: "iqs323_private \<Rightarrow> u8 list" where
  "iqs323_redo_ati_msg st =
     iqs323_mode_msg st IQS323_INTF_MODE_STREAM IQS323_POWER_MODE_USER IQS323_SYS_SETUP_REDO_ATI"

definition iqs323_attempt :: "u8 list \<Rightarrow> world \<Rightarrow> world" where
  "iqs323_attempt msg w =
     iqs323_after_read IQS323_SYS_STATUS 2 ((iqs323_after_write msg w)\<lparr>polls := Suc (polls w)\<rparr>)"

lemma iqs323_attempt_simps [simp]:
  "xfers (iqs323_attempt msg w) = Suc (xfers w)"
  "trace (iqs323_attempt msg w) = trace w @ [I2c_send msg, I2c_read [IQS323_SYS_STATUS] 2]"
  by (simp_all add: iqs323_attempt_def iqs323_after_write_def)

lemma iqs323_ati_attempts_bus_ready:
  assumes "bus_ready K" "xfer_word K (xfers w) \<noteq> 0xEEEE"
  shows "iqs323_ati_attempts (Suc n) K st e0 w =
     (if xfer_word K (xfers w) AND IQS323_SYS_STATUS_RESET \<noteq> 0
      then ((0, st\<lparr>q_intf_mode := IQS323_INTF_MODE_STREAM\<rparr>), iqs323_attempt (iqs323_redo_ati_msg st) w)
      else if xfer_word K (xfers w) AND IQS323_SYS_STATUS_ATI_ERROR \<noteq> 0
      then iqs323_ati_attempts n K (st\<lparr>q_intf_mode := IQS323_INTF_MODE_STREAM\<rparr>) (- EIO)
             (iqs323_attempt (iqs323_redo_ati_msg st) w)
      else if xfer_word K (xfers w) AND IQS323_SYS_STATUS_ATI_ACTIVE \<noteq> 0
      then iqs323_ati_attempts n K (st\<lparr>q_intf_mode := IQS323_INTF_MODE_STREAM\<rparr>) (- EBUSY)
             (iqs323_attempt (iqs323_redo_ati_msg st) w)
      else ((0, st\<lparr>q_intf_mode := IQS323_INTF_MODE_STREAM\<rparr>), iqs323_attempt (iqs323_redo_ati_msg st) w))"
proof -
  let ?w1 = "iqs323_after_write (iqs323_redo_ati_msg st) w"
  let ?w2 = "?w1\<lparr>polls := Suc (polls ?w1)\<rparr>"
  have p: "polls ?w1 = polls w" by (simp add: iqs323_after_write_def)
  have r: "iqs323_read_word K IQS323_SYS_STATUS ?w2
             = ((0, xfer_word K (xfers w)), iqs323_attempt (iqs323_redo_ati_msg st) w)"
    using iqs323_read_word_bus_ready [OF assms(1), of ?w2 IQS323_SYS_STATUS] assms(2)
    by (simp add: iqs323_attempt_def p)
  show ?thesis
    unfolding iqs323_ati_attempts.simps iqs323_write_mode_bus_ready [OF assms(1)] prod.case
      iqs323_irq_poll_bus_ready [OF assms(1)]
      iqs323_redo_ati_msg_def [symmetric] r
    by simp
qed

definition iqs323_status_error :: "u16 \<Rightarrow> bool" where
  "iqs323_status_error s \<longleftrightarrow>
     s \<noteq> 0xEEEE \<and> s AND IQS323_SYS_STATUS_RESET = 0 \<and> s AND IQS323_SYS_STATUS_ATI_ERROR \<noteq> 0"

definition iqs323_status_active :: "u16 \<Rightarrow> bool" where
  "iqs323_status_active s \<longleftrightarrow>
     s \<noteq> 0xEEEE \<and> s AND IQS323_SYS_STATUS_RESET = 0 \<and> s AND IQS323_SYS_STATUS_ATI_ERROR = 0
     \<and> s AND IQS323_SYS_STATUS_ATI_ACTIVE \<noteq> 0"

definition iqs323_status_done :: "u16 \<Rightarrow> bool" where
  "iqs323_status_done s \<longleftrightarrow>
     s \<noteq> 0xEEEE \<and> s AND IQS323_SYS_STATUS_RESET = 0 \<and> s AND IQS323_SYS_STATUS_ATI_ERROR = 0
     \<and> s AND IQS323_SYS_STATUS_ATI_ACTIVE = 0"

lemma iqs323_redo_ati_msg_intf [simp]:
  "iqs323_redo_ati_msg (st\<lparr>q_intf_mode := m\<rparr>) = iqs323_redo_ati_msg st"
  by (simp add: iqs323_redo_ati_msg_def)

lemma iqs323_ati_attempts_errors:
  assumes "bus_ready K"
  shows "\<forall>k<n. iqs323_status_error (xfer_word K (xfers w + k)) \<Longrightarrow>
     iqs323_ati_attempts n K st e0 w
       = ((if n = 0 then e0 else - EIO,
           if n = 0 then st else st\<lparr>q_intf_mode := IQS323_INTF_MODE_STREAM\<rparr>),
          (iqs323_attempt (iqs323_redo_ati_msg st) ^^ n) w)"
proof (induction n arbitrary: w st e0)
  case 0
  then show ?case by simp
next
  case (Suc n)
  from Suc.prems have s0: "iqs323_status_error (xfer_word K (xfers w))"
    by (metis add.right_neutral zero_less_Suc)
  have "\<forall>k<n. iqs323_status_error
          (xfer_word K (xfers (iqs323_attempt (iqs323_redo_ati_msg st) w) + k))"
    using Suc.prems by (auto dest: spec [of _ "Suc _"])
  from Suc.IH [OF this, of "st\<lparr>q_intf_mode := IQS323_INTF_MODE_STREAM\<rparr>" "- EIO"] s0
  show ?case
    using iqs323_ati_attempts_bus_ready [OF assms, of w n st e0]
    by (simp add: iqs323_status_error_def funpow_swap1 del: iqs323_ati_attempts.simps)
qed

lemma iqs323_attempts_trace:
  "trace ((iqs323_attempt msg ^^ n) w)
     = trace w @ concat (replicate n [I2c_send msg, I2c_read [IQS323_SYS_STATUS] 2])"
  by (induction n arbitrary: w) (simp_all add: funpow_swap1)

lemma iqs323_ati_trigger_errors:
  assumes "bus_ready K" "\<forall>k<5. iqs323_status_error (xfer_word K (xfers w + k))"
  shows "fst (fst (iqs323_ati_trigger K st w)) = - EIO
       \<and> trace (snd (iqs323_ati_trigger K st w))
           = trace w @ concat (replicate 5 [I2c_send (iqs323_redo_ati_msg st),
                                            I2c_read [IQS323_SYS_STATUS] 2])"
  unfolding iqs323_ati_trigger_def IQS323_NUM_RETRIES_def
    iqs323_ati_attempts_errors [OF assms]
  by (simp add: iqs323_attempts_trace)

lemma iqs323_ati_trigger_done:
  assumes "bus_ready K"
    and "iqs323_status_active (xfer_word K (xfers w))"
    and "iqs323_status_active (xfer_word K (xfers w + 1))"
    and "iqs323_status_done (xfer_word K (xfers w + 2))"
  shows "fst (fst (iqs323_ati_trigger K st w)) = 0
       \<and> trace (snd (iqs323_ati_trigger K st w))
           = trace w @ [I2c_send (iqs323_redo_ati_msg st), I2c_read [IQS323_SYS_STATUS] 2,
                        I2c_send (iqs323_redo_ati_msg st), I2c_read [IQS323_SYS_STATUS] 2,
                        I2c_send (iqs323_redo_ati_msg st), I2c_read [IQS323_SYS_STATUS] 2]"
proof -
  let ?m = "iqs323_redo_ati_msg st"
  let ?st = "st\<lparr>q_intf_mode := IQS323_INTF_MODE_STREAM\<rparr>"
  let ?w1 = "iqs323_attempt ?m w"
  let ?w2 = "iqs323_attempt ?m ?w1"
  have s1: "iqs323_status_active (xfer_word K (xfers ?w1))"
    and s2: "iqs323_status_done (xfer_word K (xfers ?w2))"
    using assms(3,4) by (simp_all add: numeral_2_eq_2)
  have 3: "iqs323_ati_attempts (Suc 2) K ?st (- EBUSY) ?w2 = ((0, ?st), iqs323_attempt ?m ?w2)"
    using iqs323_ati_attempts_bus_ready [OF assms(1), of ?w2 2 ?st "- EBUSY"] s2
    by (simp add: iqs323_status_done_def del: iqs323_ati_attempts.simps)
  have 2: "iqs323_ati_attempts (Suc 3) K ?st (- EBUSY) ?w1
             = iqs323_ati_attempts (Suc 2) K ?st (- EBUSY) ?w2"
    using iqs323_ati_attempts_bus_ready [OF assms(1), of ?w1 3 ?st "- EBUSY"] s1
    by (simp add: iqs323_status_active_def numeral_3_eq_3 del: iqs323_ati_attempts.simps)
  have 1: "iqs323_ati_attempts (Suc 4) K st 0 w
             = iqs323_ati_attempts (Suc 3) K ?st (- EBUSY) ?w1"
    using iqs323_ati_attempts_bus_ready [OF assms(1), of w 4 st 0] assms(2)
    by (simp add: iqs323_status_active_def eval_nat_numeral del: iqs323_ati_attempts.simps)
  have five: "IQS323_NUM_RETRIES = Suc 4" by (simp add: IQS323_NUM_RETRIES_def)
  show ?thesis
    unfolding iqs323_ati_trigger_def five 1 2 3 by simp
qed

lemma get_unaligned_le16_bytes: "get_unaligned_le16 (le16_bytes v) = v"
  unfolding get_unaligned_le16_def le16_bytes_def
  by (rule bit_eqI) (auto simp: bit_simps)

text \<open>A kernel on whose bus nothing fails and whose \<open>n\<close>-th bus read delivers the \<open>n\<close>-th
  word of a script, zero after its end.\<close>

definition status_kernel :: "u16 list \<Rightarrow> kernel" where
  "status_kernel ws = \<lparr>gpio_value = (\<lambda>n. 1), i2c_send_ret = (\<lambda>n. 64), i2c_xfer_ret = (\<lambda>n. 2),
     i2c_xfer_data = (\<lambda>n. le16_bytes (if n < length ws then ws ! n else 0)),
     poll_value = (\<lambda>n. 1)\<rparr>"

lemma status_kernel_ready: "bus_ready (status_kernel ws)"
  by (simp add: bus_ready_def status_kernel_def)

lemma status_kernel_word:
  "xfer_word (status_kernel ws) n = (if n < length ws then ws ! n else 0)"
proof -
  have "take 2 (le16_bytes v @ [0, 0]) = le16_bytes v" for v
    by (simp add: le16_bytes_def)
  then show ?thesis
    by (simp add: xfer_word_def xfer_bytes_def status_kernel_def get_unaligned_le16_bytes
          numeral_2_eq_2)
qed

text \<open>An IQS323 of the release variant with an empty register image.\<close>

definition iqs323_idle :: iqs323_private where
  "iqs323_idle = \<lparr>q_dev_desc = hd iqs323_devs, q_abs = False, q_intf_mode = IQS323_INTF_MODE_EVENT,
     q_kp_type = replicate 3 (replicate 3 0), q_kp_code = replicate 3 (replicate 3 0),
     q_sl_code = replicate 7 0, q_sl_axis = 0,
     q_snsr_setup = replicate 3 (replicate 10 0), q_chan_setup = replicate 3 (replicate 5 0),
     q_sldr_setup = replicate 9 0, q_gest_setup = replicate 7 0, q_filt_setup = replicate 5 0,
     q_sys_setup = replicate 6 0, q_gen_setup = replicate 5 0, q_wear_mask = 0\<rparr>"

lemma word_cases5: "(\<forall>k<5. P k) \<longleftrightarrow> P (0::nat) \<and> P 1 \<and> P 2 \<and> P 3 \<and> P 4"
proof -
  have "\<And>i::nat. i < 5 \<longleftrightarrow> i = 0 \<or> i = 1 \<or> i = 2 \<or> i = 3 \<or> i = 4" by arith
  then show ?thesis by auto
qed

lemma iqs323_status_values:
  "iqs323_status_error 0x40" "iqs323_status_active 0x20" "iqs323_status_done 0"
  by (simp_all add: iqs323_status_error_def iqs323_status_active_def iqs323_status_done_def
        IQS323_SYS_STATUS_RESET_def IQS323_SYS_STATUS_ATI_ERROR_def
        IQS323_SYS_STATUS_ATI_ACTIVE_def BIT_def)

lemma iqs7219_status_values:
  "iqs7219_status_error 0x200" "iqs7219_status_active 0x100" "iqs7219_status_done 0"
  by (simp_all add: iqs7219_status_error_def iqs7219_status_active_def iqs7219_status_done_def
        IQS7219_SYS_STATUS_ATI_ERROR_def IQS7219_SYS_STATUS_ATI_ACTIVE_def BIT_def)

text \<open>C1, as claimed, fails on the IQS323: five attempts whose status reads show the
  ATI-error bit end with \<open>-EIO\<close>, not with \<open>-ETIMEDOUT\<close>, and the run over the statuses
  active, active, neither succeeds on a status read, the redo-ATI command written three
  times and no write of the system setup after it.\<close>

theorem iqs323_ati_trigger_not_as_claimed:
  "fst (fst (iqs323_ati_trigger (status_kernel [0x40, 0x40, 0x40, 0x40, 0x40]) iqs323_idle world0))
     = - EIO
   \<and> - EIO \<noteq> - ETIMEDOUT
   \<and> fst (fst (iqs323_ati_trigger (status_kernel [0x20, 0x20, 0]) iqs323_idle world0)) = 0
   \<and> trace (snd (iqs323_ati_trigger (status_kernel [0x20, 0x20, 0]) iqs323_idle world0))
       = [I2c_send [0xC0, 4, 0], I2c_read [0x10] 2,
          I2c_send [0xC0, 4, 0], I2c_read [0x10] 2,
          I2c_send [0xC0, 4, 0], I2c_read [0x10] 2]"
proof -
  have x: "xfers world0 = 0" "trace world0 = []" by (simp_all add: world0_def)
  have e: "\<forall>k<5. iqs323_status_error
             (xfer_word (status_kernel [0x40, 0x40, 0x40, 0x40, 0x40]) (xfers world0 + k))"
    unfolding word_cases5 by (simp add: x status_kernel_word iqs323_status_values)
  have a: "iqs323_status_active (xfer_word (status_kernel [0x20, 0x20, 0]) (xfers world0))"
    "iqs323_status_active (xfer_word (status_kernel [0x20, 0x20, 0]) (xfers world0 + 1))"
    "iqs323_status_done (xfer_word (status_kernel [0x20, 0x20, 0]) (xfers world0 + 2))"
    by (simp_all add: x status_kernel_word iqs323_status_values)
  have m: "iqs323_redo_ati_msg iqs323_idle = [0xC0, 4, 0]"
    by (simp add: iqs323_redo_ati_msg_def iqs323_mode_msg_def iqs323_idle_def
          IQS323_SYS_SETUP_def IQS323_SYS_SETUP_REDO_ATI_def IQS323_SYS_SETUP_EVENT_MODE_def
          BIT_def le16_bytes_def)
  from iqs323_ati_trigger_errors [OF status_kernel_ready e, of iqs323_idle]
    iqs323_ati_trigger_done [OF status_kernel_ready a, of iqs323_idle]
  show ?thesis
    by (simp add: x m errno_defs IQS323_SYS_STATUS_def)
qed

text \<open>C1, amended. On a bus on which nothing fails, \<^verbatim>\<open>iqs7219_ati_trigger\<close> reads the
  system setup, writes the redo-ATI command and then polls the ready line and reads the
  status register until the ATI-active bit clears: over the statuses active, active,
  neither it succeeds, its last act being a write of the system setup with the
  configured communication mode restored; over five statuses with the ATI-error bit,
  one per attempt, each after a new redo-ATI command, it fails with \<open>-ETIMEDOUT\<close>.
  \<^verbatim>\<open>iqs323_ati_trigger\<close> writes the redo-ATI command at the start of every attempt and
  reads the status once per attempt: over the statuses active, active, neither it
  succeeds on the third attempt and writes nothing after the last status read; over
  five statuses with the ATI-error bit it fails with \<open>-EIO\<close>.\<close>

theorem ati_trigger_outcomes:
  "(bus_ready K1 \<and> xfer_word K1 (xfers w1) \<noteq> 0xEEEE
      \<and> iqs7219_status_active (xfer_word K1 (xfers w1 + 1))
      \<and> iqs7219_status_active (xfer_word K1 (xfers w1 + 2))
      \<and> iqs7219_status_done (xfer_word K1 (xfers w1 + 3)) \<longrightarrow>
      fst (iqs7219_ati_trigger K1 st1 w1) = 0
    \<and> trace (snd (iqs7219_ati_trigger K1 st1 w1))
        = trace w1 @ [I2c_read [IQS7219_SYS_SETUP] 2,
                      I2c_send (iqs7219_redo_ati_msg (xfer_word K1 (xfers w1))),
                      I2c_read [IQS7219_SYS_STATUS] 2,
                      I2c_read [IQS7219_SYS_STATUS] 2,
                      I2c_read [IQS7219_SYS_STATUS] 2,
                      I2c_send (iqs7219_restore_msg st1 (xfer_word K1 (xfers w1)))])
   \<and> (bus_ready K2 \<and> xfer_word K2 (xfers w2) \<noteq> 0xEEEE
      \<and> (\<forall>k<5. iqs7219_status_error (xfer_word K2 (xfers w2 + 1 + k))) \<longrightarrow>
      fst (iqs7219_ati_trigger K2 st2 w2) = - ETIMEDOUT
    \<and> trace (snd (iqs7219_ati_trigger K2 st2 w2))
        = trace w2 @ I2c_read [IQS7219_SYS_SETUP] 2
            # concat (replicate 5 [I2c_send (iqs7219_redo_ati_msg (xfer_word K2 (xfers w2))),
                                    I2c_read [IQS7219_SYS_STATUS] 2]))
   \<and> (bus_ready K3
      \<and> iqs323_status_active (xfer_word K3 (xfers w3))
      \<and> iqs323_status_active (xfer_word K3 (xfers w3 + 1))
      \<and> iqs323_status_done (xfer_word K3 (xfers w3 + 2)) \<longrightarrow>
      fst (fst (iqs323_ati_trigger K3 st3 w3)) = 0
    \<and> trace (snd (iqs323_ati_trigger K3 st3 w3))
        = trace w3 @ [I2c_send (iqs323_redo_ati_msg st3), I2c_read [IQS323_SYS_STATUS] 2,
                      I2c_send (iqs323_redo_ati_msg st3), I2c_read [IQS323_SYS_STATUS] 2,
                      I2c_send (iqs323_redo_ati_msg st3), I2c_read [IQS323_SYS_STATUS] 2])
   \<and> (bus_ready K4 \<and> (\<forall>k<5. iqs323_status_error (xfer_word K4 (xfers w4 + k))) \<longrightarrow>
      fst (fst (iqs323_ati_trigger K4 st4 w4)) = - EIO
    \<and> trace (snd (iqs323_ati_trigger K4 st4 w4))
        = trace w4 @ concat (replicate 5 [I2c_send (iqs323_redo_ati_msg st4),
                                          I2c_read [IQS323_SYS_STATUS] 2]))"
  using iqs7219_ati_trigger_done [of K1 w1 st1] iqs7219_ati_trigger_errors [of K2 w2 st2]
    iqs323_ati_trigger_done [of K3 w3 st3] iqs323_ati_trigger_errors [of K4 w4 st4]
  by blast

theorem ati_trigger_outcomes_witness:
  "fst (iqs7219_ati_trigger (status_kernel [0x00C3, 0x100, 0x100, 0])
          (iqs7219_idle\<lparr>intf_mode := 0x40\<rparr>) world0) = 0
   \<and> trace (snd (iqs7219_ati_trigger (status_kernel [0x00C3, 0x100, 0x100, 0])
          (iqs7219_idle\<lparr>intf_mode := 0x40\<rparr>) world0))
       = [I2c_read [0x80] 2, I2c_send [0x80, 0x07, 0], I2c_read [0x10] 2, I2c_read [0x10] 2,
          I2c_read [0x10] 2, I2c_send [0x80, 0x43, 0]]
   \<and> fst (iqs7219_ati_trigger (status_kernel [0x00C3, 0x200, 0x200, 0x200, 0x200, 0x200])
          iqs7219_idle world0) = - ETIMEDOUT
   \<and> length (trace (snd (iqs7219_ati_trigger
          (status_kernel [0x00C3, 0x200, 0x200, 0x200, 0x200, 0x200]) iqs7219_idle world0))) = 11
   \<and> fst (fst (iqs323_ati_trigger (status_kernel [0x20, 0x20, 0]) iqs323_idle world0)) = 0
   \<and> length (trace (snd (iqs323_ati_trigger (status_kernel [0x20, 0x20, 0]) iqs323_idle world0))) = 6
   \<and> fst (fst (iqs323_ati_trigger (status_kernel [0x40, 0x40, 0x40, 0x40, 0x40])
          iqs323_idle world0)) = - EIO
   \<and> length (trace (snd (iqs323_ati_trigger (status_kernel [0x40, 0x40, 0x40, 0x40, 0x40])
          iqs323_idle world0))) = 10"
proof -
  let ?K1 = "status_kernel [0x00C3, 0x100, 0x100, 0]"
  let ?K2 = "status_kernel [0x00C3, 0x200, 0x200, 0x200, 0x200, 0x200]"
  let ?K3 = "status_kernel [0x20, 0x20, 0]"
  let ?K4 = "status_kernel [0x40, 0x40, 0x40, 0x40, 0x40]"
  have x: "xfers world0 = 0" "trace world0 = []" by (simp_all add: world0_def)
  have h1: "xfer_word ?K1 (xfers world0) \<noteq> 0xEEEE"
    "iqs7219_status_active (xfer_word ?K1 (xfers world0 + 1))"
    "iqs7219_status_active (xfer_word ?K1 (xfers world0 + 2))"
    "iqs7219_status_done (xfer_word ?K1 (xfers world0 + 3))"
    by (simp_all add: x status_kernel_word iqs7219_status_values)
  have h2: "xfer_word ?K2 (xfers world0) \<noteq> 0xEEEE"
    "\<forall>k<5. iqs7219_status_error (xfer_word ?K2 (xfers world0 + 1 + k))"
    unfolding word_cases5 by (simp_all add: x status_kernel_word iqs7219_status_values)
  have h3: "iqs323_status_active (xfer_word ?K3 (xfers world0))"
    "iqs323_status_active (xfer_word ?K3 (xfers world0 + 1))"
    "iqs323_status_done (xfer_word ?K3 (xfers world0 + 2))"
    by (simp_all add: x status_kernel_word iqs323_status_values)
  have h4: "\<forall>k<5. iqs323_status_error (xfer_word ?K4 (xfers world0 + k))"
    unfolding word_cases5 by (simp add: x status_kernel_word iqs323_status_values)
  have w: "xfer_word ?K1 0 = 0x00C3" by (simp add: status_kernel_word)
  have m1: "iqs7219_redo_ati_msg 0x00C3 = [0x80, 0x07, 0]"
    by (simp add: iqs7219_redo_ati_msg_def IQS7219_SYS_SETUP_def
          IQS7219_SYS_SETUP_INTF_MODE_MASK_def IQS7219_SYS_SETUP_PWR_MODE_MASK_def
          IQS7219_SYS_SETUP_REDO_ATI_def GENMASK_def BIT_def le16_bytes_def)
  have m2: "iqs7219_restore_msg (iqs7219_idle\<lparr>intf_mode := 0x40\<rparr>) 0x00C3 = [0x80, 0x43, 0]"
    by (simp add: iqs7219_restore_msg_def IQS7219_SYS_SETUP_def
          IQS7219_SYS_SETUP_INTF_MODE_MASK_def GENMASK_def le16_bytes_def)
  have r5: "replicate 5 e = [e, e, e, e, e]" for e :: "io list"
    by (simp add: eval_nat_numeral)
  note T = ati_trigger_outcomes [where ?K1.0 = ?K1 and ?K2.0 = ?K2 and ?K3.0 = ?K3
      and ?K4.0 = ?K4 and ?w1.0 = world0 and ?w2.0 = world0 and ?w3.0 = world0
      and ?w4.0 = world0 and ?st1.0 = "iqs7219_idle\<lparr>intf_mode := 0x40\<rparr>"
      and ?st2.0 = iqs7219_idle and ?st3.0 = iqs323_idle and ?st4.0 = iqs323_idle]
  from T status_kernel_ready h1 h2 h3 h4 show ?thesis
    by (simp add: x w m1 m2 r5 IQS7219_SYS_SETUP_def IQS7219_SYS_STATUS_def)
qed

section \<open>Properties of the IQS323 power management\<close>

text \<open>A stretch of the run that puts nothing but messages on the bus: no bus read, no
  pulse on the reset line and no event.\<close>

definition is_send :: "io \<Rightarrow> bool" where
  "is_send e = (case e of I2c_send m \<Rightarrow> True | _ \<Rightarrow> False)"

definition sends_only :: "world \<Rightarrow> world \<Rightarrow> bool" where
  "sends_only w w' \<longleftrightarrow>
     xfers w' = xfers w \<and> (\<exists>evs. trace w' = trace w @ evs \<and> list_all is_send evs)"

lemma sends_only_refl [simp]: "sends_only w w"
  by (simp add: sends_only_def)

lemma sends_only_trans: "sends_only w w' \<Longrightarrow> sends_only w' w'' \<Longrightarrow> sends_only w w''"
  by (auto simp: sends_only_def)

lemma sends_only_step:
  "sends_only w w' \<Longrightarrow> xfers w'' = xfers w' \<Longrightarrow>
     trace w'' = trace w' \<or> (\<exists>m. trace w'' = trace w' @ [I2c_send m]) \<Longrightarrow> sends_only w w''"
  by (auto simp: sends_only_def is_send_def)

lemma iqs323_irq_poll_sends:
  "iqs323_irq_poll K t w = (r, w') \<Longrightarrow> sends_only w w'"
  by (auto simp: sends_only_def iqs323_irq_poll_def readx_poll_timeout_def Let_def)

lemma iqs323_force_comms_sends:
  "iqs323_force_comms K w = (r, w') \<Longrightarrow> sends_only w w'"
  by (auto simp: sends_only_def is_send_def iqs323_force_comms_def gpiod_get_value_cansleep_def
        i2c_master_send_def msleep_def iqs323_irq_wait_def usleep_range_def iqs323_irq_poll_def
        readx_poll_timeout_def Let_def
        split: prod.splits if_splits)

lemma iqs323_write_attempts_sends:
  "iqs323_write_attempts n K msg r0 w = (r, w') \<Longrightarrow> sends_only w w'"
proof (induction n arbitrary: r0 w)
  case 0
  then show ?case by simp
next
  case (Suc n)
  obtain r1 w1 where fc: "iqs323_force_comms K w = (r1, w1)"
    by (cases "iqs323_force_comms K w")
  note s1 = iqs323_force_comms_sends [OF fc]
  show ?case
  proof (cases "r1 < 0")
    case True
    with Suc.prems fc have "iqs323_write_attempts n K msg r1 w1 = (r, w')" by simp
    from sends_only_trans [OF s1 Suc.IH [OF this]] show ?thesis .
  next
    case False
    let ?w2 = "w1\<lparr>sends := Suc (sends w1), trace := trace w1 @ [I2c_send msg]\<rparr>"
    have s2: "sends_only w ?w2" using s1 by (rule sends_only_step) simp_all
    show ?thesis
    proof (cases "i2c_send_ret K (sends w1) < int (length msg)")
      case True
      with Suc.prems fc False have "iqs323_write_attempts n K msg
          (if i2c_send_ret K (sends w1) \<ge> 0 then - EIO else i2c_send_ret K (sends w1))
          (msleep IQS323_COMMS_RETRY_MS ?w2) = (r, w')"
        by (simp add: i2c_master_send_def)
      have "sends_only w (msleep IQS323_COMMS_RETRY_MS ?w2)"
        using s2 by (rule sends_only_step) (simp_all add: msleep_def)
      from sends_only_trans [OF this Suc.IH [OF \<open>iqs323_write_attempts n K msg _ _ = (r, w')\<close>]]
      show ?thesis .
    next
      case ok: False
      with Suc.prems fc False have "w' = ?w2" by (simp add: i2c_master_send_def)
      with s2 show ?thesis by simp
    qed
  qed
qed

lemma iqs323_write_burst_sends:
  "iqs323_write_burst K reg val w = (r, w') \<Longrightarrow> sends_only w w'"
  by (auto simp: iqs323_write_burst_def iqs323_irq_wait_def usleep_range_def
        split: prod.splits dest!: iqs323_write_attempts_sends elim!: sends_only_step)

lemma iqs323_write_mode_sends:
  "iqs323_write_mode K st mode power_mode cmd w = (r, w') \<Longrightarrow> sends_only w w'"
  by (auto simp: iqs323_write_mode_def iqs323_write_word_def Let_def
        split: prod.splits dest!: iqs323_write_burst_sends)



text \<open>What a run leaves on the trace apart from the messages it sent: the bus reads, the
  pulses on the reset line and the events.\<close>

definition probes :: "io list \<Rightarrow> io list" where
  "probes tr = filter (\<lambda>e. \<not> is_send e) tr"

lemma probes_simps [simp]:
  "probes [] = []"
  "probes (xs @ ys) = probes xs @ probes ys"
  "probes (I2c_send m # xs) = probes xs"
  "probes (I2c_read a n # xs) = I2c_read a n # probes xs"
  "probes (Gpio_set b # xs) = Gpio_set b # probes xs"
  by (simp_all add: probes_def is_send_def)

lemma sends_only_probes:
  "sends_only w w' \<Longrightarrow> probes (trace w') = probes (trace w) \<and> xfers w' = xfers w"
  by (auto simp: sends_only_def probes_def list_all_iff filter_empty_conv)

lemma length_le16_buf: "length (le16_buf ws) = 2 * length ws"
  by (induction ws) (simp_all add: le16_buf_def le16_bytes_def)

lemma iqs323_dev_init_rows_bus_ready:
  assumes "bus_ready K" "nc \<le> 30"
  shows "\<exists>w'. iqs323_dev_init_rows K WRITE g nc js reg val_buf st w = ((0, st), w')
            \<and> sends_only w w'"
proof (induction js arbitrary: reg w)
  case Nil
  then show ?case by simp
next
  case (Cons j js)
  let ?val = "le16_buf (take nc (the (iqs323_setup st g j)))"
  have "length ?val < 63" using assms(2) by (simp add: length_le16_buf)
  from iqs323_write_burst_bus_ready [OF assms(1) this, of "ucast reg" w]
  have wb: "iqs323_write_burst K (ucast reg) ?val w = (0, iqs323_after_write (ucast reg # ?val) w)" .
  have s: "sends_only w (iqs323_after_write (ucast reg # ?val) w)"
    using iqs323_write_burst_sends [OF wb] .
  from Cons.IH [of "reg + IQS323_REG_OFFSET" "iqs323_after_write (ucast reg # ?val) w"]
  obtain w' where "iqs323_dev_init_rows K WRITE g nc js (reg + IQS323_REG_OFFSET) val_buf st
       (iqs323_after_write (ucast reg # ?val) w) = ((0, st), w')"
    and "sends_only (iqs323_after_write (ucast reg # ?val) w) w'"
    by blast
  with wb s show ?case by (auto intro: sends_only_trans)
qed

text \<open>The register groups of the device are no wider than a bus message can carry.\<close>

definition iqs323_cols_ok :: "iqs323_private \<Rightarrow> bool" where
  "iqs323_cols_ok st \<longleftrightarrow> (\<forall>g. num_col (reg_grps (q_dev_desc st) g) \<le> 30)"

lemma iqs323_devs_cols_ok: "q_dev_desc st \<in> set iqs323_devs \<Longrightarrow> iqs323_cols_ok st"
proof -
  have "num_col (iqs323_reg_grps_rel g) \<le> 30" "num_col (iqs323_reg_grps_mov g) \<le> 30" for g
    by (cases g; simp add: iqs323_grp_def)+
  then show "q_dev_desc st \<in> set iqs323_devs \<Longrightarrow> iqs323_cols_ok st"
    by (auto simp: iqs323_cols_ok_def iqs323_devs_def)
qed

lemma iqs323_dev_init_grps_bus_ready:
  assumes "bus_ready K" "iqs323_cols_ok st"
  shows "\<exists>w'. iqs323_dev_init_grps K WRITE gs st w = ((0, st), w') \<and> sends_only w w'"
proof (induction gs arbitrary: w)
  case Nil
  then show ?case by simp
next
  case (Cons g gs)
  let ?d = "reg_grps (q_dev_desc st) g"
  show ?case
  proof (cases "num_col ?d = 0 \<or> iqs323_setup st g 0 = None")
    case True
    with Cons.IH [of w] show ?thesis by (auto simp: Let_def)
  next
    case False
    have nc: "num_col ?d \<le> 30" using assms(2) by (simp add: iqs323_cols_ok_def)
    from iqs323_dev_init_rows_bus_ready [OF assms(1) nc, of g "[0..<num_row ?d]" "base ?d"
        "replicate (num_col ?d * 2) 0" st w]
    obtain w1 where r: "iqs323_dev_init_rows K WRITE g (num_col ?d) [0..<num_row ?d] (base ?d)
        (replicate (num_col ?d * 2) 0) st w = ((0, st), w1)" and s1: "sends_only w w1"
      by blast
    from Cons.IH [of w1] obtain w' where
      "iqs323_dev_init_grps K WRITE gs st w1 = ((0, st), w')" "sends_only w1 w'"
      by blast
    with False r s1 show ?thesis by (auto simp: Let_def intro: sends_only_trans)
  qed
qed

lemma iqs323_cols_ok_intf [simp]:
  "iqs323_cols_ok (st\<lparr>q_intf_mode := m\<rparr>) = iqs323_cols_ok st"
  by (simp add: iqs323_cols_ok_def)

lemma iqs323_dev_init_bus_ready:
  assumes "bus_ready K" "iqs323_cols_ok st"
    and "iqs323_status_done (xfer_word K (xfers w))"
  shows "\<exists>w'. iqs323_dev_init K WRITE st w = ((0, st\<lparr>q_intf_mode := IQS323_INTF_MODE_STREAM\<rparr>), w')
            \<and> xfers w' = Suc (xfers w)
            \<and> probes (trace w') = probes (trace w) @ [I2c_read [IQS323_SYS_STATUS] 2]"
proof -
  let ?st = "st\<lparr>q_intf_mode := IQS323_INTF_MODE_STREAM\<rparr>"
  let ?w1 = "iqs323_after_write (iqs323_mode_msg st IQS323_INTF_MODE_STREAM IQS323_POWER_MODE_USER
               IQS323_SYS_SETUP_ACK_RESET) w"
  have m: "iqs323_write_mode K st IQS323_INTF_MODE_STREAM IQS323_POWER_MODE_USER
             IQS323_SYS_SETUP_ACK_RESET w = ((0, ?st), ?w1)"
    by (rule iqs323_write_mode_bus_ready [OF assms(1)])
  have s1: "sends_only w ?w1" using iqs323_write_mode_sends [OF m] .
  from iqs323_dev_init_grps_bus_ready [OF assms(1), of ?st iqs323_all_reg_grps ?w1] assms(2)
  obtain w2 where g: "iqs323_dev_init_grps K WRITE iqs323_all_reg_grps ?st ?w1 = ((0, ?st), w2)"
    and s2: "sends_only ?w1 w2"
    by auto
  note p2 = sends_only_probes [OF sends_only_trans [OF s1 s2]]
  have d: "xfer_word K (xfers w2) \<noteq> 0xEEEE"
    "xfer_word K (xfers w2) AND IQS323_SYS_STATUS_RESET = 0"
    "xfer_word K (xfers w2) AND IQS323_SYS_STATUS_ATI_ERROR = 0"
    "xfer_word K (xfers w2) AND IQS323_SYS_STATUS_ATI_ACTIVE = 0"
    using assms(3) p2 by (simp_all add: iqs323_status_done_def)
  have five: "IQS323_NUM_RETRIES = Suc 4" by (simp add: IQS323_NUM_RETRIES_def)
  have a: "iqs323_ati_trigger K ?st w2 = ((0, ?st), iqs323_attempt (iqs323_redo_ati_msg st) w2)"
    unfolding iqs323_ati_trigger_def five
    using iqs323_ati_attempts_bus_ready [OF assms(1) d(1), of 4 ?st 0] d(2-4)
    by (simp del: iqs323_ati_attempts.simps)
  have "iqs323_dev_init K WRITE st w = ((0, ?st), iqs323_attempt (iqs323_redo_ati_msg st) w2)"
    unfolding iqs323_dev_init_def by (simp add: m g a)
  then show ?thesis using p2 by simp
qed

lemma iqs323_hard_reset_bus_ready:
  assumes "bus_ready K"
  shows "\<exists>w'. iqs323_hard_reset K w = (0, w') \<and> xfers w' = xfers w
            \<and> probes (trace w') = probes (trace w) @ [Gpio_set True, Gpio_set False]"
  by (simp add: iqs323_hard_reset_def iqs323_irq_poll_bus_ready [OF assms]
        gpiod_set_value_cansleep_def msleep_def iqs323_irq_wait_def usleep_range_def)


text \<open>The identity read of round \<open>r\<close> is the wrong one and the initialisation that follows
  finds the ATI complete.\<close>

definition iqs323_round_mismatch :: "kernel \<Rightarrow> iqs323_private \<Rightarrow> nat \<Rightarrow> bool" where
  "iqs323_round_mismatch K st n \<longleftrightarrow>
     xfer_word K n \<noteq> 0xEEEE \<and> xfer_word K n \<noteq> prod_num (q_dev_desc st)
     \<and> iqs323_status_done (xfer_word K (Suc n))"

lemma iqs323_round_mismatch_intf [simp]:
  "iqs323_round_mismatch K (st\<lparr>q_intf_mode := m\<rparr>) n = iqs323_round_mismatch K st n"
  by (simp add: iqs323_round_mismatch_def)










section \<open>Properties of the status priority\<close>

text \<open>The events a run hands to the IIO core and to the input core: the trace without
  the bus traffic and the pulses on the reset line.\<close>

definition is_bus :: "io \<Rightarrow> bool" where
  "is_bus e = (case e of I2c_send m \<Rightarrow> True | I2c_read a n \<Rightarrow> True | Gpio_set b \<Rightarrow> True
               | _ \<Rightarrow> False)"

definition events :: "io list \<Rightarrow> io list" where
  "events tr = filter (\<lambda>e. \<not> is_bus e) tr"

lemma events_simps [simp]:
  "events [] = []"
  "events (xs @ ys) = events xs @ events ys"
  "events (I2c_send m # xs) = events xs"
  "events (I2c_read a n # xs) = events xs"
  "events (Gpio_set b # xs) = events xs"
  "events (Iio_push_event c d # xs) = Iio_push_event c d # events xs"
  "events (Iio_trigger_poll # xs) = Iio_trigger_poll # events xs"
  "events (Input_event t c v # xs) = Input_event t c v # events xs"
  by (simp_all add: events_def is_bus_def)

lemma iqs7219_irq_poll_until_trace:
  "trace (snd (iqs7219_irq_poll_until K t w)) = trace w"
proof (induction K t w rule: iqs7219_irq_poll_until.induct)
  case (1 K t w)
  obtain ret w' where g: "gpiod_get_value_cansleep K (usleep_range 1000 w) = (ret, w')"
    by (cases "gpiod_get_value_cansleep K (usleep_range 1000 w)")
  then have n: "trace w' = trace w"
    by (auto simp: gpiod_get_value_cansleep_def usleep_range_def)
  show ?case
  proof (cases "\<not> ret < 0 \<and> \<not> ret > 0 \<and> now w' < t")
    case True
    with 1 [OF g [symmetric]] g n show ?thesis
      by (subst iqs7219_irq_poll_until.simps) simp
  next
    case False
    with g n show ?thesis
      by (subst iqs7219_irq_poll_until.simps) auto
  qed
qed

lemma iqs7219_irq_poll_events:
  "iqs7219_irq_poll K t w = (r, w') \<Longrightarrow> events (trace w') = events (trace w)"
  using iqs7219_irq_poll_until_trace [of K "now w + 1000 * t" w]
  by (simp add: iqs7219_irq_poll_def)

lemma iqs7219_force_comms_events:
  "iqs7219_force_comms K w = (r, w') \<Longrightarrow> events (trace w') = events (trace w)"
  by (auto simp: iqs7219_force_comms_def gpiod_get_value_cansleep_def i2c_master_send_def
        msleep_def split: prod.splits if_splits dest!: iqs7219_irq_poll_events)

lemma iqs7219_read_attempts_events:
  "iqs7219_read_attempts n K reg num_val rb w = (rb', w') \<Longrightarrow>
     events (trace w') = events (trace w)"
proof (induction n arbitrary: rb w)
  case 0
  then show ?case by simp
next
  case (Suc n)
  obtain ret0 buf where rb: "rb = (ret0, buf)" by (cases rb)
  obtain ret w1 where fc: "iqs7219_force_comms K w = (ret, w1)"
    by (cases "iqs7219_force_comms K w")
  note n1 = iqs7219_force_comms_events [OF fc]
  obtain r2 b2 w2 where tr: "i2c_transfer K [reg] (num_val * 2) w1 = ((r2, b2), w2)"
    by (cases "i2c_transfer K [reg] (num_val * 2) w1") auto
  then have n2: "events (trace w2) = events (trace w1)" by (auto simp: i2c_transfer_def)
  have n3: "events (trace (msleep t w2)) = events (trace w1)" for t
    using n2 by (simp add: msleep_def)
  from Suc.prems rb fc tr n1 n2 n3 show ?case
    by (auto split: if_splits dest!: Suc.IH)
qed

lemma iqs7219_read_burst_events:
  "iqs7219_read_burst K reg val num_val w = (rb, w') \<Longrightarrow> events (trace w') = events (trace w)"
  by (auto simp: iqs7219_read_burst_def usleep_range_def
        split: prod.splits dest!: iqs7219_read_attempts_events)

lemma iqs7219_read_word_events:
  "iqs7219_read_word K reg w = (rv, w') \<Longrightarrow> events (trace w') = events (trace w)"
  by (auto simp: iqs7219_read_word_def split: prod.splits dest!: iqs7219_read_burst_events)

lemma iqs7219_write_attempts_events:
  "iqs7219_write_attempts n K msg r0 w = (r, w') \<Longrightarrow> events (trace w') = events (trace w)"
proof (induction n arbitrary: r0 w)
  case 0
  then show ?case by simp
next
  case (Suc n)
  obtain ret w1 where fc: "iqs7219_force_comms K w = (ret, w1)"
    by (cases "iqs7219_force_comms K w")
  note n1 = iqs7219_force_comms_events [OF fc]
  obtain r2 w2 where tr: "i2c_master_send K msg w1 = (r2, w2)"
    by (cases "i2c_master_send K msg w1")
  then have n2: "events (trace w2) = events (trace w1)" by (auto simp: i2c_master_send_def)
  have n3: "events (trace (msleep t w2)) = events (trace w1)" for t
    using n2 by (simp add: msleep_def)
  from Suc.prems fc tr n1 n2 n3 show ?case
    by (auto split: if_splits dest!: Suc.IH)
qed

lemma iqs7219_write_burst_events:
  "iqs7219_write_burst K reg val w = (r, w') \<Longrightarrow> events (trace w') = events (trace w)"
  by (auto simp: iqs7219_write_burst_def usleep_range_def
        split: prod.splits dest!: iqs7219_write_attempts_events)

lemma iqs7219_write_word_events:
  "iqs7219_write_word K reg v w = (r, w') \<Longrightarrow> events (trace w') = events (trace w)"
  by (auto simp: iqs7219_write_word_def dest!: iqs7219_write_burst_events)

lemma iqs7219_ati_wait_events:
  "events (trace (snd (iqs7219_ati_wait K mode sys t w))) = events (trace w)"
proof (induction K mode sys t w rule: iqs7219_ati_wait.induct)
  case (1 K mode sys t w)
  obtain e1 w1 where p: "iqs7219_irq_poll K IQS7219_COMMS_TIMEOUT_MS w = (e1, w1)"
    by (cases "iqs7219_irq_poll K IQS7219_COMMS_TIMEOUT_MS w")
  note n1 = iqs7219_irq_poll_events [OF p]
  obtain e2 s w2 where r: "iqs7219_read_word K IQS7219_SYS_STATUS w1 = ((e2, s), w2)"
    by (cases "iqs7219_read_word K IQS7219_SYS_STATUS w1") auto
  note n2 = iqs7219_read_word_events [OF r]
  obtain e3 w3 where wr: "iqs7219_write_word K IQS7219_SYS_SETUP (sys OR mode) w2 = (e3, w3)"
    by (cases "iqs7219_write_word K IQS7219_SYS_SETUP (sys OR mode) w2")
  note n3 = iqs7219_write_word_events [OF wr]
  have i1: "e1 \<noteq> 0 \<Longrightarrow> now w1 < t \<Longrightarrow>
      events (trace (snd (iqs7219_ati_wait K mode sys t w1))) = events (trace w1)"
    using "1.IH"(1) [OF p [symmetric]] by simp
  have i2: "e1 = 0 \<Longrightarrow> e2 = 0 \<Longrightarrow> s AND IQS7219_SYS_STATUS_ATI_ACTIVE \<noteq> 0 \<Longrightarrow> now w2 < t \<Longrightarrow>
      events (trace (snd (iqs7219_ati_wait K mode sys t w2))) = events (trace w2)"
    using "1.IH"(2) [OF p [symmetric] _ r [symmetric] refl] by simp
  from p r wr n1 n2 n3 i1 i2 show ?case
    by (subst iqs7219_ati_wait.simps) (auto split: if_splits)
qed

lemma iqs7219_ati_attempts_events:
  "iqs7219_ati_attempts n K mode sys w = (r, w') \<Longrightarrow> events (trace w') = events (trace w)"
proof (induction n arbitrary: w)
  case 0
  then show ?case by simp
next
  case (Suc n)
  obtain e1 w1 where wr: "iqs7219_write_word K IQS7219_SYS_SETUP
             ((sys AND NOT IQS7219_SYS_SETUP_PWR_MODE_MASK) OR IQS7219_SYS_SETUP_REDO_ATI) w = (e1, w1)"
    by (cases "iqs7219_write_word K IQS7219_SYS_SETUP
             ((sys AND NOT IQS7219_SYS_SETUP_PWR_MODE_MASK) OR IQS7219_SYS_SETUP_REDO_ATI) w")
  note n1 = iqs7219_write_word_events [OF wr]
  obtain o2 w2 where aw: "iqs7219_ati_wait K mode sys (now w1 + 1000 * IQS7219_ATI_TIMEOUT_MS) w1 = (o2, w2)"
    by (cases "iqs7219_ati_wait K mode sys (now w1 + 1000 * IQS7219_ATI_TIMEOUT_MS) w1")
  have n2: "events (trace w2) = events (trace w1)"
    using iqs7219_ati_wait_events [of K mode sys "now w1 + 1000 * IQS7219_ATI_TIMEOUT_MS" w1] aw
    by simp
  from Suc.prems wr aw n1 n2 show ?case
    by (auto split: if_splits option.splits dest!: Suc.IH)
qed

lemma iqs7219_ati_trigger_events:
  "iqs7219_ati_trigger K st w = (r, w') \<Longrightarrow> events (trace w') = events (trace w)"
  by (auto simp: iqs7219_ati_trigger_def split: prod.splits if_splits
        dest!: iqs7219_read_word_events iqs7219_ati_attempts_events)

lemma iqs7219_write_comms_events:
  "iqs7219_write_comms K st msk w = (r, w') \<Longrightarrow> events (trace w') = events (trace w)"
  by (auto simp: iqs7219_write_comms_def split: prod.splits if_splits
        dest!: iqs7219_read_word_events iqs7219_write_word_events)

lemma iqs7219_dev_init_grps_write:
  "iqs7219_dev_init_grps K WRITE gs st w = ((r, st'), w') \<Longrightarrow>
     st' = st \<and> events (trace w') = events (trace w)"
proof (induction gs arbitrary: w)
  case Nil
  then show ?case by simp
next
  case (Cons g gs)
  obtain e1 w1 where wb: "iqs7219_write_burst K (ucast (base (iqs7219_reg_grps g)))
      (le16_buf (iqs7219_setup_flat st g)) w = (e1, w1)"
    by (cases "iqs7219_write_burst K (ucast (base (iqs7219_reg_grps g)))
      (le16_buf (iqs7219_setup_flat st g)) w")
  note n1 = iqs7219_write_burst_events [OF wb]
  from Cons.prems wb n1 show ?case
    by (auto simp: iqs7219_dev_init_grp_def Let_def split: if_splits dest!: Cons.IH)
qed

lemma iqs7219_dev_init_write:
  "iqs7219_dev_init K WRITE st w = ((r, st'), w') \<Longrightarrow>
     st' = st \<and> events (trace w') = events (trace w)"
  by (auto simp: iqs7219_dev_init_def split: prod.splits if_splits
        dest!: iqs7219_write_word_events iqs7219_write_comms_events iqs7219_dev_init_grps_write
          iqs7219_ati_trigger_events)

lemma is_send_bus: "is_send e \<Longrightarrow> is_bus e"
  by (cases e) (simp_all add: is_send_def is_bus_def)

lemma sends_only_events:
  "sends_only w w' \<Longrightarrow> events (trace w') = events (trace w)"
proof -
  assume "sends_only w w'"
  then obtain evs where t: "trace w' = trace w @ evs" and a: "list_all is_send evs"
    by (auto simp: sends_only_def)
  from a have "list_all is_bus evs" by (induction evs) (simp_all add: is_send_bus)
  then have "events evs = []" by (simp add: events_def list_all_iff filter_empty_conv)
  with t show ?thesis by simp
qed

lemma iqs323_irq_poll_events:
  "iqs323_irq_poll K t w = (r, w') \<Longrightarrow> events (trace w') = events (trace w)"
  by (auto dest!: iqs323_irq_poll_sends sends_only_events)

lemma iqs323_hard_reset_events:
  "iqs323_hard_reset K w = (r, w') \<Longrightarrow> events (trace w') = events (trace w)"
  by (auto simp: iqs323_hard_reset_def gpiod_set_value_cansleep_def msleep_def
        iqs323_irq_wait_def usleep_range_def dest!: iqs323_irq_poll_events)

lemma iqs323_force_comms_events:
  "iqs323_force_comms K w = (r, w') \<Longrightarrow> events (trace w') = events (trace w)"
  by (auto dest!: iqs323_force_comms_sends sends_only_events)

lemma iqs323_read_attempts_events:
  "iqs323_read_attempts n K reg num_val rb w = (rb', w') \<Longrightarrow>
     events (trace w') = events (trace w)"
proof (induction n arbitrary: rb w)
  case 0
  then show ?case by simp
next
  case (Suc n)
  obtain ret0 buf where rb: "rb = (ret0, buf)" by (cases rb)
  obtain ret w1 where fc: "iqs323_force_comms K w = (ret, w1)"
    by (cases "iqs323_force_comms K w")
  note n1 = iqs323_force_comms_events [OF fc]
  obtain r2 b2 w2 where tr: "i2c_transfer K [reg] (num_val * 2) w1 = ((r2, b2), w2)"
    by (cases "i2c_transfer K [reg] (num_val * 2) w1") auto
  then have n2: "events (trace w2) = events (trace w1)" by (auto simp: i2c_transfer_def)
  have n3: "events (trace (msleep t w2)) = events (trace w1)" for t
    using n2 by (simp add: msleep_def)
  from Suc.prems rb fc tr n1 n2 n3 show ?case
    by (auto split: if_splits dest!: Suc.IH)
qed

lemma iqs323_read_burst_events:
  "iqs323_read_burst K reg val num_val w = (rb, w') \<Longrightarrow> events (trace w') = events (trace w)"
  by (auto simp: iqs323_read_burst_def iqs323_irq_wait_def usleep_range_def
        split: prod.splits dest!: iqs323_read_attempts_events)

lemma iqs323_read_word_events:
  "iqs323_read_word K reg w = (rv, w') \<Longrightarrow> events (trace w') = events (trace w)"
  by (auto simp: iqs323_read_word_def split: prod.splits dest!: iqs323_read_burst_events)

lemma iqs323_write_burst_events:
  "iqs323_write_burst K reg val w = (r, w') \<Longrightarrow> events (trace w') = events (trace w)"
  by (auto dest!: iqs323_write_burst_sends sends_only_events)

lemma iqs323_write_mode_events:
  "iqs323_write_mode K st mode power_mode cmd w = (r, w') \<Longrightarrow>
     events (trace w') = events (trace w)"
  by (auto dest!: iqs323_write_mode_sends sends_only_events)

lemma iqs323_ati_attempts_events:
  "iqs323_ati_attempts n K st e0 w = (r, w') \<Longrightarrow> events (trace w') = events (trace w)"
proof (induction n arbitrary: st e0 w)
  case 0
  then show ?case by simp
next
  case (Suc n)
  obtain e1 st1 w1 where m: "iqs323_write_mode K st IQS323_INTF_MODE_STREAM IQS323_POWER_MODE_USER
             IQS323_SYS_SETUP_REDO_ATI w = ((e1, st1), w1)"
    by (cases "iqs323_write_mode K st IQS323_INTF_MODE_STREAM IQS323_POWER_MODE_USER
             IQS323_SYS_SETUP_REDO_ATI w") auto
  note n1 = iqs323_write_mode_events [OF m]
  obtain e2 w2 where p: "iqs323_irq_poll K IQS323_ATI_TIMEOUT_US w1 = (e2, w2)"
    by (cases "iqs323_irq_poll K IQS323_ATI_TIMEOUT_US w1")
  note n2 = iqs323_irq_poll_events [OF p]
  obtain e3 s w3 where rd: "iqs323_read_word K IQS323_SYS_STATUS w2 = ((e3, s), w3)"
    by (cases "iqs323_read_word K IQS323_SYS_STATUS w2") auto
  note n3 = iqs323_read_word_events [OF rd]
  from Suc.prems m p rd n1 n2 n3 show ?case
    by (auto split: if_splits dest!: Suc.IH)
qed

lemma iqs323_ati_trigger_events:
  "iqs323_ati_trigger K st w = (r, w') \<Longrightarrow> events (trace w') = events (trace w)"
  by (auto simp: iqs323_ati_trigger_def dest!: iqs323_ati_attempts_events)

lemma iqs323_dev_init_rows_write_events:
  "iqs323_dev_init_rows K WRITE g nc js reg val_buf st w = (r, w') \<Longrightarrow>
     events (trace w') = events (trace w)"
proof (induction js arbitrary: reg w)
  case Nil
  then show ?case by simp
next
  case (Cons j js)
  obtain e1 w1 where wb: "iqs323_write_burst K (ucast reg)
      (le16_buf (take nc (the (iqs323_setup st g j)))) w = (e1, w1)"
    by (cases "iqs323_write_burst K (ucast reg) (le16_buf (take nc (the (iqs323_setup st g j)))) w")
  note n1 = iqs323_write_burst_events [OF wb]
  from Cons.prems wb n1 show ?case
    by (auto split: if_splits dest!: Cons.IH)
qed

lemma iqs323_dev_init_grps_write_events:
  "iqs323_dev_init_grps K WRITE gs st w = (r, w') \<Longrightarrow> events (trace w') = events (trace w)"
proof (induction gs arbitrary: st w)
  case Nil
  then show ?case by simp
next
  case (Cons g gs)
  let ?d = "reg_grps (q_dev_desc st) g"
  obtain e1 st1 w1 where rows: "iqs323_dev_init_rows K WRITE g (num_col ?d) [0..<num_row ?d]
      (base ?d) (replicate (num_col ?d * 2) 0) st w = ((e1, st1), w1)"
    by (cases "iqs323_dev_init_rows K WRITE g (num_col ?d) [0..<num_row ?d]
      (base ?d) (replicate (num_col ?d * 2) 0) st w") auto
  note n1 = iqs323_dev_init_rows_write_events [OF rows]
  from Cons.prems rows n1 show ?case
    by (auto simp: Let_def split: if_splits dest!: Cons.IH)
qed

lemma iqs323_dev_init_write_events:
  "iqs323_dev_init K WRITE st w = (r, w') \<Longrightarrow> events (trace w') = events (trace w)"
  by (auto simp: iqs323_dev_init_def split: prod.splits if_splits
        dest!: iqs323_write_mode_events iqs323_dev_init_grps_write_events
          iqs323_ati_trigger_events)

lemma iqs323_read_burst_bus_ready:
  assumes "bus_ready K" "get_unaligned_le16 (xfer_bytes K (nv * 2) (xfers w)) \<noteq> 0xEEEE"
  shows "iqs323_read_burst K reg val nv w
           = ((0, xfer_bytes K (nv * 2) (xfers w)), iqs323_after_read reg (nv * 2) w)"
proof -
  have x: "\<not> i2c_xfer_ret K (xfers w) < 2" using assms(1) by (simp add: bus_ready_def not_less)
  show ?thesis
    using assms(2) x
    by (simp add: iqs323_read_burst_def IQS323_NUM_RETRIES_def eval_nat_numeral
          iqs323_force_comms_bus_ready [OF assms(1)] i2c_transfer_def
          xfer_bytes_def IQS323_COMMS_ERROR_def usleep_range_def
          iqs323_irq_wait_def iqs323_after_read_def)
qed

text \<open>C7, amended. Once the status block has been read, \<^verbatim>\<open>iqs7219_report_sync\<close> handles
  the status flags in strict order. With the reset flag set it runs the device
  initialisation again and returns its error, or \<open>-EAGAIN\<close> to a caller that passed
  \<^verbatim>\<open>val\<close> if it succeeded; otherwise, with the ATI-error flag set, it runs the ATI
  trigger again and returns likewise; otherwise, with the ATI-active flag set, it returns
  \<open>-EAGAIN\<close> to such a caller having done nothing after the read. In these three cases
  the device state is as before and no event is dispatched. Only with none of the flags
  set are the events decoded and dispatched and the cached flags replaced.
  \<^verbatim>\<open>iqs323_process_events\<close> first looks at the last word of the block: unless it reads
  \<open>0xEEEE\<close>, whatever the flags, the device is reset and, if that succeeded, initialised
  again. Only then follow the same three flags in the same order, each returning
  \<open>-EAGAIN\<close> when its recovery succeeded, and the decoding of the events when none is
  set; no recovery dispatches an event.\<close>

theorem status_priority:
  "(iqs7219_read_burst K IQS7219_SYS_STATUS (replicate (IQS7219_NUM_COLS_STAT * 2) 0)
        IQS7219_NUM_COLS_STAT w = ((0, bytes), w1) \<longrightarrow>
     (let sys_flags = le16_words bytes ! 0;
          r = iqs7219_report_sync K st scan_id chan_index val w;
          di = iqs7219_dev_init K WRITE st w1;
          at = iqs7219_ati_trigger K st w1
      in if sys_flags AND IQS7219_SYS_STATUS_RESET \<noteq> 0 then
           r = (((if val \<and> fst (fst di) = 0 then - EAGAIN else fst (fst di)), None), st, snd di)
           \<and> events (trace (snd (snd r))) = events (trace w)
         else if sys_flags AND IQS7219_SYS_STATUS_ATI_ERROR \<noteq> 0 then
           r = (((if val \<and> fst at = 0 then - EAGAIN else fst at), None), st, snd at)
           \<and> events (trace (snd (snd r))) = events (trace w)
         else if sys_flags AND IQS7219_SYS_STATUS_ATI_ACTIVE \<noteq> 0 then
           r = (((if val then - EAGAIN else 0), None), st, w1)
           \<and> events (trace (snd (snd r))) = events (trace w)
         else
           fst (fst r) = 0 \<and> pxs_flags (fst (snd r)) = le16_words bytes ! 1
           \<and> pushed_events (trace (snd (snd r)))
               = pushed_events (trace w1) @ expected_events st (le16_words bytes ! 1)))
   \<and> (iqs323_read_burst K' IQS323_SYS_STATUS val_buf num_val w' = ((0, bytes'), w1') \<longrightarrow>
     (let words = le16_words bytes';
          r = iqs323_process_events K' st' val_buf num_val w';
          hr = iqs323_hard_reset K' w1';
          dr = iqs323_dev_init K' WRITE st' (snd hr);
          di = iqs323_dev_init K' WRITE st' w1';
          at = iqs323_ati_trigger K' st' w1'
      in if words ! (IQS323_MIN_REPORT_LEN - 1) \<noteq> IQS323_COMMS_ERROR then
           r = (if fst hr \<noteq> 0 then ((fst hr, st'), snd hr)
                else (((if fst (fst dr) \<noteq> 0 then fst (fst dr) else - EAGAIN), snd (fst dr)), snd dr))
           \<and> events (trace (snd r)) = events (trace w')
         else if words ! 0 AND IQS323_SYS_STATUS_RESET \<noteq> 0 then
           r = (((if fst (fst di) \<noteq> 0 then fst (fst di) else - EAGAIN), snd (fst di)), snd di)
           \<and> events (trace (snd r)) = events (trace w')
         else if words ! 0 AND IQS323_SYS_STATUS_ATI_ERROR \<noteq> 0 then
           r = (((if fst (fst at) \<noteq> 0 then fst (fst at) else - EAGAIN), snd (fst at)), snd at)
           \<and> events (trace (snd r)) = events (trace w')
         else if words ! 0 AND IQS323_SYS_STATUS_ATI_ACTIVE \<noteq> 0 then
           r = ((- EAGAIN, st'), w1') \<and> events (trace (snd r)) = events (trace w')
         else r = iqs323_decode_events K' st' words w1'))"
proof -
  have 1: "(let sys_flags = le16_words bytes ! 0;
          r = iqs7219_report_sync K st scan_id chan_index val w;
          di = iqs7219_dev_init K WRITE st w1;
          at = iqs7219_ati_trigger K st w1
      in if sys_flags AND IQS7219_SYS_STATUS_RESET \<noteq> 0 then
           r = (((if val \<and> fst (fst di) = 0 then - EAGAIN else fst (fst di)), None), st, snd di)
           \<and> events (trace (snd (snd r))) = events (trace w)
         else if sys_flags AND IQS7219_SYS_STATUS_ATI_ERROR \<noteq> 0 then
           r = (((if val \<and> fst at = 0 then - EAGAIN else fst at), None), st, snd at)
           \<and> events (trace (snd (snd r))) = events (trace w)
         else if sys_flags AND IQS7219_SYS_STATUS_ATI_ACTIVE \<noteq> 0 then
           r = (((if val then - EAGAIN else 0), None), st, w1)
           \<and> events (trace (snd (snd r))) = events (trace w)
         else
           fst (fst r) = 0 \<and> pxs_flags (fst (snd r)) = le16_words bytes ! 1
           \<and> pushed_events (trace (snd (snd r)))
               = pushed_events (trace w1) @ expected_events st (le16_words bytes ! 1))"
    if rd: "iqs7219_read_burst K IQS7219_SYS_STATUS (replicate (IQS7219_NUM_COLS_STAT * 2) 0)
        IQS7219_NUM_COLS_STAT w = ((0, bytes), w1)"
  proof -
    note e1 = iqs7219_read_burst_events [OF rd]
    obtain ed sd wd where di: "iqs7219_dev_init K WRITE st w1 = ((ed, sd), wd)"
      by (cases "iqs7219_dev_init K WRITE st w1") auto
    note d = iqs7219_dev_init_write [OF di]
    obtain ea wa where at: "iqs7219_ati_trigger K st w1 = (ea, wa)"
      by (cases "iqs7219_ati_trigger K st w1")
    note a = iqs7219_ati_trigger_events [OF at]
    let ?r = "iqs7219_report_sync K st scan_id chan_index val w"
    have rs: "?r = (fst ?r, fst (snd ?r), snd (snd ?r))" by simp
    have dec: "iqs7219_status_quiet (le16_words bytes ! 0) \<Longrightarrow>
        fst (fst ?r) = 0 \<and> pxs_flags (fst (snd ?r)) = le16_words bytes ! 1
           \<and> pushed_events (trace (snd (snd ?r)))
               = pushed_events (trace w1) @ expected_events st (le16_words bytes ! 1)"
      using report_sync_decode [OF rd _ rs] by simp
    show ?thesis
    proof (cases "iqs7219_status_quiet (le16_words bytes ! 0)")
      case True
      with dec show ?thesis by (simp add: Let_def iqs7219_status_quiet_def)
    next
      case False
      then show ?thesis
        using rd di at d a e1
        by (auto simp: Let_def iqs7219_status_quiet_def iqs7219_report_sync_def)
    qed
  qed
  have 2: "(let words = le16_words bytes';
          r = iqs323_process_events K' st' val_buf num_val w';
          hr = iqs323_hard_reset K' w1';
          dr = iqs323_dev_init K' WRITE st' (snd hr);
          di = iqs323_dev_init K' WRITE st' w1';
          at = iqs323_ati_trigger K' st' w1'
      in if words ! (IQS323_MIN_REPORT_LEN - 1) \<noteq> IQS323_COMMS_ERROR then
           r = (if fst hr \<noteq> 0 then ((fst hr, st'), snd hr)
                else (((if fst (fst dr) \<noteq> 0 then fst (fst dr) else - EAGAIN), snd (fst dr)), snd dr))
           \<and> events (trace (snd r)) = events (trace w')
         else if words ! 0 AND IQS323_SYS_STATUS_RESET \<noteq> 0 then
           r = (((if fst (fst di) \<noteq> 0 then fst (fst di) else - EAGAIN), snd (fst di)), snd di)
           \<and> events (trace (snd r)) = events (trace w')
         else if words ! 0 AND IQS323_SYS_STATUS_ATI_ERROR \<noteq> 0 then
           r = (((if fst (fst at) \<noteq> 0 then fst (fst at) else - EAGAIN), snd (fst at)), snd at)
           \<and> events (trace (snd r)) = events (trace w')
         else if words ! 0 AND IQS323_SYS_STATUS_ATI_ACTIVE \<noteq> 0 then
           r = ((- EAGAIN, st'), w1') \<and> events (trace (snd r)) = events (trace w')
         else r = iqs323_decode_events K' st' words w1')"
    if rd: "iqs323_read_burst K' IQS323_SYS_STATUS val_buf num_val w' = ((0, bytes'), w1')"
  proof -
    note e1 = iqs323_read_burst_events [OF rd]
    obtain eh wh where hr: "iqs323_hard_reset K' w1' = (eh, wh)"
      by (cases "iqs323_hard_reset K' w1'")
    note h = iqs323_hard_reset_events [OF hr]
    obtain rr wr where dr: "iqs323_dev_init K' WRITE st' wh = (rr, wr)"
      by (cases "iqs323_dev_init K' WRITE st' wh")
    note d1 = iqs323_dev_init_write_events [OF dr]
    obtain ri wi where di: "iqs323_dev_init K' WRITE st' w1' = (ri, wi)"
      by (cases "iqs323_dev_init K' WRITE st' w1'")
    note d2 = iqs323_dev_init_write_events [OF di]
    obtain ra wa where at: "iqs323_ati_trigger K' st' w1' = (ra, wa)"
      by (cases "iqs323_ati_trigger K' st' w1'")
    note a = iqs323_ati_trigger_events [OF at]
    show ?thesis
      using rd hr dr di at h d1 d2 a e1
      by (auto simp: Let_def iqs323_process_events_def split: prod.splits)
  qed
  from 1 2 show ?thesis by blast
qed

text \<open>A kernel on whose bus nothing fails; its first bus read delivers a given block and
  every later one zeros.\<close>

definition first_block_kernel :: "u8 list \<Rightarrow> kernel" where
  "first_block_kernel data = \<lparr>gpio_value = (\<lambda>n. 1), i2c_send_ret = (\<lambda>n. 64),
     i2c_xfer_ret = (\<lambda>n. 2), i2c_xfer_data = (\<lambda>n. if n = 0 then data else []),
     poll_value = (\<lambda>n. 1)\<rparr>"

text \<open>Two status blocks of the IQS323 with only the ATI-active flag set: one whose last
  word is not the \<open>0xEEEE\<close> of an unimplemented register, and one whose last word is.\<close>

definition active_block_bad :: "u8 list" where
  "active_block_bad = le16_buf [0x20, 0, 0, 0, 0, 0, 0, 0, 0, 0]"

definition active_block_good :: "u8 list" where
  "active_block_good = le16_buf [0x20, 0, 0, 0, 0, 0, 0, 0, 0, 0xEEEE]"

lemma first_block_kernel_ready: "bus_ready (first_block_kernel data)"
  by (simp add: bus_ready_def first_block_kernel_def)

lemma active_block_bad_words:
  "le16_words active_block_bad ! 0 = 0x20" "le16_words active_block_bad ! 9 = 0"
  "length active_block_bad = 20" "get_unaligned_le16 active_block_bad = 0x20"
  by code_simp+

text \<open>C7, as claimed, fails on the IQS323: a status block with only the ATI-active flag
  set, whose last word does not read \<open>0xEEEE\<close>, makes \<^verbatim>\<open>iqs323_process_events\<close> pulse the
  reset line and run the device initialisation before it reports the retry.\<close>

theorem iqs323_active_status_recovered:
  "le16_words active_block_bad ! 0 AND IQS323_SYS_STATUS_RESET = 0
   \<and> le16_words active_block_bad ! 0 AND IQS323_SYS_STATUS_ATI_ERROR = 0
   \<and> le16_words active_block_bad ! 0 AND IQS323_SYS_STATUS_ATI_ACTIVE \<noteq> 0
   \<and> fst (fst (iqs323_process_events (first_block_kernel active_block_bad) iqs323_idle
                 (replicate 20 0) 10 world0)) = - EAGAIN
   \<and> probes (trace (snd (iqs323_process_events (first_block_kernel active_block_bad) iqs323_idle
                 (replicate 20 0) 10 world0)))
       = [I2c_read [0x10] 20, Gpio_set True, Gpio_set False, I2c_read [0x10] 2]"
proof -
  let ?K = "first_block_kernel active_block_bad"
  let ?w1 = "iqs323_after_read IQS323_SYS_STATUS 20 world0"
  have x: "xfers world0 = 0" "trace world0 = []" by (simp_all add: world0_def)
  have b: "xfer_bytes ?K 20 (xfers world0) = active_block_bad"
    by (simp add: xfer_bytes_def first_block_kernel_def x active_block_bad_words)
  have rd: "iqs323_read_burst ?K IQS323_SYS_STATUS (replicate 20 0) 10 world0
              = ((0, active_block_bad), ?w1)"
    using iqs323_read_burst_bus_ready [OF first_block_kernel_ready, of active_block_bad 10 world0
        IQS323_SYS_STATUS "replicate 20 0"]
    by (simp add: b active_block_bad_words)
  from iqs323_hard_reset_bus_ready [OF first_block_kernel_ready, of active_block_bad ?w1]
  obtain w2 where h: "iqs323_hard_reset ?K ?w1 = (0, w2)" and x2: "xfers w2 = 1"
    and p2: "probes (trace w2) = [I2c_read [IQS323_SYS_STATUS] 20, Gpio_set True, Gpio_set False]"
    by (auto simp: x)
  have "xfer_word ?K 1 = 0"
    by (simp add: xfer_word_def xfer_bytes_def first_block_kernel_def get_unaligned_le16_def)
  then have d: "iqs323_status_done (xfer_word ?K (xfers w2))"
    by (simp add: x2 iqs323_status_values)
  have c: "iqs323_cols_ok iqs323_idle"
    by (rule iqs323_devs_cols_ok) (simp add: iqs323_idle_def iqs323_devs_def)
  from iqs323_dev_init_bus_ready [OF first_block_kernel_ready c d]
  obtain w3 where i: "iqs323_dev_init ?K WRITE iqs323_idle w2
        = ((0, iqs323_idle\<lparr>q_intf_mode := IQS323_INTF_MODE_STREAM\<rparr>), w3)"
    and p3: "probes (trace w3) = probes (trace w2) @ [I2c_read [IQS323_SYS_STATUS] 2]"
    by blast
  have "iqs323_process_events ?K iqs323_idle (replicate 20 0) 10 world0
          = ((- EAGAIN, iqs323_idle\<lparr>q_intf_mode := IQS323_INTF_MODE_STREAM\<rparr>), w3)"
    by (simp add: iqs323_process_events_def rd h i Let_def active_block_bad_words
          IQS323_MIN_REPORT_LEN_def IQS323_COMMS_ERROR_def)
  then show ?thesis
    by (simp add: p3 p2 active_block_bad_words IQS323_SYS_STATUS_def
          IQS323_SYS_STATUS_RESET_def IQS323_SYS_STATUS_ATI_ERROR_def
          IQS323_SYS_STATUS_ATI_ACTIVE_def BIT_def)
qed

theorem status_priority_witness:
  "fst (fst (iqs7219_report_sync (ready_kernel status_block0) iqs7219_idle (-1) (-1) False world0)) = 0
   \<and> pxs_flags (fst (snd (iqs7219_report_sync (ready_kernel status_block0) iqs7219_idle (-1) (-1)
        False world0))) = 1
   \<and> fst (fst (iqs323_process_events (ready_kernel active_block_good) iqs323_idle
        (replicate 20 0) 10 world0)) = - EAGAIN
   \<and> trace (snd (iqs323_process_events (ready_kernel active_block_good) iqs323_idle
        (replicate 20 0) 10 world0)) = [I2c_read [0x10] 20]"
proof -
  let ?K = "ready_kernel status_block0"
  let ?rd = "iqs7219_read_burst ?K IQS7219_SYS_STATUS (replicate (IQS7219_NUM_COLS_STAT * 2) 0)
                 IQS7219_NUM_COLS_STAT world0"
  let ?K' = "ready_kernel active_block_good"
  let ?rd' = "iqs323_read_burst ?K' IQS323_SYS_STATUS (replicate 20 0) 10 world0"
  have rd: "?rd = ((0, snd (fst ?rd)), snd ?rd)"
    by code_simp
  have rd': "?rd' = ((0, snd (fst ?rd')), snd ?rd')"
    by code_simp
  have f: "le16_words (snd (fst ?rd)) ! 0 = 0" "le16_words (snd (fst ?rd)) ! Suc 0 = 1"
    by code_simp+
  have f': "le16_words (snd (fst ?rd')) ! 0 = 0x20" "le16_words (snd (fst ?rd')) ! 9 = 0xEEEE"
    "trace (snd ?rd') = [I2c_read [0x10] 20]"
    by code_simp+
  note T = status_priority [where K = ?K and w = world0 and bytes = "snd (fst ?rd)"
      and ?w1.0 = "snd ?rd" and st = iqs7219_idle and scan_id = "-1" and chan_index = "-1"
      and val = False and K' = ?K' and val_buf = "replicate 20 0" and num_val = 10
      and w' = world0 and bytes' = "snd (fst ?rd')" and ?w1' = "snd ?rd'" and st' = iqs323_idle]
  from T rd rd' show ?thesis
    by (simp add: Let_def f f' IQS7219_SYS_STATUS_RESET_def IQS7219_SYS_STATUS_ATI_ERROR_def
          IQS7219_SYS_STATUS_ATI_ACTIVE_def IQS323_SYS_STATUS_RESET_def
          IQS323_SYS_STATUS_ATI_ERROR_def IQS323_SYS_STATUS_ATI_ACTIVE_def BIT_def
          IQS323_MIN_REPORT_LEN_def IQS323_COMMS_ERROR_def)
qed

end
